(* ===== verification/Redis_Prelude.thy ===== *)
theory Redis_Prelude
  imports Main "HOL-Library.Word"
begin

text \<open>
  Shared vocabulary of the development: names for the machine integers and the bytes of the
  C sources, decimal notation as a specification, and generic lemmas on words and lists that
  the component theories use. Nothing in this theory translates source code.
\<close>

unbundle bit_operations_syntax

type_synonym u8 = "8 word"
type_synonym u16 = "16 word"
type_synonym u32 = "32 word"
type_synonym u64 = "64 word"

named_theorems redis_simps \<open>unfolding rules for small accessors of the models\<close>

section \<open>Unsigned arithmetic at a width\<close>

definition addw :: "nat \<Rightarrow> nat \<Rightarrow> nat \<Rightarrow> nat" where
  "addw w a b = (a + b) mod 2 ^ w"

definition subw :: "nat \<Rightarrow> nat \<Rightarrow> nat \<Rightarrow> nat" where
  "subw w a b = (a + (2 ^ w - b mod 2 ^ w)) mod 2 ^ w"

lemma addw_small: "a + b < 2 ^ w \<Longrightarrow> addw w a b = a + b"
  by (simp add: addw_def)

lemma subw_small: "b \<le> a \<Longrightarrow> a < 2 ^ w \<Longrightarrow> subw w a b = a - b"
proof -
  assume h: "b \<le> a" "a < 2 ^ w"
  then have e: "a + (2 ^ w - b mod 2 ^ w) = (a - b) + 2 ^ w" by simp
  have "(a - b + 2 ^ w) mod 2 ^ w = (a - b) mod 2 ^ w" by simp
  also have "\<dots> = a - b" using h by (intro mod_less) simp
  finally show ?thesis unfolding subw_def e .
qed

section \<open>Characters as C bytes\<close>

text \<open>
  The unsigned and the signed value of a C \<^verbatim>\<open>char\<close>; on the platforms the code is built for a plain
  \<^verbatim>\<open>char\<close> is signed.
\<close>

definition ccode :: "char \<Rightarrow> nat" where
  "ccode c = of_char c"

definition schar :: "char \<Rightarrow> int" where
  "schar c = (if ccode c < 128 then int (ccode c) else int (ccode c) - 256)"

abbreviation NUL :: char where
  "NUL \<equiv> CHR 0x00"

lemma ccode_less [simp]: "ccode c < 256"
  by (simp add: ccode_def)

lemma char_of_ccode [simp]: "char_of (ccode c) = c"
  by (simp add: ccode_def)

lemma ccode_char_of: "n < 256 \<Longrightarrow> ccode (char_of n) = n"
  by (simp add: ccode_def)

lemma ccode_inject [simp]: "ccode c = ccode d \<longleftrightarrow> c = d"
  by (metis char_of_ccode)

lemma schar_inject [simp]: "schar c = schar d \<longleftrightarrow> c = d"
  using ccode_less [of c] ccode_less [of d]
  by (simp only: schar_def flip: ccode_inject split: if_splits) arith

section \<open>Decimal notation\<close>

definition digit_char :: "nat \<Rightarrow> char" where
  "digit_char d = char_of (48 + d)"

definition is_dec_digit :: "char \<Rightarrow> bool" where
  "is_dec_digit c \<longleftrightarrow> 48 \<le> schar c \<and> schar c \<le> 57"

definition digit_val :: "char \<Rightarrow> nat" where
  "digit_val c = ccode c - 48"

lemma is_dec_digit_iff: "is_dec_digit c \<longleftrightarrow> 48 \<le> ccode c \<and> ccode c \<le> 57"
  using ccode_less [of c] by (simp only: is_dec_digit_def schar_def split: if_splits) arith

lemma ccode_digit_char: "d < 10 \<Longrightarrow> ccode (digit_char d) = 48 + d"
  by (simp add: digit_char_def ccode_char_of)

lemma is_dec_digit_digit_char [simp]: "d < 10 \<Longrightarrow> is_dec_digit (digit_char d)"
  by (simp add: is_dec_digit_iff ccode_digit_char)

lemma digit_val_digit_char [simp]: "d < 10 \<Longrightarrow> digit_val (digit_char d) = d"
  by (simp add: digit_val_def ccode_digit_char)

lemma digit_char_digit_val [simp]: "is_dec_digit c \<Longrightarrow> digit_char (digit_val c) = c"
  by (simp add: is_dec_digit_iff digit_val_def digit_char_def)

lemma digit_val_less: "is_dec_digit c \<Longrightarrow> digit_val c < 10"
  by (auto simp: is_dec_digit_iff digit_val_def)

fun dec :: "nat \<Rightarrow> string" where
  "dec n = (if n < 10 then [digit_char n] else dec (n div 10) @ [digit_char (n mod 10)])"

declare dec.simps [simp del]

lemma dec_less_10: "n < 10 \<Longrightarrow> dec n = [digit_char n]"
  by (simp add: dec.simps)

lemma dec_ge_10: "10 \<le> n \<Longrightarrow> dec n = dec (n div 10) @ [digit_char (n mod 10)]"
  by (simp add: dec.simps)

definition dec_int :: "int \<Rightarrow> string" where
  "dec_int i = (if i < 0 then CHR ''-'' # dec (nat (- i)) else dec (nat i))"

text \<open>The value of a digit string, read from the left onto an accumulator.\<close>

fun numval :: "nat \<Rightarrow> string \<Rightarrow> nat" where
  "numval v [] = v"
| "numval v (c # cs) = numval (v * 10 + digit_val c) cs"

lemma numval_append: "numval v (xs @ ys) = numval (numval v xs) ys"
  by (induction xs arbitrary: v) auto

lemma numval_mono: "v \<le> numval v cs"
proof (induction cs arbitrary: v)
  case (Cons c cs)
  have "v \<le> v * 10 + digit_val c" by simp
  also have "\<dots> \<le> numval (v * 10 + digit_val c) cs" by (rule Cons.IH)
  finally show ?case by simp
qed simp

lemma numval_dec: "numval 0 (dec n) = n"
proof (induction n rule: dec.induct)
  case (1 n)
  then show ?case
    by (cases "n < 10") (simp_all add: dec_less_10 dec_ge_10 numval_append)
qed

lemma dec_digits: "c \<in> set (dec n) \<Longrightarrow> is_dec_digit c"
proof (induction n rule: dec.induct)
  case (1 n)
  then show ?case
    by (cases "n < 10") (auto simp: dec_less_10 dec_ge_10)
qed

lemma dec_not_Nil [simp]: "dec n \<noteq> []"
  by (subst dec.simps) simp

lemma hd_dec: "0 < n \<Longrightarrow> hd (dec n) \<noteq> CHR ''0''"
proof (induction n rule: dec.induct)
  case (1 n)
  show ?case
  proof (cases "n < 10")
    case True
    have "ccode (digit_char n) \<noteq> ccode CHR ''0''"
      using True "1.prems" by (simp add: ccode_digit_char) (simp add: ccode_def)
    then show ?thesis using True by (auto simp: dec_less_10)
  next
    case False
    then show ?thesis using "1.IH" by (simp add: dec_ge_10)
  qed
qed

lemma digit_char_0: "digit_char 0 = CHR ''0''"
proof -
  have "ccode (digit_char 0) = ccode CHR ''0''"
    by (simp add: ccode_digit_char) (simp add: ccode_def)
  then show ?thesis by simp
qed

lemma dec_0: "dec 0 = ''0''"
  by (simp add: dec_less_10 digit_char_0)

lemma dec_numval:
  "\<lbrakk>0 < v; \<forall>c \<in> set cs. is_dec_digit c\<rbrakk> \<Longrightarrow> dec (numval v cs) = dec v @ cs"
proof (induction cs arbitrary: v)
  case Nil
  then show ?case by simp
next
  case (Cons c cs)
  have d: "digit_val c < 10" using Cons.prems digit_val_less by simp
  have "dec (v * 10 + digit_val c) = dec v @ [c]"
    using Cons.prems d by (subst dec_ge_10) auto
  then show ?case using Cons.IH [of "v * 10 + digit_val c"] Cons.prems by simp
qed

lemma inj_dec: "dec m = dec n \<longleftrightarrow> m = n"
  by (metis numval_dec)

section \<open>Words\<close>

lemma unat_u64_less [simp]: "unat (w :: u64) < 18446744073709551616"
  by (rule order_less_le_trans [OF unsigned_less]) simp

lemma sint_u64:
  fixes w :: u64
  shows "sint w = (if unat w < 2 ^ 63 then int (unat w) else int (unat w) - 2 ^ 64)"
proof -
  define n where "n = unat w"
  have n: "n < 2 ^ 64" by (simp add: n_def)
  have "sint w = (int n + 2 ^ 63) mod 2 ^ 64 - 2 ^ 63"
    by (simp add: n_def sint_uint signed_take_bit_eq_take_bit_shift take_bit_eq_mod)
  also have "\<dots> = (if n < 2 ^ 63 then int n else int n - 2 ^ 64)"
  proof (cases "n < 2 ^ 63")
    case True
    then show ?thesis by simp
  next
    case False
    have "int n + 2 ^ 63 = (int n - 2 ^ 63) + 2 ^ 64" by simp
    then have "(int n + 2 ^ 63) mod 2 ^ 64 = (int n - 2 ^ 63) mod 2 ^ 64"
      by (simp only: mod_add_self2)
    also have "\<dots> = int n - 2 ^ 63"
      using n False by (intro mod_pos_pos_trivial) auto
    finally show ?thesis using False by simp
  qed
  finally show ?thesis by (simp add: n_def)
qed

lemma unat_minus_u64:
  assumes "(w :: u64) \<noteq> 0"
  shows "unat (- w) = 18446744073709551616 - unat w"
proof -
  have "0 < unat w" using assms by (simp add: unat_gt_0)
  then show ?thesis using unat_sub_if' [of 0 w] by simp
qed

lemma sint_u64_range: "- (2 ^ 63) \<le> sint (w :: u64)" "sint (w :: u64) < 2 ^ 63"
  using sint_ge [of w] sint_lt [of w] by simp_all

lemma sint_u64_eq_iff: "sint (v :: u64) = sint w \<longleftrightarrow> v = w"
  by (simp add: signed_word_eqI [of v w] iffI)

end
