(* ===== verification/Util_Num.thy ===== *)
theory Util_Num
  imports Redis_Prelude
begin

text \<open>
  Number conversion of \<^verbatim>\<open>util.c\<close>: \<^verbatim>\<open>digits10\<close>, \<^verbatim>\<open>sdigits10\<close>, \<^verbatim>\<open>ll2string\<close>, \<^verbatim>\<open>string2ll\<close> and
  \<^verbatim>\<open>string2l\<close>. An \<^verbatim>\<open>unsigned long long\<close> is a \<^typ>\<open>u64\<close>, so that the overflow tests of the code
  are tests on 64-bit words; a \<^verbatim>\<open>long long\<close> is the signed reading of such a word. A buffer of
  bytes is a list that the code updates by index.
\<close>

section \<open>Definitions\<close>

abbreviation LLONG_MAX :: u64 where "LLONG_MAX \<equiv> 9223372036854775807"
abbreviation LLONG_MIN :: u64 where "LLONG_MIN \<equiv> 9223372036854775808"
abbreviation ULLONG_MAX :: u64 where "ULLONG_MAX \<equiv> 18446744073709551615"

function digits10 :: "u64 \<Rightarrow> nat" where
  "digits10 v =
     (if v < 10 then 1
      else if v < 100 then 2
      else if v < 1000 then 3
      else if v < 1000000000000 then
        (if v < 100000000 then
           (if v < 1000000 then
              (if v < 10000 then 4 else 5 + of_bool (v \<ge> 100000))
            else 7 + of_bool (v \<ge> 10000000))
         else if v < 10000000000 then 9 + of_bool (v \<ge> 1000000000)
         else 11 + of_bool (v \<ge> 100000000000))
      else 12 + digits10 (v div 1000000000000))"
  by pat_completeness auto
termination
proof (relation "measure unat")
  fix v :: u64
  assume "\<not> v < 10"
  then have "10 \<le> unat v" by (simp add: word_less_nat_alt)
  then show "(v div 1000000000000, v) \<in> measure unat" by (simp add: unat_div)
qed simp

declare digits10.simps [simp del]

definition sdigits10 :: "u64 \<Rightarrow> nat" where
  "sdigits10 v =
     (if sint v < 0 then
        let uv = (if v \<noteq> LLONG_MIN then - v else LLONG_MAX + 1)
        in digits10 uv + 1
      else digits10 v)"

definition digits_table :: string where
  "digits_table =
     ''0001020304050607080910111213141516171819'' @
     ''2021222324252627282930313233343536373839'' @
     ''4041424344454647484950515253545556575859'' @
     ''6061626364656667686970717273747576777879'' @
     ''8081828384858687888990919293949596979899''"

function ll2string_loop :: "u64 \<Rightarrow> nat \<Rightarrow> string \<Rightarrow> u64 \<times> nat \<times> string" where
  "ll2string_loop value next dst =
     (if value \<ge> 100 then
        let i = unat (value mod 100) * 2;
            value' = value div 100;
            dst1 = dst[next := digits_table ! (i + 1)];
            dst2 = dst1[next - 1 := digits_table ! i]
        in ll2string_loop value' (next - 2) dst2
      else (value, next, dst))"
  by pat_completeness auto
termination
  by (relation "measure (\<lambda>(value, next, dst). unat value)")
    (auto simp: unat_div word_le_nat_alt)

declare ll2string_loop.simps [simp del]

definition ll2string :: "string \<Rightarrow> nat \<Rightarrow> u64 \<Rightarrow> nat \<times> string" where
  "ll2string dst dstlen svalue =
     (let (value, negative) =
            (if sint svalue < 0 then
               (if svalue \<noteq> LLONG_MIN then - svalue else LLONG_MAX + 1, 1)
             else (svalue, 0));
          length = digits10 value + negative
      in if length \<ge> dstlen then (0, dst)
         else
           let dst = dst[length := NUL];
               (value, next, dst) = ll2string_loop value (length - 1) dst;
               dst = (if value < 10 then dst[next := char_of (48 + unat value)]
                      else let i = unat value * 2
                           in (dst[next := digits_table ! (i + 1)])[next - 1 := digits_table ! i]);
               dst = (if negative = (1::nat) then dst[0 := CHR ''-''] else dst)
           in (length, dst))"

fun string2ll_loop :: "u64 \<Rightarrow> string \<Rightarrow> (u64 \<times> string) option" where
  "string2ll_loop v [] = Some (v, [])"
| "string2ll_loop v (c # p) =
     (if schar c \<ge> 48 \<and> schar c \<le> 57 then
        if v > ULLONG_MAX div 10 then None
        else let v = v * 10; d = word_of_int (schar c - 48)
             in if v > ULLONG_MAX - d then None
                else string2ll_loop (v + d) p
      else Some (v, c # p))"

definition string2ll :: "string \<Rightarrow> u64 option" where
  "string2ll s =
     (if s = [] then None
      else if length s = 1 \<and> hd s = CHR ''0'' then Some 0
      else
        let negative = (hd s = CHR ''-'');
            p = (if negative then tl s else s)
        in if p = [] then None
           else if schar (hd p) \<ge> 49 \<and> schar (hd p) \<le> 57 then
             (case string2ll_loop (word_of_int (schar (hd p) - 48)) (tl p) of
                None \<Rightarrow> None
              | Some (v, rest) \<Rightarrow>
                  if rest \<noteq> [] then None
                  else if negative then
                    if v > - (LLONG_MIN + 1) + 1 then None else Some (- v)
                  else if v > LLONG_MAX then None else Some v)
           else None)"

definition string2l :: "string \<Rightarrow> u64 option" where
  "string2l s =
     (case string2ll s of
        None \<Rightarrow> None
      | Some llval \<Rightarrow>
          if sint llval < sint LLONG_MIN \<or> sint llval > sint LLONG_MAX then None
          else Some llval)"

section \<open>Counting digits\<close>

lemma length_dec_1: "n < 10 \<Longrightarrow> length (dec n) = 1"
  by (simp add: dec_less_10)

lemma length_dec_pow:
  "n < 10 ^ Suc k \<Longrightarrow> 10 ^ k \<le> n \<or> k = 0 \<Longrightarrow> length (dec n) = Suc k"
proof (induction k arbitrary: n)
  case 0
  then show ?case by (simp add: dec_less_10)
next
  case (Suc k)
  then have "10 \<le> n" by (cases k) (auto simp: le_trans [rotated])
  moreover have "n div 10 < 10 ^ Suc k" using Suc.prems by (simp add: less_mult_imp_div_less)
  moreover have "10 ^ k \<le> n div 10" using Suc.prems by (simp add: less_eq_div_iff_mult_less_eq)
  ultimately show ?case using Suc.IH [of "n div 10"] by (simp add: dec_ge_10)
qed

lemma length_dec_div:
  "10 ^ k \<le> n \<Longrightarrow> length (dec n) = k + length (dec (n div 10 ^ k))"
proof (induction k arbitrary: n)
  case 0
  then show ?case by simp
next
  case (Suc k)
  have n10: "10 \<le> n" using Suc.prems by (simp add: le_trans [OF _ Suc.prems])
  have "10 ^ k \<le> n div 10" using Suc.prems by (simp add: less_eq_div_iff_mult_less_eq)
  then have "length (dec (n div 10)) = k + length (dec (n div 10 div 10 ^ k))" by (rule Suc.IH)
  then show ?case using n10 by (simp add: dec_ge_10 div_mult2_eq)
qed

lemma length_dec_range:
  "n < 10 \<Longrightarrow> length (dec n) = 1"
  "10 \<le> n \<Longrightarrow> n < 100 \<Longrightarrow> length (dec n) = 2"
  "100 \<le> n \<Longrightarrow> n < 1000 \<Longrightarrow> length (dec n) = 3"
  "1000 \<le> n \<Longrightarrow> n < 10000 \<Longrightarrow> length (dec n) = 4"
  "10000 \<le> n \<Longrightarrow> n < 100000 \<Longrightarrow> length (dec n) = 5"
  "100000 \<le> n \<Longrightarrow> n < 1000000 \<Longrightarrow> length (dec n) = 6"
  "1000000 \<le> n \<Longrightarrow> n < 10000000 \<Longrightarrow> length (dec n) = 7"
  "10000000 \<le> n \<Longrightarrow> n < 100000000 \<Longrightarrow> length (dec n) = 8"
  "100000000 \<le> n \<Longrightarrow> n < 1000000000 \<Longrightarrow> length (dec n) = 9"
  "1000000000 \<le> n \<Longrightarrow> n < 10000000000 \<Longrightarrow> length (dec n) = 10"
  "10000000000 \<le> n \<Longrightarrow> n < 100000000000 \<Longrightarrow> length (dec n) = 11"
  "100000000000 \<le> n \<Longrightarrow> n < 1000000000000 \<Longrightarrow> length (dec n) = 12"
  using length_dec_pow [of n 0] length_dec_pow [of n 1] length_dec_pow [of n 2]
    length_dec_pow [of n 3] length_dec_pow [of n 4] length_dec_pow [of n 5]
    length_dec_pow [of n 6] length_dec_pow [of n 7] length_dec_pow [of n 8]
    length_dec_pow [of n 9] length_dec_pow [of n 10] length_dec_pow [of n 11]
  by simp_all

lemma digits10_length: "digits10 v = length (dec (unat v))"
proof (induction v rule: digits10.induct)
  case (1 v)
  show ?case
  proof (cases "v < 1000000000000")
    case True
    then show ?thesis
      by (simp add: digits10.simps [of v] word_less_nat_alt word_le_nat_alt length_dec_range not_less)
  next
    case False
    then have "1000000000000 \<le> unat v" by (simp add: word_less_nat_alt)
    then show ?thesis
      using 1 False length_dec_div [of 12 "unat v"]
      by (simp add: digits10.simps [of v] word_less_nat_alt unat_div)
  qed
qed

section \<open>Parsing\<close>

lemma schar_digit: "is_dec_digit c \<Longrightarrow> schar c - 48 = int (digit_val c)"
  by (auto simp: is_dec_digit_iff schar_def digit_val_def)

lemma is_dec_digit_schar: "schar c \<ge> 48 \<and> schar c \<le> 57 \<longleftrightarrow> is_dec_digit c"
  by (simp add: is_dec_digit_def)

lemma string2ll_loop_Cons:
  assumes "is_dec_digit c"
  shows "string2ll_loop v (c # p) =
    (if v > ULLONG_MAX div 10 then None
     else if v * 10 > ULLONG_MAX - of_nat (digit_val c) then None
     else string2ll_loop (v * 10 + of_nat (digit_val c)) p)"
proof -
  have "word_of_int (schar c - 48) = (of_nat (digit_val c) :: u64)"
    using schar_digit [OF assms] by simp
  then show ?thesis
    using assms by (simp only: string2ll_loop.simps is_dec_digit_schar Let_def if_True)
qed

declare string2ll_loop.simps(2) [simp del]

lemma string2ll_loop_stop: "\<not> is_dec_digit c \<Longrightarrow> string2ll_loop v (c # p) = Some (v, c # p)"
  by (simp add: string2ll_loop.simps is_dec_digit_schar)

lemma string2ll_loop_digits:
  assumes "\<forall>c \<in> set ds. is_dec_digit c" "rest = [] \<or> \<not> is_dec_digit (hd rest)"
  shows "string2ll_loop v (ds @ rest) =
    (if numval (unat v) ds < 2 ^ 64 then Some (of_nat (numval (unat v) ds), rest) else None)"
  using assms(1)
proof (induction ds arbitrary: v)
  case Nil
  then show ?case
    using assms(2) by (cases rest) (auto simp: string2ll_loop_stop)
next
  case (Cons c ds)
  let ?d = "digit_val c"
  have dc: "is_dec_digit c" and d10: "?d < 10" using Cons.prems digit_val_less by auto
  have ud: "unat (of_nat ?d :: u64) = ?d" using d10 by (simp add: unat_of_nat)
  have sz: "unat v < 2 ^ 64" by simp
  show ?case
  proof (cases "unat v * 10 + ?d < 2 ^ 64")
    case True
    have m: "unat (v * 10) = unat v * 10"
      using True by (subst unat_mult_lem [THEN iffD1]) simp_all
    have a: "unat (v * 10 + of_nat ?d) = unat v * 10 + ?d"
      using True m ud by (subst unat_add_lem [THEN iffD1]) simp_all
    have 1: "\<not> v > ULLONG_MAX div 10"
      using True by (simp add: word_less_nat_alt unat_div)
    have 2: "\<not> v * 10 > ULLONG_MAX - of_nat ?d"
      using True m ud d10 by (simp add: word_less_nat_alt unat_sub word_le_nat_alt)
    show ?thesis
      using Cons.IH [of "v * 10 + of_nat ?d"] Cons.prems 1 2 a
      by (simp add: string2ll_loop_Cons [OF dc])
  next
    case False
    have "2 ^ 64 \<le> numval (unat v * 10 + ?d) ds"
      using False numval_mono [of "unat v * 10 + ?d" ds] by linarith
    moreover have "string2ll_loop v (c # ds @ rest) = None"
    proof (cases "v > ULLONG_MAX div 10")
      case True
      then show ?thesis by (simp add: string2ll_loop_Cons [OF dc])
    next
      case False2: False
      then have "unat v * 10 < 2 ^ 64" by (simp add: word_less_nat_alt unat_div)
      then have m: "unat (v * 10) = unat v * 10"
        by (subst unat_mult_lem [THEN iffD1]) simp_all
      have "v * 10 > ULLONG_MAX - of_nat ?d"
        using False m ud d10 by (simp add: word_less_nat_alt unat_sub word_le_nat_alt)
      then show ?thesis by (simp add: string2ll_loop_Cons [OF dc])
    qed
    ultimately show ?thesis by simp
  qed
qed

lemma string2ll_loop_Some:
  assumes "string2ll_loop v p = Some (w, [])"
  shows "(\<forall>c \<in> set p. is_dec_digit c) \<and> unat w = numval (unat v) p"
proof -
  define ds where "ds = takeWhile is_dec_digit p"
  define rest where "rest = dropWhile is_dec_digit p"
  have p: "p = ds @ rest" by (simp add: ds_def rest_def)
  have ds: "\<forall>c \<in> set ds. is_dec_digit c"
    by (auto simp: ds_def dest: set_takeWhileD)
  have r: "rest = [] \<or> \<not> is_dec_digit (hd rest)"
    using hd_dropWhile [of is_dec_digit p] by (auto simp: rest_def)
  show ?thesis
    using assms string2ll_loop_digits [OF ds r, of v] ds
    by (auto simp: p unat_of_nat split: if_splits)
qed

lemma schar_pos_digit: "schar c \<ge> 49 \<and> schar c \<le> 57 \<longleftrightarrow> is_dec_digit c \<and> 0 < digit_val c"
  using ccode_less [of c]
  by (simp only: is_dec_digit_iff digit_val_def schar_def split: if_splits) arith

lemma is_dec_digit_minus: "\<not> is_dec_digit CHR ''-''"
  by (simp add: is_dec_digit_iff ccode_def)

lemma hd_dec_not_minus: "hd (dec n) \<noteq> CHR ''-''"
  using dec_digits [of "hd (dec n)" n] is_dec_digit_minus by (metis dec_not_Nil list.set_sel(1))

lemma string2ll_body:
  assumes "is_dec_digit c" "0 < digit_val c" "\<forall>d \<in> set p. is_dec_digit d"
  shows "string2ll_loop (word_of_int (schar c - 48)) p =
    (if numval 0 (c # p) < 2 ^ 64 then Some (of_nat (numval 0 (c # p)), []) else None)"
proof -
  have c: "word_of_int (schar c - 48) = (of_nat (digit_val c) :: u64)"
    using schar_digit [OF assms(1)] by simp
  have "unat (of_nat (digit_val c) :: u64) = digit_val c"
    using digit_val_less [OF assms(1)] by (simp add: unat_of_nat)
  then show ?thesis
    unfolding c using string2ll_loop_digits [of p "[]" "of_nat (digit_val c)"] assms(3) by simp
qed

lemma dec_Cons_pos:
  assumes "dec n = c # p" "0 < n"
  shows "is_dec_digit c \<and> 0 < digit_val c \<and> (\<forall>d \<in> set p. is_dec_digit d) \<and> numval 0 (c # p) = n"
proof -
  have "\<forall>d \<in> set (c # p). is_dec_digit d" using dec_digits [of _ n] assms(1) by simp
  moreover have "c \<noteq> CHR ''0''" using hd_dec [OF assms(2)] assms(1) by simp
  then have "digit_val c \<noteq> 0"
    using calculation digit_char_digit_val [of c] digit_char_0 by (metis list.set_intros(1))
  ultimately show ?thesis using numval_dec [of n] assms(1) by simp
qed

lemma sint_of_nat_u64: "n < 2 ^ 63 \<Longrightarrow> sint (of_nat n :: u64) = int n"
  by (simp add: sint_u64 unat_of_nat)

lemma sint_minus_u64:
  assumes "0 < unat v" "unat v \<le> 2 ^ 63"
  shows "sint (- v :: u64) = - int (unat v)"
proof -
  have "v \<noteq> 0" using assms(1) by auto
  then have m: "unat (- v) = 18446744073709551616 - unat v" by (rule unat_minus_u64)
  then have "\<not> unat (- v) < 2 ^ 63" using assms(2) by simp
  moreover have "int (unat (- v)) = 18446744073709551616 - int (unat v)"
    using m unat_u64_less [of v] by linarith
  ultimately show ?thesis by (simp only: sint_u64 if_False) simp
qed

lemma string2ll_pos:
  assumes "0 < n" "n < 2 ^ 63"
  shows "string2ll (dec n) = Some (of_nat n)"
proof (cases "dec n")
  case (Cons c p)
  note d = dec_Cons_pos [OF Cons assms(1)]
  have "c \<noteq> CHR ''0''" using hd_dec [OF assms(1)] Cons by simp
  moreover have "c \<noteq> CHR ''-''" using hd_dec_not_minus [of n] Cons by simp
  moreover have "schar c \<ge> 49 \<and> schar c \<le> 57" using schar_pos_digit d by blast
  moreover have "string2ll_loop (word_of_int (schar c - 48)) p = Some (of_nat n, [])"
    using string2ll_body [of c p] d assms(2) by simp
  moreover have "\<not> (of_nat n :: u64) > LLONG_MAX"
    using assms(2) by (simp add: word_less_nat_alt unat_of_nat)
  ultimately show ?thesis by (simp only: string2ll_def Cons) simp
qed simp

lemma string2ll_neg:
  assumes "0 < n" "n \<le> 2 ^ 63"
  shows "string2ll (CHR ''-'' # dec n) = Some (- of_nat n)"
proof (cases "dec n")
  case (Cons c p)
  note d = dec_Cons_pos [OF Cons assms(1)]
  have "schar c \<ge> 49 \<and> schar c \<le> 57" using schar_pos_digit d by blast
  moreover have "string2ll_loop (word_of_int (schar c - 48)) p = Some (of_nat n, [])"
    using string2ll_body [of c p] d assms(2) by simp
  moreover have "\<not> (of_nat n :: u64) > - (LLONG_MIN + 1) + 1"
    using assms(2) by (simp add: word_less_nat_alt unat_of_nat)
  ultimately show ?thesis by (simp only: string2ll_def Cons) simp
qed simp

lemma string2ll_dec_int:
  assumes "s = dec_int (sint w)"
  shows "string2ll s = Some w"
proof -
  let ?i = "sint w"
  consider (zero) "?i = 0" | (pos) "?i > 0" | (neg) "?i < 0" by linarith
  then show ?thesis
  proof cases
    case zero
    then have "w = 0" by (simp add: sint_u64_eq_iff [of w 0, symmetric])
    then show ?thesis using assms zero by (simp add: dec_int_def dec_0 string2ll_def)
  next
    case pos
    then have "string2ll s = Some (of_nat (nat ?i))"
      using assms sint_u64_range [of w] string2ll_pos [of "nat ?i"] by (simp add: dec_int_def)
    moreover have "sint (of_nat (nat ?i) :: u64) = sint w"
      using pos sint_u64_range [of w] by (subst sint_of_nat_u64) auto
    ultimately show ?thesis by (simp add: sint_u64_eq_iff)
  next
    case neg
    then have "string2ll s = Some (- of_nat (nat (- ?i)))"
      using assms sint_u64_range [of w] string2ll_neg [of "nat (- ?i)"] by (simp add: dec_int_def)
    then show ?thesis using neg by simp
  qed
qed

lemma string2ll_Some:
  assumes "string2ll s = Some w"
  shows "s = dec_int (sint w)"
proof (cases "length s = 1 \<and> hd s = CHR ''0''")
  case True
  then have "s = ''0''" by (cases s) auto
  then show ?thesis using assms by (simp add: string2ll_def dec_int_def dec_0)
next
  case False
  define negative where "negative = (hd s = CHR ''-'')"
  define p where "p = (if negative then tl s else s)"
  have ne: "s \<noteq> []" using assms by (auto simp: string2ll_def)
  have s: "s = (if negative then CHR ''-'' # p else p)"
    using ne by (cases s) (auto simp: p_def negative_def)
  have str: "string2ll s =
    (if p = [] then None
     else if schar (hd p) \<ge> 49 \<and> schar (hd p) \<le> 57 then
       (case string2ll_loop (word_of_int (schar (hd p) - 48)) (tl p) of
          None \<Rightarrow> None
        | Some (v, rest) \<Rightarrow>
            if rest \<noteq> [] then None
            else if negative then
              if v > - (LLONG_MIN + 1) + 1 then None else Some (- v)
            else if v > LLONG_MAX then None else Some v)
     else None)"
    unfolding string2ll_def Let_def negative_def [symmetric] p_def [symmetric]
    by (simp only: ne False if_False)
  obtain c q where p: "p = c # q" and c: "schar c \<ge> 49 \<and> schar c \<le> 57"
    using assms unfolding str by (cases p) (auto split: if_splits)
  obtain v where l: "string2ll_loop (word_of_int (schar c - 48)) q = Some (v, [])"
    and w: "if negative then \<not> v > - (LLONG_MIN + 1) + 1 \<and> w = - v
            else \<not> v > LLONG_MAX \<and> w = v"
    using assms unfolding str p by (auto split: if_splits option.splits)
  have dc: "is_dec_digit c" "0 < digit_val c" using c schar_pos_digit by blast+
  have cv: "word_of_int (schar c - 48) = (of_nat (digit_val c) :: u64)"
    using schar_digit [OF dc(1)] by simp
  have "unat (of_nat (digit_val c) :: u64) = digit_val c"
    using digit_val_less [OF dc(1)] by (simp add: unat_of_nat)
  then have q: "\<forall>d \<in> set q. is_dec_digit d" and v: "unat v = numval (digit_val c) q"
    using string2ll_loop_Some [OF l [unfolded cv]] by auto
  have pd: "p = dec (unat v)"
    using dec_numval [OF dc(2) q] digit_val_less [OF dc(1)] dc(1) by (simp add: v p dec_less_10)
  have v0: "0 < unat v" using dc(2) numval_mono [of "digit_val c" q] v by linarith
  show ?thesis
  proof (cases negative)
    case True
    then have "unat v \<le> 2 ^ 63" using w by (simp add: word_less_nat_alt)
    moreover have "0 < int (unat v)" using v0 by (simp only: of_nat_0_less_iff)
    ultimately show ?thesis
      using True w v0 sint_minus_u64 [of v] s pd by (simp add: dec_int_def)
  next
    case False
    then have "unat v < 2 ^ 63" using w by (simp add: word_less_nat_alt)
    then show ?thesis using False w s pd by (simp add: dec_int_def sint_u64)
  qed
qed

lemma string2ll_iff: "string2ll s = Some w \<longleftrightarrow> s = dec_int (sint w)"
  using string2ll_dec_int string2ll_Some by blast

lemma string2l_eq: "string2l s = string2ll s"
proof (cases "string2ll s")
  case (Some w)
  then show ?thesis using sint_u64_range [of w] by (simp add: string2l_def)
qed (simp add: string2l_def)

section \<open>Printing\<close>

lemma concat_pairs_nth:
  assumes "k < n"
  shows "concat (map (\<lambda>k. [f k, g k]) [0..<n]) ! (k * 2) = f k"
    and "concat (map (\<lambda>k. [f k, g k]) [0..<n]) ! Suc (k * 2) = g k"
proof -
  have len: "length (concat (map (\<lambda>k. [f k, g k]) [0..<m])) = m * 2" for m
    by (induction m) auto
  show "concat (map (\<lambda>k. [f k, g k]) [0..<n]) ! (k * 2) = f k"
    and "concat (map (\<lambda>k. [f k, g k]) [0..<n]) ! Suc (k * 2) = g k"
    using assms by (induction n) (auto simp: nth_append len less_Suc_eq)
qed

lemma digits_table_ccode:
  "map ccode digits_table = concat (map (\<lambda>k. [48 + k div 10, 48 + k mod 10]) [0..<100])"
  by (simp add: digits_table_def ccode_def upt_rec)

lemma length_digits_table: "length digits_table = 200"
  by (simp add: digits_table_def)

lemma digits_table_nth:
  assumes "k < 100"
  shows "digits_table ! (k * 2) = digit_char (k div 10)"
    and "digits_table ! Suc (k * 2) = digit_char (k mod 10)"
proof -
  have c: "ccode (digits_table ! i) = map ccode digits_table ! i" if "i < 200" for i
    using that by (simp add: length_digits_table)
  have "ccode (digits_table ! (k * 2)) = ccode (digit_char (k div 10))"
    using assms c [of "k * 2"] by (simp add: digits_table_ccode concat_pairs_nth ccode_digit_char)
  then show "digits_table ! (k * 2) = digit_char (k div 10)" by simp
  have "ccode (digits_table ! Suc (k * 2)) = ccode (digit_char (k mod 10))"
    using assms c [of "Suc (k * 2)"] by (simp add: digits_table_ccode concat_pairs_nth ccode_digit_char)
  then show "digits_table ! Suc (k * 2) = digit_char (k mod 10)" by simp
qed

lemma dec_ge_100:
  "100 \<le> n \<Longrightarrow>
   dec n = dec (n div 100) @ [digit_char (n mod 100 div 10), digit_char (n mod 100 mod 10)]"
  using dec_ge_10 [of n] dec_ge_10 [of "n div 10"]
  by (simp add: div_mult2_eq [symmetric] mod_mult2_eq [of n 10 10, simplified])

lemma list_update_two:
  assumes "0 < i" "i < length xs"
  shows "(xs[i := b])[i - 1 := a] = take (i - 1) xs @ a # b # drop (Suc i) xs"
proof -
  have "(take i xs)[i - 1 := a] = take (i - 1) xs @ [a]"
    using assms by (simp add: upd_conv_take_nth_drop min_def)
  then show ?thesis
    using assms by (simp add: upd_conv_take_nth_drop [of i] list_update_append)
qed

definition ll2string_last :: "u64 \<times> nat \<times> string \<Rightarrow> string" where
  "ll2string_last = (\<lambda>(value, next, dst).
     if value < 10 then dst[next := char_of (48 + unat value)]
     else let i = unat value * 2
          in (dst[next := digits_table ! (i + 1)])[next - 1 := digits_table ! i])"

lemma ll2string_last_small:
  assumes "unat value < 100" "length (dec (unat value)) \<le> Suc next" "next < length dst"
  shows "ll2string_last (value, next, dst) =
    take (Suc next - length (dec (unat value))) dst @ dec (unat value) @ drop (Suc next) dst"
proof (cases "unat value < 10")
  case True
  then show ?thesis
    using assms by (simp add: ll2string_last_def word_less_nat_alt dec_less_10 digit_char_def upd_conv_take_nth_drop)
next
  case False
  then have "dec (unat value) = [digit_char (unat value div 10), digit_char (unat value mod 10)]"
    using assms(1) by (simp add: dec_ge_10 dec_less_10 less_mult_imp_div_less)
  then show ?thesis
    using assms False digits_table_nth [of "unat value"] list_update_two [of "next" dst]
    by (simp add: ll2string_last_def word_less_nat_alt Let_def)
qed

lemma ll2string_loop_correct:
  assumes "length (dec (unat v)) \<le> Suc nx" "nx < length dst"
  shows "ll2string_last (ll2string_loop v nx dst) =
    take (Suc nx - length (dec (unat v))) dst @ dec (unat v) @ drop (Suc nx) dst"
  using assms
proof (induction v nx dst rule: ll2string_loop.induct)
  case (1 v nx dst)
  show ?case
  proof (cases "v \<ge> 100")
    case False
    then have "unat v < 100" by (simp add: word_le_nat_alt)
    then show ?thesis
      using 1 False ll2string_last_small by (simp add: ll2string_loop.simps [of v])
  next
    case True
    let ?n = "unat v"
    let ?i = "unat (v mod 100) * 2"
    let ?dst = "(dst[nx := digits_table ! (?i + 1)])[nx - 1 := digits_table ! ?i]"
    have n: "100 \<le> ?n" using True by (simp add: word_le_nat_alt)
    have d: "dec ?n = dec (?n div 100) @ [digit_char (?n mod 100 div 10), digit_char (?n mod 100 mod 10)]"
      by (rule dec_ge_100 [OF n])
    have len: "length (dec (?n div 100)) \<le> Suc (nx - 2)" "2 \<le> nx"
      using "1.prems"(1) d by (cases "dec (?n div 100)"; simp)+
    have dst: "?dst = take (nx - 1) dst @ digits_table ! ?i # digits_table ! (?i + 1) # drop (Suc nx) dst"
      using "1.prems" len by (intro list_update_two) auto
    have IH: "ll2string_last (ll2string_loop (v div 100) (nx - 2) ?dst) =
      take (Suc (nx - 2) - length (dec (?n div 100))) ?dst @ dec (?n div 100) @ drop (Suc (nx - 2)) ?dst"
      using "1.IH" [OF True refl refl refl refl] len "1.prems" by (simp add: unat_div)
    have "Suc (nx - 2) = nx - 1" using len by simp
    then have "drop (Suc (nx - 2)) ?dst = digit_char (?n mod 100 div 10) # digit_char (?n mod 100 mod 10) # drop (Suc nx) dst"
      unfolding dst using digits_table_nth [of "?n mod 100"] "1.prems" by (simp add: unat_mod)
    moreover have "take (Suc (nx - 2) - length (dec (?n div 100))) ?dst = take (Suc nx - length (dec ?n)) dst"
      unfolding dst using len "1.prems" d by (simp add: min_def)
    ultimately show ?thesis
      using IH True d by (simp add: ll2string_loop.simps [of v] Let_def)
  qed
qed

lemma unat_abs_u64:
  "unat (if sint v < 0 then if v \<noteq> LLONG_MIN then - v else LLONG_MAX + 1 else v) = nat \<bar>sint v\<bar>"
proof (cases "sint v < 0")
  case True
  then have g: "\<not> unat v < 2 ^ 63" by (auto simp: sint_u64)
  then have "v \<noteq> 0" by auto
  then have "unat (- v) = 18446744073709551616 - unat v" by (rule unat_minus_u64)
  moreover have "sint v = int (unat v) - 18446744073709551616"
    using g by (simp only: sint_u64 if_False) simp
  moreover have "unat v = 9223372036854775808" if "v = LLONG_MIN"
    using that by simp
  moreover have "nat \<bar>int (unat v) - 18446744073709551616\<bar> = 18446744073709551616 - unat v"
    using unat_u64_less [of v] by arith
  ultimately show ?thesis using True by auto
next
  case False
  then show ?thesis using unat_u64_less [of v] by (auto simp: sint_u64 simp del: of_nat_unat split: if_splits)
qed

lemma ll2string_result:
  assumes "length (dec_int (sint v)) < dstlen" "dstlen \<le> length dst"
  shows "ll2string dst dstlen v =
    (length (dec_int (sint v)),
     dec_int (sint v) @ NUL # drop (Suc (length (dec_int (sint v)))) dst)"
proof -
  define val where
    "val = (if sint v < 0 then if v \<noteq> LLONG_MIN then - v else LLONG_MAX + 1 else v)"
  define neg where "neg = (if sint v < 0 then 1 else 0 :: nat)"
  let ?s = "dec_int (sint v)"
  let ?d = "dec (unat val)"
  have uv: "unat val = nat \<bar>sint v\<bar>" unfolding val_def by (rule unat_abs_u64)
  have s: "?s = (if neg = 1 then CHR ''-'' # ?d else ?d)"
    by (simp add: dec_int_def neg_def uv)
  have l: "digits10 val + neg = length ?s"
    using s by (simp add: digits10_length neg_def split: if_splits)
  have pos: "0 < length ?d" by simp
  let ?dst = "dst[length ?s := NUL]"
  have loop: "ll2string_last (ll2string_loop val (length ?s - 1) ?dst) =
     take neg ?dst @ ?d @ drop (length ?s) ?dst"
  proof -
    have "Suc (length ?s - 1) = length ?s" "length ?s - length ?d = neg" "length ?d \<le> length ?s"
      using l pos by (simp_all only: digits10_length)
    then show ?thesis
      using ll2string_loop_correct [of val "length ?s - 1" ?dst] assms by simp
  qed
  have pair: "(if sint v < 0 then (if v \<noteq> LLONG_MIN then - v else LLONG_MAX + 1, 1) else (v, 0)) = (val, neg)"
    by (simp add: val_def neg_def)
  have ll: "ll2string dst dstlen v =
    (length ?s, if neg = 1 then (take neg ?dst @ ?d @ drop (length ?s) ?dst)[0 := CHR ''-'']
                else take neg ?dst @ ?d @ drop (length ?s) ?dst)"
    unfolding ll2string_def pair Let_def prod.case l loop [symmetric] ll2string_last_def
    using assms(1) by (simp add: split_def Let_def)
  have dr: "drop (length ?s) ?dst = NUL # drop (Suc (length ?s)) dst"
    using assms by (simp add: upd_conv_take_nth_drop)
  have tk: "take neg ?dst = (if neg = 1 then [hd ?dst] else [])"
    using assms by (cases ?dst) (auto simp: neg_def)
  show ?thesis
    unfolding ll dr tk using s by (cases "neg = 1") simp_all
qed

lemma ll2string_no_room:
  "dstlen \<le> length (dec_int (sint v)) \<Longrightarrow> ll2string dst dstlen v = (0, dst)"
  using unat_abs_u64 [of v]
  by (auto simp: ll2string_def Let_def digits10_length dec_int_def split: if_splits)

lemma sdigits10_length: "sdigits10 v = length (dec_int (sint v))"
  using unat_abs_u64 [of v]
  by (auto simp: sdigits10_def Let_def digits10_length dec_int_def split: if_splits)

section \<open>Properties\<close>

text \<open>
  C38. \<^verbatim>\<open>string2ll\<close> accepts exactly the canonical decimal representations of the 64-bit signed
  integers (no leading zeros, no plus sign, no spaces, no minus zero, nothing out of range) and
  returns the number represented.
\<close>

theorem string2ll_exact: "string2ll s = Some w \<longleftrightarrow> s = dec_int (sint w)"
  by (rule string2ll_iff)

text \<open>
  C39. \<^verbatim>\<open>ll2string\<close> writes the decimal representation of the value and a terminating NUL when the buffer
  holds more than \<^verbatim>\<open>sdigits10\<close> bytes, leaves the rest of the buffer alone, and \<^verbatim>\<open>string2ll\<close>
  reads the same value back; when there is no room it returns 0 and writes nothing.
\<close>

theorem ll2string_roundtrip:
  assumes "dstlen \<le> length dst"
  shows "if sdigits10 v < dstlen
    then \<exists>buf. ll2string dst dstlen v = (sdigits10 v, buf) \<and> length buf = length dst \<and>
      string2ll (take (sdigits10 v) buf) = Some v \<and> buf ! sdigits10 v = NUL \<and>
      drop (Suc (sdigits10 v)) buf = drop (Suc (sdigits10 v)) dst
    else ll2string dst dstlen v = (0, dst)"
proof (cases "sdigits10 v < dstlen")
  case True
  then show ?thesis
    using assms ll2string_result [of v dstlen dst] string2ll_iff [of "dec_int (sint v)" v]
    by (simp add: sdigits10_length nth_append)
next
  case False
  then show ?thesis using ll2string_no_room [of dstlen v dst] by (simp add: sdigits10_length)
qed

theorem ll2string_roundtrip_witness:
  "\<exists>buf. ll2string (replicate 21 NUL) 21 (word_of_int (-1203)) = (sdigits10 (word_of_int (-1203)), buf) \<and>
     string2ll (take (sdigits10 (word_of_int (-1203))) buf) = Some (word_of_int (-1203))"
proof -
  have "sdigits10 (word_of_int (-1203)) < 21"
    by (simp add: sdigits10_def Let_def digits10.simps)
  then show ?thesis using ll2string_roundtrip [of 21 "replicate 21 NUL" "word_of_int (-1203)"] by auto
qed

end
