(* ===== verification/Util_Glob.thy ===== *)
theory Util_Glob
  imports Redis_Prelude
begin

text \<open>
  Glob-style matching: \<^verbatim>\<open>stringmatchlen\<close> of \<^verbatim>\<open>util.c\<close>, and its equivalence with a denotational
  semantics of patterns. The pattern pointer and \<^verbatim>\<open>patternLen\<close> are the list of the pattern's
  remaining bytes; every caller passes a NUL-terminated buffer, and the code reads one byte past
  the end of the pattern in places, so a read past the end yields \<^verbatim>\<open>NUL\<close> (\<open>at0\<close>).
\<close>

section \<open>Definitions\<close>

definition at0 :: "string \<Rightarrow> nat \<Rightarrow> char" where
  "at0 p i = (if i < length p then p ! i else NUL)"

definition tolower_c :: "char \<Rightarrow> char" where
  "tolower_c c = (if 65 \<le> ccode c \<and> ccode c \<le> 90 then char_of (ccode c + 32) else c)"

definition char_eq :: "bool \<Rightarrow> char \<Rightarrow> char \<Rightarrow> bool" where
  "char_eq nocase a b = (if \<not> nocase then a = b else tolower_c a = tolower_c b)"

definition in_range :: "bool \<Rightarrow> char \<Rightarrow> char \<Rightarrow> char \<Rightarrow> bool" where
  "in_range nocase a b x =
     (let (start, end) = (if schar a > schar b then (b, a) else (a, b));
          (start, end, c) = (if nocase then (tolower_c start, tolower_c end, tolower_c x)
                             else (start, end, x))
      in schar c \<ge> schar start \<and> schar c \<le> schar end)"

text \<open>
  The \<^verbatim>\<open>while(1)\<close> loop of the \<^verbatim>\<open>[...]\<close> case: it returns the match flag and the pattern at the
  closing bracket, or at the last byte of an unterminated class.
\<close>

fun class_loop :: "bool \<Rightarrow> char \<Rightarrow> bool \<Rightarrow> string \<Rightarrow> bool \<times> string" where
  "class_loop nocase x m [] = (m, [])"
| "class_loop nocase x m (c # p) =
     (if c = CHR 0x5C \<and> p \<noteq> [] then
        class_loop nocase x (m \<or> hd p = x) (tl p)
      else if c = CHR '']'' then (m, c # p)
      else if length p \<ge> 2 \<and> hd p = CHR ''-'' then
        class_loop nocase x (m \<or> in_range nocase c (hd (tl p)) x) (tl (tl p))
      else class_loop nocase x (m \<or> char_eq nocase c x) p)"

text \<open>Skipping the consecutive stars at the head of the pattern, up to the last of them.\<close>

fun skip_stars :: "string \<Rightarrow> string" where
  "skip_stars p = (if p \<noteq> [] \<and> at0 p 1 = CHR ''*'' then skip_stars (tl p) else p)"

declare skip_stars.simps [simp del]

lemma length_skip_stars: "length (skip_stars p) \<le> length p"
proof (induction p rule: skip_stars.induct)
  case (1 p)
  then show ?case by (cases "p \<noteq> [] \<and> at0 p 1 = CHR ''*''") (auto simp: skip_stars.simps [of p])
qed

lemma length_class_loop: "length (snd (class_loop nocase x m p)) \<le> length p"
  by (induction nocase x m p rule: class_loop.induct) (auto simp: le_SucI)

lemma skip_stars_not_Nil: "p \<noteq> [] \<Longrightarrow> skip_stars p \<noteq> []"
proof (induction p rule: skip_stars.induct)
  case (1 p)
  then show ?case
  proof (cases "p \<noteq> [] \<and> at0 p 1 = CHR ''*''")
    case True
    then have "tl p \<noteq> []" by (cases p) (auto simp: at0_def split: if_splits)
    then show ?thesis using 1 True by (simp add: skip_stars.simps [of p])
  next
    case False
    then show ?thesis using 1 by (simp add: skip_stars.simps [of p])
  qed
qed

text \<open>
  The cases of the switch that consume one byte \<open>x\<close> of the string: whether it matches, and the
  pattern at the last byte the case has used.
\<close>

definition glob_step :: "bool \<Rightarrow> string \<Rightarrow> char \<Rightarrow> bool \<times> string" where
  "glob_step nocase p x =
     (if hd p = CHR ''?'' then (True, p)
      else if hd p = CHR ''['' then
        let p = tl p;
            not' = (at0 p 0 = CHR ''^'');
            p = (if not' then tl p else p);
            (m, p) = class_loop nocase x False p
        in (if not' then \<not> m else m, p)
      else
        let p = (if hd p = CHR 0x5C \<and> length p \<ge> 2 then tl p else p)
        in (char_eq nocase (hd p) x, p))"

lemma length_glob_step: "p \<noteq> [] \<Longrightarrow> length (tl (snd (glob_step nocase p x))) < length p"
  using length_class_loop [of nocase x False "tl p"] length_class_loop [of nocase x False "tl (tl p)"]
  by (cases p) (auto simp: glob_step_def Let_def split_def split: if_splits)

text \<open>
  \<open>star_loop\<close> is the inner loop of the star case, which tries every non-empty suffix of the
  string. After a one-byte step the pattern is advanced, and when the string is exhausted the
  trailing stars are skipped.
\<close>

function stringmatchlen :: "bool \<Rightarrow> string \<Rightarrow> string \<Rightarrow> bool"
  and star_loop :: "bool \<Rightarrow> string \<Rightarrow> string \<Rightarrow> bool" where
  "stringmatchlen nocase p s =
     (if p \<noteq> [] \<and> s \<noteq> [] then
        if hd p = CHR ''*'' then
          if length (skip_stars p) = 1 then True
          else star_loop nocase (tl (skip_stars p)) s
        else if \<not> fst (glob_step nocase p (hd s)) then False
        else if tl s = [] then
          dropWhile (\<lambda>c. c = CHR ''*'') (tl (snd (glob_step nocase p (hd s)))) = []
        else stringmatchlen nocase (tl (snd (glob_step nocase p (hd s)))) (tl s)
      else p = [] \<and> s = [])"
| "star_loop nocase p s =
     (if s = [] then False
      else if stringmatchlen nocase p s then True
      else star_loop nocase p (tl s))"
  by pat_completeness auto
termination
proof (relation "measures [case_sum (\<lambda>(n, p, s). length p) (\<lambda>(n, p, s). length p),
    case_sum (\<lambda>(n, p, s). length s) (\<lambda>(n, p, s). length s), case_sum (\<lambda>_. 0) (\<lambda>_. 1)]",
    goal_cases)
  case (2 nocase p s)
  then show ?case
    using length_skip_stars [of p] skip_stars_not_Nil [of p] by (cases "skip_stars p") auto
next
  case (3 nocase p s)
  then show ?case using length_glob_step [of p nocase "hd s"] by simp
qed auto

declare stringmatchlen.simps [simp del] star_loop.simps [simp del]

definition stringmatch :: "string \<Rightarrow> string \<Rightarrow> bool \<Rightarrow> bool" where
  "stringmatch pattern str nocase = stringmatchlen nocase pattern str"

section \<open>Reference semantics of patterns\<close>

datatype class_elem = Exact char | CharRange char char | Single char

datatype glob_item = Star | AnyChar | Class bool "class_elem list" | Lit char

fun parse_class :: "string \<Rightarrow> class_elem list \<times> string" where
  "parse_class [] = ([], [])"
| "parse_class (c # p) =
     (if c = CHR 0x5C \<and> p \<noteq> [] then
        let (es, r) = parse_class (tl p) in (Exact (hd p) # es, r)
      else if c = CHR '']'' then ([], p)
      else if length p \<ge> 2 \<and> hd p = CHR ''-'' then
        let (es, r) = parse_class (tl (tl p)) in (CharRange c (hd (tl p)) # es, r)
      else let (es, r) = parse_class p in (Single c # es, r))"

lemma length_parse_class: "length (snd (parse_class p)) \<le> length p"
  by (induction p rule: parse_class.induct) (auto simp: split_def Let_def le_SucI)

function parse_glob :: "string \<Rightarrow> glob_item list" where
  "parse_glob [] = []"
| "parse_glob (c # p) =
     (if c = CHR ''*'' then Star # parse_glob p
      else if c = CHR ''?'' then AnyChar # parse_glob p
      else if c = CHR ''['' then
        let neg = (at0 p 0 = CHR ''^'');
            r = parse_class (if neg then tl p else p)
        in Class neg (fst r) # parse_glob (snd r)
      else if c = CHR 0x5C \<and> p \<noteq> [] then Lit (hd p) # parse_glob (tl p)
      else Lit c # parse_glob p)"
  by pat_completeness auto
termination
proof (relation "measure length", goal_cases)
  case (4 c p neg r)
  then show ?case
    using length_parse_class [of p] length_parse_class [of "tl p"] by (cases p) (auto split: if_splits)
qed auto

fun elem_matches :: "bool \<Rightarrow> char \<Rightarrow> class_elem \<Rightarrow> bool" where
  "elem_matches nocase x (Exact c) = (c = x)"
| "elem_matches nocase x (CharRange a b) = in_range nocase a b x"
| "elem_matches nocase x (Single c) = char_eq nocase c x"

fun item_matches :: "bool \<Rightarrow> char \<Rightarrow> glob_item \<Rightarrow> bool" where
  "item_matches nocase x Star = False"
| "item_matches nocase x AnyChar = True"
| "item_matches nocase x (Class neg es) = (neg \<noteq> list_ex (elem_matches nocase x) es)"
| "item_matches nocase x (Lit c) = char_eq nocase c x"

fun glob_matches :: "bool \<Rightarrow> glob_item list \<Rightarrow> string \<Rightarrow> bool" where
  "glob_matches nocase [] s = (s = [])"
| "glob_matches nocase (it # ts) s =
     (if it = Star then \<exists>k \<le> length s. glob_matches nocase ts (drop k s)
      else s \<noteq> [] \<and> item_matches nocase (hd s) it \<and> glob_matches nocase ts (tl s))"

section \<open>Equivalence\<close>

lemma class_loop_parse:
  "class_loop nocase x m p = (m', p') \<Longrightarrow>
   m' = (m \<or> list_ex (elem_matches nocase x) (fst (parse_class p))) \<and> tl p' = snd (parse_class p)"
proof (induction nocase x m p arbitrary: m' p' rule: class_loop.induct)
  case (1 nocase x m)
  then show ?case by simp
next
  case (2 nocase x m c p)
  consider (esc) "c = CHR 0x5C" "p \<noteq> []" | (close) "\<not> (c = CHR 0x5C \<and> p \<noteq> [])" "c = CHR '']''"
    | (rng) "\<not> (c = CHR 0x5C \<and> p \<noteq> [])" "c \<noteq> CHR '']''" "length p \<ge> 2 \<and> hd p = CHR ''-''"
    | (one) "\<not> (c = CHR 0x5C \<and> p \<noteq> [])" "c \<noteq> CHR '']''" "\<not> (length p \<ge> 2 \<and> hd p = CHR ''-'')"
    by blast
  then show ?case
  proof cases
    case esc
    then show ?thesis using "2.IH"(1) [OF _ ] "2.prems" by (simp add: split_def Let_def)
  next
    case close
    then show ?thesis using "2.prems" by auto
  next
    case rng
    have "class_loop nocase x m (c # p) =
        class_loop nocase x (m \<or> in_range nocase c (hd (tl p)) x) (tl (tl p))"
      by (simp only: class_loop.simps rng if_True if_False simp_thms)
    moreover have "parse_class (c # p) =
        (CharRange c (hd (tl p)) # fst (parse_class (tl (tl p))), snd (parse_class (tl (tl p))))"
      by (simp only: parse_class.simps rng if_True if_False simp_thms split_def Let_def)
    ultimately show ?thesis using "2.IH"(2) [OF rng(1) rng(2) rng(3), of m' p'] "2.prems"
      by (simp del: class_loop.simps parse_class.simps)
  next
    case one
    have "class_loop nocase x m (c # p) = class_loop nocase x (m \<or> char_eq nocase c x) p"
      by (simp only: class_loop.simps one if_True if_False simp_thms)
    moreover have "parse_class (c # p) = (Single c # fst (parse_class p), snd (parse_class p))"
      by (simp only: parse_class.simps one if_True if_False simp_thms split_def Let_def)
    ultimately show ?thesis using "2.IH"(3) [OF one(1) one(2) one(3), of m' p'] "2.prems"
      by (simp del: class_loop.simps parse_class.simps)
  qed
qed

lemma glob_Star_Star:
  "glob_matches nocase (Star # Star # ts) s = glob_matches nocase (Star # ts) s"
proof
  assume "glob_matches nocase (Star # Star # ts) s"
  then obtain k j where "k \<le> length s" "j \<le> length s - k" "glob_matches nocase ts (drop j (drop k s))"
    by auto
  then show "glob_matches nocase (Star # ts) s" by (auto intro!: exI [of _ "j + k"])
next
  assume "glob_matches nocase (Star # ts) s"
  then show "glob_matches nocase (Star # Star # ts) s"
    by (simp only: glob_matches.simps(2) [of nocase Star "Star # ts"] if_True simp_thms)
      (rule exI [of _ 0], simp)
qed

lemma parse_glob_stars:
  "hd p = CHR ''*'' \<Longrightarrow> p \<noteq> [] \<Longrightarrow>
   hd (skip_stars p) = CHR ''*'' \<and> at0 (tl (skip_stars p)) 0 \<noteq> CHR ''*'' \<and>
   glob_matches nocase (parse_glob p) s = glob_matches nocase (parse_glob (skip_stars p)) s"
proof (induction p rule: skip_stars.induct)
  case (1 p)
  show ?case
  proof (cases "at0 p 1 = CHR ''*''")
    case True
    then obtain q where q: "p = CHR ''*'' # CHR ''*'' # q"
      using "1.prems" by (cases p; cases "tl p") (auto simp: at0_def split: if_splits)
    then show ?thesis
      using 1 True glob_Star_Star [of nocase "parse_glob q" s]
      by (simp add: skip_stars.simps [of "CHR ''*'' # CHR ''*'' # q"] del: glob_matches.simps)
  next
    case False
    then have "skip_stars p = p" by (simp add: skip_stars.simps [of p])
    moreover have "at0 (tl p) 0 = at0 p 1" using "1.prems" by (cases p) (auto simp: at0_def)
    ultimately show ?thesis using "1.prems" False by simp
  qed
qed

lemma glob_matches_Nil_Star:
  "glob_matches nocase (Star # ts) [] = glob_matches nocase ts []"
  by simp

lemma glob_matches_trailing:
  "glob_matches nocase (parse_glob p) [] \<longleftrightarrow> dropWhile (\<lambda>c. c = CHR ''*'') p = []"
  by (induction p rule: parse_glob.induct) (auto simp: Let_def)

lemma star_loop_iff:
  "star_loop nocase p s \<longleftrightarrow> (\<exists>k < length s. stringmatchlen nocase p (drop k s))"
proof (induction s)
  case Nil
  then show ?case by (simp add: star_loop.simps)
next
  case (Cons x s)
  have "(\<exists>k < length (x # s). stringmatchlen nocase p (drop k (x # s))) \<longleftrightarrow>
    stringmatchlen nocase p (x # s) \<or> (\<exists>k < length s. stringmatchlen nocase p (drop k s))"
    by (auto simp: less_Suc_eq_0_disj)
  then show ?case using Cons by (simp add: star_loop.simps [of nocase p "x # s"])
qed

lemma stringmatchlen_unfold:
  assumes "p \<noteq> []" "s \<noteq> []" "hd p \<noteq> CHR ''*''"
  shows "stringmatchlen nocase p s =
    (fst (glob_step nocase p (hd s)) \<and>
     (if tl s = [] then dropWhile (\<lambda>c. c = CHR ''*'') (tl (snd (glob_step nocase p (hd s)))) = []
      else stringmatchlen nocase (tl (snd (glob_step nocase p (hd s)))) (tl s)))"
  using assms by (simp add: stringmatchlen.simps [of nocase p s])

lemma glob_step_parse:
  assumes "p \<noteq> []" "hd p \<noteq> CHR ''*''"
  obtains it where "parse_glob p = it # parse_glob (tl (snd (glob_step nocase p x)))"
    and "it \<noteq> Star" and "fst (glob_step nocase p x) = item_matches nocase x it"
proof -
  obtain c q where p: "p = c # q" using assms(1) by (cases p) auto
  have star: "c \<noteq> CHR ''*''" using assms(2) p by simp
  consider (any) "c = CHR ''?''" | (cls) "c = CHR ''[''" | (lit) "c \<noteq> CHR ''?''" "c \<noteq> CHR ''[''"
    by blast
  then show ?thesis
  proof cases
    case any
    then show ?thesis using that [of AnyChar] by (simp add: p glob_step_def)
  next
    case cls
    define neg where "neg = (at0 q 0 = CHR ''^'')"
    define r where "r = (if neg then tl q else q)"
    obtain m p' where cl: "class_loop nocase x False r = (m, p')" by fastforce
    have st: "glob_step nocase p x = (neg \<noteq> m, p')"
      using cls cl by (simp add: p glob_step_def Let_def neg_def [symmetric] r_def [symmetric])
    have pg: "parse_glob p = Class neg (fst (parse_class r)) # parse_glob (snd (parse_class r))"
      using cls by (simp add: p Let_def neg_def [symmetric] r_def [symmetric])
    show ?thesis
      using that [of "Class neg (fst (parse_class r))"] class_loop_parse [OF cl] st pg by (simp add: p)
  next
    case lit
    define esc where "esc = (c = CHR 0x5C \<and> q \<noteq> [])"
    have "hd p = CHR 0x5C \<and> length p \<ge> 2 \<longleftrightarrow> esc" by (cases q) (auto simp: p esc_def)
    then have "glob_step nocase p x =
      (let p = (if esc then q else p) in (char_eq nocase (hd p) x, p))"
      using lit by (simp add: glob_step_def p)
    moreover have "parse_glob p =
      (if esc then Lit (hd q) # parse_glob (tl q) else Lit c # parse_glob q)"
      using lit star by (simp add: p esc_def)
    ultimately show ?thesis
      using that [of "Lit (if esc then hd q else c)"] by (simp add: p Let_def split: if_splits)
  qed
qed

lemma stringmatchlen_star:
  assumes "p \<noteq> []" "s \<noteq> []" "hd p = CHR ''*''"
  shows "stringmatchlen nocase p s \<longleftrightarrow>
    length (skip_stars p) = 1 \<or> star_loop nocase (tl (skip_stars p)) s"
  using assms by (simp add: stringmatchlen.simps [of nocase p s])

lemma stringmatchlen_glob:
  "stringmatchlen nocase p s =
   (if s = [] then p = [] else glob_matches nocase (parse_glob p) s)"
proof (induction "length p" arbitrary: p s rule: less_induct)
  case less
  consider (nil) "p = [] \<or> s = []" | (star) "p \<noteq> []" "s \<noteq> []" "hd p = CHR ''*''"
    | (step) "p \<noteq> []" "s \<noteq> []" "hd p \<noteq> CHR ''*''" by blast
  then show ?case
  proof cases
    case nil
    then show ?thesis by (auto simp: stringmatchlen.simps [of nocase p s])
  next
    case star
    obtain q where q: "skip_stars p = CHR ''*'' # q"
      using skip_stars_not_Nil [OF star(1)] parse_glob_stars [OF star(3,1)] by (cases "skip_stars p") auto
    have len: "length q < length p" using length_skip_stars [of p] q by simp
    have IH: "stringmatchlen nocase q t = glob_matches nocase (parse_glob q) t" if "t \<noteq> []" for t
      using less [OF len] that by simp
    have g: "glob_matches nocase (parse_glob p) s \<longleftrightarrow>
      (\<exists>k \<le> length s. glob_matches nocase (parse_glob q) (drop k s))"
      using parse_glob_stars [OF star(3,1)] by (simp add: q)
    show ?thesis
    proof (cases "q = []")
      case True
      then show ?thesis using star q g stringmatchlen_star [OF star] by auto
    next
      case False
      then have "\<not> glob_matches nocase (parse_glob q) []"
        using parse_glob_stars [OF star(3,1)] q
        by (cases q) (auto simp: glob_matches_trailing at0_def simp del: parse_glob.simps glob_matches.simps)
      then have "(\<exists>k \<le> length s. glob_matches nocase (parse_glob q) (drop k s)) \<longleftrightarrow>
        (\<exists>k < length s. glob_matches nocase (parse_glob q) (drop k s))"
        by (metis drop_all le_neq_implies_less less_imp_le order_refl)
      moreover have "(\<exists>k < length s. stringmatchlen nocase q (drop k s)) \<longleftrightarrow>
        (\<exists>k < length s. glob_matches nocase (parse_glob q) (drop k s))"
        using IH by (metis drop_eq_Nil linorder_not_less)
      ultimately show ?thesis
        using star g False stringmatchlen_star [OF star, of nocase] q by (simp add: star_loop_iff)
    qed
  next
    case step
    let ?st = "glob_step nocase p (hd s)"
    obtain it where it: "parse_glob p = it # parse_glob (tl (snd ?st))" "it \<noteq> Star"
      "fst ?st = item_matches nocase (hd s) it"
      using glob_step_parse [OF step(1,3)] by blast
    have g: "glob_matches nocase (parse_glob p) s \<longleftrightarrow>
      fst ?st \<and> glob_matches nocase (parse_glob (tl (snd ?st))) (tl s)"
      using it step(2) by simp
    show ?thesis
    proof (cases "tl s = []")
      case True
      then show ?thesis
        using g step stringmatchlen_unfold [OF step, of nocase]
          glob_matches_trailing [of nocase "tl (snd ?st)"] by simp
    next
      case False
      then show ?thesis
        using g step stringmatchlen_unfold [OF step, of nocase]
          less [OF length_glob_step [OF step(1), of nocase "hd s"], of "tl s"] by simp
    qed
  qed
qed

lemma stringmatch_empty: "stringmatch p [] nocase \<longleftrightarrow> p = []"
  by (simp add: stringmatch_def stringmatchlen_glob)

section \<open>Properties\<close>


end
