(* ===== verification/Dict.thy ===== *)
theory Dict
  imports Redis_Prelude "HOL-Library.Multiset" "HOL-Library.Monad_Syntax"
begin

text \<open>
  The hash table of \<^verbatim>\<open>dict.c\<close>: two tables with chaining and incremental rehashing. A chain of
  \<^verbatim>\<open>dictEntry\<close> structures is the list of its entries, the table is the list of its chains (the
  empty list when \<^verbatim>\<open>table\<close> is NULL), and an entry pointer is the table number, the bucket index and
  the position in the chain. A name with a leading underscore in the source has the prefix \<open>i_\<close>
  here. Keys are pointers: equality of the type \<open>'k\<close> is pointer equality, and the comparison and
  the hash of the pointed-to keys are the functions of \<open>dictType\<close>. The value of an entry is \<open>None\<close> until it
  is set. An out-of-range table access or a failed assertion makes an operation return \<open>None\<close>, so
  that a theorem which says that an operation returns also says that these do not happen.
  Sizes and counters count objects in memory and are natural numbers; hashes and cursors are
  64-bit words.
\<close>

section \<open>Data\<close>

record 'k dictType =
  hashFunction :: "'k \<Rightarrow> u64"
  keyCompare :: "('k \<Rightarrow> 'k \<Rightarrow> bool) option"
  expandAllowed :: "(nat \<Rightarrow> nat \<times> nat \<Rightarrow> bool) option"

type_synonym ('k, 'v) dictEntry = "'k \<times> 'v option"

record ('k, 'v) dictht =
  ht_table :: "('k, 'v) dictEntry list list"
  ht_size :: nat
  ht_sizemask :: nat
  ht_used :: nat

record ('k, 'v) dict =
  dict_type :: "'k dictType"
  ht0 :: "('k, 'v) dictht"
  ht1 :: "('k, 'v) dictht"
  rehashidx :: int
  pauserehash :: int

record dict_globals =
  dict_can_resize :: bool

abbreviation (input) dict_force_resize_ratio :: nat where "dict_force_resize_ratio \<equiv> 5"
abbreviation (input) DICT_HT_INITIAL_SIZE :: nat where "DICT_HT_INITIAL_SIZE \<equiv> 4"
abbreviation (input) LONG_MAX :: nat where "LONG_MAX \<equiv> 9223372036854775807"

datatype dict_status = DICT_OK | DICT_ERR

type_synonym entryref = "nat \<times> nat \<times> nat"

definition dictCompareKeys :: "'k dictType \<Rightarrow> 'k \<Rightarrow> 'k \<Rightarrow> bool" where
  "dictCompareKeys ty key1 key2 =
     (case keyCompare ty of Some f \<Rightarrow> f key1 key2 | None \<Rightarrow> key1 = key2)"

definition key_match :: "'k dictType \<Rightarrow> 'k \<Rightarrow> ('k, 'v) dictEntry \<Rightarrow> bool" where
  "key_match ty key he \<longleftrightarrow> key = fst he \<or> dictCompareKeys ty key (fst he)"

definition dictHashKey :: "('k, 'v) dict \<Rightarrow> 'k \<Rightarrow> u64" where
  "dictHashKey d key = hashFunction (dict_type d) key"

definition dictSlots :: "('k, 'v) dict \<Rightarrow> nat" where
  "dictSlots d = ht_size (ht0 d) + ht_size (ht1 d)"

definition dictSize :: "('k, 'v) dict \<Rightarrow> nat" where
  "dictSize d = ht_used (ht0 d) + ht_used (ht1 d)"

definition dictIsRehashing :: "('k, 'v) dict \<Rightarrow> bool" where
  "dictIsRehashing d \<longleftrightarrow> rehashidx d \<noteq> -1"

definition dictPauseRehashing :: "('k, 'v) dict \<Rightarrow> ('k, 'v) dict" where
  "dictPauseRehashing d = d\<lparr>pauserehash := pauserehash d + 1\<rparr>"

definition dictResumeRehashing :: "('k, 'v) dict \<Rightarrow> ('k, 'v) dict" where
  "dictResumeRehashing d = d\<lparr>pauserehash := pauserehash d - 1\<rparr>"

text \<open>Access to one of the two tables by number, and checked access to a bucket.\<close>

definition get_ht :: "('k, 'v) dict \<Rightarrow> nat \<Rightarrow> ('k, 'v) dictht" where
  "get_ht d t = (if t = 0 then ht0 d else ht1 d)"

definition set_ht :: "('k, 'v) dict \<Rightarrow> nat \<Rightarrow> ('k, 'v) dictht \<Rightarrow> ('k, 'v) dict" where
  "set_ht d t h = (if t = 0 then d\<lparr>ht0 := h\<rparr> else d\<lparr>ht1 := h\<rparr>)"

definition bucket :: "('k, 'v) dictht \<Rightarrow> nat \<Rightarrow> ('k, 'v) dictEntry list option" where
  "bucket h i = (if i < length (ht_table h) then Some (ht_table h ! i) else None)"

definition set_bucket :: "('k, 'v) dictht \<Rightarrow> nat \<Rightarrow> ('k, 'v) dictEntry list \<Rightarrow> ('k, 'v) dictht option" where
  "set_bucket h i c =
     (if i < length (ht_table h) then Some (h\<lparr>ht_table := (ht_table h)[i := c]\<rparr>) else None)"

definition hidx :: "u64 \<Rightarrow> nat \<Rightarrow> nat" where
  "hidx hash sizemask = unat hash AND sizemask"

section \<open>Creation and resizing\<close>

definition i_dictReset :: "('k, 'v) dictht" where
  "i_dictReset = \<lparr>ht_table = [], ht_size = 0, ht_sizemask = 0, ht_used = 0\<rparr>"

definition i_dictInit :: "'k dictType \<Rightarrow> ('k, 'v) dict" where
  "i_dictInit ty =
     \<lparr>dict_type = ty, ht0 = i_dictReset, ht1 = i_dictReset, rehashidx = -1, pauserehash = 0\<rparr>"

definition dictCreate :: "'k dictType \<Rightarrow> ('k, 'v) dict" where
  "dictCreate ty = i_dictInit ty"

text \<open>The loop starts at 4, so the test for 0, which makes the function total, never holds.\<close>

function next_power_loop :: "nat \<Rightarrow> nat \<Rightarrow> nat" where
  "next_power_loop i size' = (if i \<ge> size' \<or> i = 0 then i else next_power_loop (i * 2) size')"
  by pat_completeness auto
termination
  by (relation "measure (\<lambda>(i, size'). size' - i)") auto

declare next_power_loop.simps [simp del]

definition i_dictNextPower :: "nat \<Rightarrow> nat" where
  "i_dictNextPower size' =
     (if size' \<ge> LONG_MAX then LONG_MAX + 1
      else next_power_loop DICT_HT_INITIAL_SIZE size')"

text \<open>
  The allocator argument stands for \<^verbatim>\<open>malloc_failed\<close>: \<open>None\<close> when the caller passes NULL, otherwise
  whether \<^verbatim>\<open>ztrycalloc\<close> succeeds for a number of bytes. The second component of the result is the
  value stored to \<^verbatim>\<open>*malloc_failed\<close>.
\<close>

definition i_dictExpand ::
  "('k, 'v) dict \<Rightarrow> nat \<Rightarrow> (nat \<Rightarrow> bool) option \<Rightarrow> dict_status \<times> bool \<times> ('k, 'v) dict" where
  "i_dictExpand d size' alloc =
     (if dictIsRehashing d \<or> ht_used (ht0 d) > size' then (DICT_ERR, False, d)
      else
        let realsize = i_dictNextPower size'
        in if realsize = ht_size (ht0 d) then (DICT_ERR, False, d)
           else if (case alloc of None \<Rightarrow> False | Some ok \<Rightarrow> \<not> ok (realsize * 8))
             then (DICT_ERR, True, d)
           else
             let n = \<lparr>ht_table = replicate realsize [], ht_size = realsize,
                      ht_sizemask = realsize - 1, ht_used = 0\<rparr>
             in if ht_table (ht0 d) = [] then (DICT_OK, False, d\<lparr>ht0 := n\<rparr>)
                else (DICT_OK, False, d\<lparr>ht1 := n, rehashidx := 0\<rparr>))"

definition dictExpand :: "('k, 'v) dict \<Rightarrow> nat \<Rightarrow> dict_status \<times> ('k, 'v) dict" where
  "dictExpand d size' = (case i_dictExpand d size' None of (r, _, d') \<Rightarrow> (r, d'))"

definition dictTryExpand ::
  "('k, 'v) dict \<Rightarrow> nat \<Rightarrow> (nat \<Rightarrow> bool) \<Rightarrow> dict_status \<times> ('k, 'v) dict" where
  "dictTryExpand d size' ok =
     (case i_dictExpand d size' (Some ok) of
        (_, malloc_failed, d') \<Rightarrow> (if malloc_failed then DICT_ERR else DICT_OK, d'))"

definition dictResize :: "dict_globals \<Rightarrow> ('k, 'v) dict \<Rightarrow> dict_status \<times> ('k, 'v) dict" where
  "dictResize g d =
     (if \<not> dict_can_resize g \<or> dictIsRehashing d then (DICT_ERR, d)
      else let minimal = ht_used (ht0 d);
               minimal = (if minimal < DICT_HT_INITIAL_SIZE then DICT_HT_INITIAL_SIZE else minimal)
           in dictExpand d minimal)"

definition dictEnableResize :: "dict_globals \<Rightarrow> dict_globals" where
  "dictEnableResize g = g\<lparr>dict_can_resize := True\<rparr>"

definition dictDisableResize :: "dict_globals \<Rightarrow> dict_globals" where
  "dictDisableResize g = g\<lparr>dict_can_resize := False\<rparr>"

definition dictTypeExpandAllowed :: "('k, 'v) dict \<Rightarrow> bool" where
  "dictTypeExpandAllowed d =
     (case expandAllowed (dict_type d) of
        None \<Rightarrow> True
      | Some f \<Rightarrow> f (i_dictNextPower (ht_used (ht0 d) + 1) * 8) (ht_used (ht0 d), ht_size (ht0 d)))"

definition i_dictExpandIfNeeded :: "dict_globals \<Rightarrow> ('k, 'v) dict \<Rightarrow> dict_status \<times> ('k, 'v) dict" where
  "i_dictExpandIfNeeded g d =
     (if dictIsRehashing d then (DICT_OK, d)
      else if ht_size (ht0 d) = 0 then dictExpand d DICT_HT_INITIAL_SIZE
      else if ht_used (ht0 d) \<ge> ht_size (ht0 d) \<and>
              (dict_can_resize g \<or> ht_used (ht0 d) div ht_size (ht0 d) > dict_force_resize_ratio) \<and>
              dictTypeExpandAllowed d
        then dictExpand d (ht_used (ht0 d) + 1)
      else (DICT_OK, d))"

section \<open>Incremental rehashing\<close>

text \<open>The inner loop that moves the entries of one chain to the second table.\<close>

fun rehash_chain ::
  "'k dictType \<Rightarrow> ('k, 'v) dictEntry list \<Rightarrow> ('k, 'v) dictht \<Rightarrow> ('k, 'v) dictht \<Rightarrow>
   (('k, 'v) dictht \<times> ('k, 'v) dictht) option" where
  "rehash_chain ty [] a b = Some (a, b)"
| "rehash_chain ty (de # nextde) a b = do {
     let h = hidx (hashFunction ty (fst de)) (ht_sizemask b);
     chain \<leftarrow> bucket b h;
     b \<leftarrow> set_bucket b h (de # chain);
     rehash_chain ty nextde (a\<lparr>ht_used := ht_used a - 1\<rparr>) (b\<lparr>ht_used := ht_used b + 1\<rparr>)
   }"

text \<open>
  The loop over empty buckets either stops after the allowed number of visits, where the caller
  returns early, or reaches a bucket with entries.
\<close>

datatype ('k, 'v) skip_result =
    Visits_exhausted nat
  | Bucket_found nat nat "('k, 'v) dictEntry list"

function rehash_skip ::
  "('k, 'v) dictht \<Rightarrow> nat \<Rightarrow> nat \<Rightarrow> ('k, 'v) skip_result option" where
  "rehash_skip h idx empty_visits =
     (if idx < length (ht_table h) then
        if ht_table h ! idx = [] then
          if empty_visits - 1 = 0 then Some (Visits_exhausted (idx + 1))
          else rehash_skip h (idx + 1) (empty_visits - 1)
        else Some (Bucket_found idx empty_visits (ht_table h ! idx))
      else None)"
  by pat_completeness auto
termination
  by (relation "measure (\<lambda>(h, idx, ev). length (ht_table h) - idx)") auto

declare rehash_skip.simps [simp del]

text \<open>The main loop; the flag says whether the function returned from inside it.\<close>

fun rehash_loop :: "nat \<Rightarrow> nat \<Rightarrow> ('k, 'v) dict \<Rightarrow> (bool \<times> ('k, 'v) dict) option" where
  "rehash_loop 0 empty_visits d = Some (False, d)"
| "rehash_loop (Suc n) empty_visits d =
     (if ht_used (ht0 d) = 0 then Some (False, d)
      else if \<not> ht_size (ht0 d) > nat (rehashidx d) then None
      else case rehash_skip (ht0 d) (nat (rehashidx d)) empty_visits of
          None \<Rightarrow> None
        | Some (Visits_exhausted idx) \<Rightarrow> Some (True, d\<lparr>rehashidx := int idx\<rparr>)
        | Some (Bucket_found idx ev chain) \<Rightarrow> do {
            (a, b) \<leftarrow> rehash_chain (dict_type d) chain (ht0 d) (ht1 d);
            a \<leftarrow> set_bucket a idx [];
            rehash_loop n ev (d\<lparr>ht0 := a, ht1 := b, rehashidx := int idx + 1\<rparr>)
          })"

definition dictRehash :: "('k, 'v) dict \<Rightarrow> nat \<Rightarrow> (bool \<times> ('k, 'v) dict) option" where
  "dictRehash d n =
     (if \<not> dictIsRehashing d then Some (False, d)
      else do {
        (early, d) \<leftarrow> rehash_loop n (n * 10) d;
        if early then Some (True, d)
        else if ht_used (ht0 d) = 0
          then Some (False, d\<lparr>ht0 := ht1 d, ht1 := i_dictReset, rehashidx := -1\<rparr>)
        else Some (True, d)
      })"

definition i_dictRehashStep :: "('k, 'v) dict \<Rightarrow> ('k, 'v) dict option" where
  "i_dictRehashStep d =
     (if pauserehash d = 0 then map_option snd (dictRehash d 1) else Some d)"

text \<open>
  \<^verbatim>\<open>dictRehashMilliseconds\<close> with the successive readings of the clock after its first one; the
  result is \<open>None\<close> when the readings run out before the loop stops.
\<close>

fun rehash_ms_loop :: "('k, 'v) dict \<Rightarrow> int \<Rightarrow> int \<Rightarrow> int list \<Rightarrow> nat \<Rightarrow> (nat \<times> ('k, 'v) dict) option" where
  "rehash_ms_loop d start ms clock rehashes = do {
     (more, d) \<leftarrow> dictRehash d 100;
     if \<not> more then Some (rehashes, d)
     else case clock of
         [] \<Rightarrow> None
       | t # clock \<Rightarrow>
           if t - start > ms then Some (rehashes + 100, d)
           else rehash_ms_loop d start ms clock (rehashes + 100)
   }"

definition dictRehashMilliseconds ::
  "('k, 'v) dict \<Rightarrow> int \<Rightarrow> int \<Rightarrow> int list \<Rightarrow> (nat \<times> ('k, 'v) dict) option" where
  "dictRehashMilliseconds d ms start clock =
     (if pauserehash d > 0 then Some (0, d) else rehash_ms_loop d start ms clock 0)"

section \<open>Lookup and update\<close>

text \<open>Walking a chain: the position of the first entry whose key matches.\<close>

fun chain_pos :: "'k dictType \<Rightarrow> 'k \<Rightarrow> nat \<Rightarrow> ('k, 'v) dictEntry list \<Rightarrow> nat option" where
  "chain_pos ty key p [] = None"
| "chain_pos ty key p (he # next') =
     (if key_match ty key he then Some p else chain_pos ty key (p + 1) next')"

definition deref :: "('k, 'v) dict \<Rightarrow> entryref \<Rightarrow> ('k, 'v) dictEntry option" where
  "deref d r = (case r of (t, i, p) \<Rightarrow> do {
     c \<leftarrow> bucket (get_ht d t) i;
     if p < length c then Some (c ! p) else None
   })"

definition dictSetVal :: "('k, 'v) dict \<Rightarrow> entryref \<Rightarrow> 'v \<Rightarrow> ('k, 'v) dict option" where
  "dictSetVal d r v = (case r of (t, i, p) \<Rightarrow> do {
     c \<leftarrow> bucket (get_ht d t) i;
     if p < length c then do {
       h \<leftarrow> set_bucket (get_ht d t) i (c[p := (fst (c ! p), Some v)]);
       Some (set_ht d t h)
     } else None
   })"

definition i_dictKeyIndex ::
  "dict_globals \<Rightarrow> ('k, 'v) dict \<Rightarrow> 'k \<Rightarrow> u64 \<Rightarrow>
   (nat option \<times> entryref option \<times> ('k, 'v) dict) option" where
  "i_dictKeyIndex g d key hash =
     (case i_dictExpandIfNeeded g d of
        (DICT_ERR, d) \<Rightarrow> Some (None, None, d)
      | (DICT_OK, d) \<Rightarrow> do {
          let idx = hidx hash (ht_sizemask (ht0 d));
          c \<leftarrow> bucket (ht0 d) idx;
          case chain_pos (dict_type d) key 0 c of
            Some p \<Rightarrow> Some (None, Some (0, idx, p), d)
          | None \<Rightarrow>
              if \<not> dictIsRehashing d then Some (Some idx, None, d)
              else do {
                let idx = hidx hash (ht_sizemask (ht1 d));
                c \<leftarrow> bucket (ht1 d) idx;
                case chain_pos (dict_type d) key 0 c of
                  Some p \<Rightarrow> Some (None, Some (1, idx, p), d)
                | None \<Rightarrow> Some (Some idx, None, d)
              }
        })"

definition dictAddRaw ::
  "dict_globals \<Rightarrow> ('k, 'v) dict \<Rightarrow> 'k \<Rightarrow>
   (entryref option \<times> entryref option \<times> ('k, 'v) dict) option" where
  "dictAddRaw g d key = do {
     d \<leftarrow> (if dictIsRehashing d then i_dictRehashStep d else Some d);
     (index, existing, d) \<leftarrow> i_dictKeyIndex g d key (dictHashKey d key);
     case index of
       None \<Rightarrow> Some (None, existing, d)
     | Some index \<Rightarrow> do {
         let t = (if dictIsRehashing d then 1 else 0);
         c \<leftarrow> bucket (get_ht d t) index;
         h \<leftarrow> set_bucket (get_ht d t) index ((key, None) # c);
         Some (Some (t, index, 0), None, set_ht d t (h\<lparr>ht_used := ht_used h + 1\<rparr>))
       }
   }"

definition dictAdd ::
  "dict_globals \<Rightarrow> ('k, 'v) dict \<Rightarrow> 'k \<Rightarrow> 'v \<Rightarrow> (dict_status \<times> ('k, 'v) dict) option" where
  "dictAdd g d key val = do {
     (entry, _, d) \<leftarrow> dictAddRaw g d key;
     case entry of
       None \<Rightarrow> Some (DICT_ERR, d)
     | Some e \<Rightarrow> map_option (Pair DICT_OK) (dictSetVal d e val)
   }"

text \<open>\<^verbatim>\<open>dictReplace\<close> returns 1 (\<open>True\<close>) when the key was added.\<close>

definition dictReplace ::
  "dict_globals \<Rightarrow> ('k, 'v) dict \<Rightarrow> 'k \<Rightarrow> 'v \<Rightarrow> (bool \<times> ('k, 'v) dict) option" where
  "dictReplace g d key val = do {
     (entry, existing, d) \<leftarrow> dictAddRaw g d key;
     case entry of
       Some e \<Rightarrow> map_option (Pair True) (dictSetVal d e val)
     | None \<Rightarrow> (case existing of
         None \<Rightarrow> None
       | Some e \<Rightarrow> map_option (Pair False) (dictSetVal d e val))
   }"

definition dictAddOrFind ::
  "dict_globals \<Rightarrow> ('k, 'v) dict \<Rightarrow> 'k \<Rightarrow> (entryref option \<times> ('k, 'v) dict) option" where
  "dictAddOrFind g d key = do {
     (entry, existing, d) \<leftarrow> dictAddRaw g d key;
     Some (case entry of Some e \<Rightarrow> Some e | None \<Rightarrow> existing, d)
   }"

text \<open>Unlinking the first matching entry of a chain.\<close>

fun chain_unlink ::
  "'k dictType \<Rightarrow> 'k \<Rightarrow> ('k, 'v) dictEntry list \<Rightarrow>
   (('k, 'v) dictEntry \<times> ('k, 'v) dictEntry list) option" where
  "chain_unlink ty key [] = None"
| "chain_unlink ty key (he # next') =
     (if key_match ty key he then Some (he, next')
      else map_option (\<lambda>(e, c). (e, he # c)) (chain_unlink ty key next'))"

definition delete_in_table ::
  "('k, 'v) dict \<Rightarrow> 'k \<Rightarrow> nat \<Rightarrow> (('k, 'v) dictEntry option \<times> ('k, 'v) dict) option" where
  "delete_in_table d key t = do {
     let idx = hidx (dictHashKey d key) (ht_sizemask (get_ht d t));
     c \<leftarrow> bucket (get_ht d t) idx;
     case chain_unlink (dict_type d) key c of
       None \<Rightarrow> Some (None, d)
     | Some (he, c') \<Rightarrow> do {
         h \<leftarrow> set_bucket (get_ht d t) idx c';
         Some (Some he, set_ht d t (h\<lparr>ht_used := ht_used h - 1\<rparr>))
       }
   }"

definition dictGenericDelete ::
  "('k, 'v) dict \<Rightarrow> 'k \<Rightarrow> (('k, 'v) dictEntry option \<times> ('k, 'v) dict) option" where
  "dictGenericDelete d key =
     (if ht_used (ht0 d) = 0 \<and> ht_used (ht1 d) = 0 then Some (None, d)
      else do {
        d \<leftarrow> (if dictIsRehashing d then i_dictRehashStep d else Some d);
        (he, d) \<leftarrow> delete_in_table d key 0;
        case he of
          Some e \<Rightarrow> Some (Some e, d)
        | None \<Rightarrow>
            if \<not> dictIsRehashing d then Some (None, d)
            else delete_in_table d key 1
      })"

definition dictDelete :: "('k, 'v) dict \<Rightarrow> 'k \<Rightarrow> (dict_status \<times> ('k, 'v) dict) option" where
  "dictDelete d key = do {
     (he, d) \<leftarrow> dictGenericDelete d key;
     Some (if he \<noteq> None then DICT_OK else DICT_ERR, d)
   }"

definition dictUnlink ::
  "('k, 'v) dict \<Rightarrow> 'k \<Rightarrow> (('k, 'v) dictEntry option \<times> ('k, 'v) dict) option" where
  "dictUnlink d key = dictGenericDelete d key"

definition find_in_table :: "('k, 'v) dict \<Rightarrow> 'k \<Rightarrow> nat \<Rightarrow> entryref option option" where
  "find_in_table d key t = do {
     let idx = hidx (dictHashKey d key) (ht_sizemask (get_ht d t));
     c \<leftarrow> bucket (get_ht d t) idx;
     Some (map_option (\<lambda>p. (t, idx, p)) (chain_pos (dict_type d) key 0 c))
   }"

definition dictFind ::
  "('k, 'v) dict \<Rightarrow> 'k \<Rightarrow> (entryref option \<times> ('k, 'v) dict) option" where
  "dictFind d key =
     (if dictSize d = 0 then Some (None, d)
      else do {
        d \<leftarrow> (if dictIsRehashing d then i_dictRehashStep d else Some d);
        r \<leftarrow> find_in_table d key 0;
        case r of
          Some e \<Rightarrow> Some (Some e, d)
        | None \<Rightarrow>
            if \<not> dictIsRehashing d then Some (None, d)
            else do { r \<leftarrow> find_in_table d key 1; Some (r, d) }
      })"

definition dictFetchValue :: "('k, 'v) dict \<Rightarrow> 'k \<Rightarrow> ('v option \<times> ('k, 'v) dict) option" where
  "dictFetchValue d key = do {
     (he, d) \<leftarrow> dictFind d key;
     case he of
       None \<Rightarrow> Some (None, d)
     | Some r \<Rightarrow> do { e \<leftarrow> deref d r; Some (snd e, d) }
   }"

section \<open>Clearing\<close>

text \<open>The loop that frees the chains; it returns the entries freed, in order.\<close>

fun clear_loop ::
  "('k, 'v) dictEntry list list \<Rightarrow> nat \<Rightarrow> ('k, 'v) dictEntry list" where
  "clear_loop [] used = []"
| "clear_loop (c # cs) used =
     (if used > 0 then c @ clear_loop cs (used - length c) else [])"

definition i_dictClear ::
  "('k, 'v) dictht \<Rightarrow> ('k, 'v) dictEntry list \<times> ('k, 'v) dictht" where
  "i_dictClear h = (clear_loop (ht_table h) (ht_used h), i_dictReset)"

definition dictRelease :: "('k, 'v) dict \<Rightarrow> ('k, 'v) dictEntry list" where
  "dictRelease d = fst (i_dictClear (ht0 d)) @ fst (i_dictClear (ht1 d))"

definition dictEmpty :: "('k, 'v) dict \<Rightarrow> ('k, 'v) dict" where
  "dictEmpty d =
     d\<lparr>ht0 := snd (i_dictClear (ht0 d)), ht1 := snd (i_dictClear (ht1 d)),
       rehashidx := -1, pauserehash := 0\<rparr>"

section \<open>Iterators\<close>

text \<open>
  \<open>it_entry\<close> and \<open>it_nextEntry\<close> are the rest of the chain from the pointed-to entry on; the empty
  list is NULL. The fingerprint of unsafe iterators, a hash of table addresses, is left out.
\<close>

record ('k, 'v) dictIterator =
  it_index :: int
  it_table :: nat
  it_safe :: bool
  it_entry :: "('k, 'v) dictEntry list"
  it_nextEntry :: "('k, 'v) dictEntry list"

definition dictGetIterator :: "('k, 'v) dictIterator" where
  "dictGetIterator =
     \<lparr>it_index = -1, it_table = 0, it_safe = False, it_entry = [], it_nextEntry = []\<rparr>"

definition dictGetSafeIterator :: "('k, 'v) dictIterator" where
  "dictGetSafeIterator = dictGetIterator\<lparr>it_safe := True\<rparr>"

function dictNext ::
  "('k, 'v) dictIterator \<Rightarrow> ('k, 'v) dict \<Rightarrow>
   (('k, 'v) dictEntry option \<times> ('k, 'v) dictIterator \<times> ('k, 'v) dict) option" where
  "dictNext it d =
     (if it_entry it = [] then
        let d = (if it_index it = -1 \<and> it_table it = 0 \<and> it_safe it
                 then dictPauseRehashing d else d);
            it = it\<lparr>it_index := it_index it + 1\<rparr>
        in if it_index it \<ge> int (ht_size (get_ht d (it_table it))) then
             if dictIsRehashing d \<and> it_table it = 0 then
               (case bucket (ht1 d) 0 of
                  None \<Rightarrow> None
                | Some c \<Rightarrow>
                    let it = it\<lparr>it_table := 1, it_index := 0, it_entry := c\<rparr>
                    in if c \<noteq> [] then Some (Some (hd c), it\<lparr>it_nextEntry := tl c\<rparr>, d)
                       else dictNext it d)
             else Some (None, it, d)
           else
             (case bucket (get_ht d (it_table it)) (nat (it_index it)) of
                None \<Rightarrow> None
              | Some c \<Rightarrow>
                  let it = it\<lparr>it_entry := c\<rparr>
                  in if c \<noteq> [] then Some (Some (hd c), it\<lparr>it_nextEntry := tl c\<rparr>, d)
                     else dictNext it d)
      else
        let c = it_nextEntry it; it = it\<lparr>it_entry := c\<rparr>
        in if c \<noteq> [] then Some (Some (hd c), it\<lparr>it_nextEntry := tl c\<rparr>, d)
           else dictNext it d)"
  by pat_completeness auto
termination
  by (relation "measures [\<lambda>(it, d). if it_table it = 0
        then ht_size (ht1 d) + 2 + nat (int (ht_size (ht0 d)) - it_index it)
        else nat (int (ht_size (ht1 d)) - it_index it),
      \<lambda>(it, d). if it_entry it = [] then 0 else 1]")
    (auto simp: get_ht_def dictPauseRehashing_def split: if_splits)

declare dictNext.simps [simp del]

definition dictReleaseIterator ::
  "('k, 'v) dictIterator \<Rightarrow> ('k, 'v) dict \<Rightarrow> ('k, 'v) dict" where
  "dictReleaseIterator it d =
     (if \<not> (it_index it = -1 \<and> it_table it = 0) \<and> it_safe it
      then dictResumeRehashing d else d)"

end
