(* ===== verification/Dict_Correct.thy ===== *)
theory Dict_Correct
  imports Dict
begin

text \<open>
  Correctness of the hash table of theory \<open>Dict\<close>: its representation invariant, the map it
  represents, and that every operation returns, keeps the invariant and acts on the map as its
  name says, whatever the state of the incremental rehashing.
\<close>

section \<open>Invariant and abstraction\<close>

definition keq :: "'k dictType \<Rightarrow> 'k \<Rightarrow> 'k \<Rightarrow> bool" where
  "keq ty a b \<longleftrightarrow> a = b \<or> dictCompareKeys ty a b"

text \<open>What the callers guarantee of the functions of a dictionary type.\<close>

definition dtype_ok :: "'k dictType \<Rightarrow> bool" where
  "dtype_ok ty \<longleftrightarrow>
     (\<forall>a b. keq ty a b \<longrightarrow> keq ty b a) \<and>
     (\<forall>a b c. keq ty a b \<longrightarrow> keq ty b c \<longrightarrow> keq ty a c) \<and>
     (\<forall>a b. keq ty a b \<longrightarrow> hashFunction ty a = hashFunction ty b)"

abbreviation matches :: "'k dictType \<Rightarrow> 'k \<Rightarrow> ('k, 'v) dictEntry list \<Rightarrow> ('k, 'v) dictEntry list" where
  "matches ty k es \<equiv> filter (\<lambda>e. keq ty k (fst e)) es"

definition uniq :: "'k dictType \<Rightarrow> ('k, 'v) dictEntry list \<Rightarrow> bool" where
  "uniq ty es \<longleftrightarrow> (\<forall>k. length (matches ty k es) \<le> 1)"

definition placed :: "'k dictType \<Rightarrow> ('k, 'v) dictEntry list list \<Rightarrow> nat \<Rightarrow> bool" where
  "placed ty T m \<longleftrightarrow>
     (\<forall>i < length T. \<forall>e \<in> set (T ! i). hidx (hashFunction ty (fst e)) m = i)"

definition ht_ok :: "'k dictType \<Rightarrow> ('k, 'v) dictht \<Rightarrow> bool" where
  "ht_ok ty h \<longleftrightarrow>
     length (ht_table h) = ht_size h \<and>
     ht_used h = length (concat (ht_table h)) \<and>
     (if ht_size h = 0 then ht_sizemask h = 0
      else \<exists>n \<le> 63. ht_size h = 2 ^ n \<and> ht_sizemask h = 2 ^ n - 1) \<and>
     placed ty (ht_table h) (ht_sizemask h)"

definition entries :: "('k, 'v) dict \<Rightarrow> ('k, 'v) dictEntry list" where
  "entries d = concat (ht_table (ht0 d)) @ concat (ht_table (ht1 d))"

definition rehash_ok :: "('k, 'v) dict \<Rightarrow> bool" where
  "rehash_ok d \<longleftrightarrow>
     (if rehashidx d = -1 then ht1 d = i_dictReset
      else 0 \<le> rehashidx d \<and> rehashidx d \<le> int (ht_size (ht0 d)) \<and>
           0 < ht_size (ht0 d) \<and> 0 < ht_size (ht1 d) \<and>
           (\<forall>i < nat (rehashidx d). ht_table (ht0 d) ! i = []))"

definition dict_inv :: "('k, 'v) dict \<Rightarrow> bool" where
  "dict_inv d \<longleftrightarrow>
     dtype_ok (dict_type d) \<and> ht_ok (dict_type d) (ht0 d) \<and> ht_ok (dict_type d) (ht1 d) \<and>
     uniq (dict_type d) (entries d) \<and> rehash_ok d"

definition lookup_es :: "'k dictType \<Rightarrow> ('k, 'v) dictEntry list \<Rightarrow> 'k \<Rightarrow> 'v option option" where
  "lookup_es ty es k = map_option snd (find (\<lambda>e. keq ty k (fst e)) es)"

definition dict_map :: "('k, 'v) dict \<Rightarrow> 'k \<Rightarrow> 'v option option" where
  "dict_map d = lookup_es (dict_type d) (entries d)"

lemma keq_refl [simp]: "keq ty a a"
  by (simp add: keq_def)

lemma key_match_keq: "key_match ty k e = keq ty k (fst e)"
  by (simp add: key_match_def keq_def)

lemma dtype_okD:
  assumes "dtype_ok ty"
  shows keq_sym: "keq ty a b \<Longrightarrow> keq ty b a"
    and keq_trans: "keq ty a b \<Longrightarrow> keq ty b c \<Longrightarrow> keq ty a c"
    and keq_hash: "keq ty a b \<Longrightarrow> hashFunction ty a = hashFunction ty b"
  using assms unfolding dtype_ok_def by blast+

section \<open>Unique keys and lookup\<close>

lemma length_matches_mset:
  "mset es = mset es' \<Longrightarrow> length (matches ty k es) = length (matches ty k es')"
  by (metis mset_filter size_mset)

lemma uniq_mset: "mset es = mset es' \<Longrightarrow> uniq ty es = uniq ty es'"
  by (simp add: uniq_def length_matches_mset [of es es'])

lemma uniq_Cons:
  assumes "dtype_ok ty"
  shows "uniq ty (e # es) \<longleftrightarrow> uniq ty es \<and> (\<forall>x \<in> set es. \<not> keq ty (fst e) (fst x))"
proof
  assume u: "uniq ty (e # es)"
  have "length (matches ty k es) \<le> 1" for k
    using u [unfolded uniq_def, rule_format, of k] by (auto split: if_splits)
  moreover have "matches ty (fst e) es = []"
    using u [unfolded uniq_def, rule_format, of "fst e"] by simp
  then have "\<forall>x \<in> set es. \<not> keq ty (fst e) (fst x)" by (simp add: filter_empty_conv)
  ultimately show "uniq ty es \<and> (\<forall>x \<in> set es. \<not> keq ty (fst e) (fst x))"
    by (simp add: uniq_def)
next
  assume u: "uniq ty es \<and> (\<forall>x \<in> set es. \<not> keq ty (fst e) (fst x))"
  have "length (matches ty k (e # es)) \<le> 1" for k
  proof (cases "keq ty k (fst e)")
    case True
    then have "matches ty k es = []"
      unfolding filter_empty_conv using u keq_sym [OF assms] keq_trans [OF assms] by blast
    then show ?thesis by simp
  next
    case False
    then show ?thesis using u by (simp add: uniq_def)
  qed
  then show "uniq ty (e # es)" by (simp add: uniq_def)
qed

lemma lookup_es_None: "lookup_es ty es k = None \<longleftrightarrow> (\<forall>e \<in> set es. \<not> keq ty k (fst e))"
  by (auto simp: lookup_es_def find_None_iff)

lemma find_matches: "find P es = (case filter P es of [] \<Rightarrow> None | e # _ \<Rightarrow> Some e)"
  by (induction es) auto

lemma mset_short_eq: "mset xs = mset ys \<Longrightarrow> length xs \<le> 1 \<Longrightarrow> xs = ys"
proof -
  assume m: "mset xs = mset ys" and l: "length xs \<le> 1"
  have "length ys \<le> 1" using mset_eq_length [OF m] l by simp
  with m l show ?thesis by (cases xs; cases ys) auto
qed

lemma lookup_es_mset:
  assumes "uniq ty es" "mset es = mset es'"
  shows "lookup_es ty es k = lookup_es ty es' k"
proof -
  have "mset (matches ty k es) = mset (matches ty k es')" using assms(2) by simp
  moreover have "length (matches ty k es) \<le> 1" using assms(1) by (simp add: uniq_def)
  ultimately have "matches ty k es = matches ty k es'" by (rule mset_short_eq)
  then show ?thesis by (simp add: lookup_es_def find_matches)
qed

lemma lookup_es_Cons:
  "lookup_es ty (e # es) k = (if keq ty k (fst e) then Some (snd e) else lookup_es ty es k)"
  by (simp add: lookup_es_def)

lemma lookup_es_Some:
  assumes "dtype_ok ty" "uniq ty es" "e \<in> set es" "keq ty k (fst e)"
  shows "lookup_es ty es k = Some (snd e)"
proof -
  have "mset es = mset (e # remove1 e es)" using assms(3) by simp
  then have "lookup_es ty es k = lookup_es ty (e # remove1 e es) k"
    by (rule lookup_es_mset [OF assms(2)])
  then show ?thesis using assms(4) by (simp add: lookup_es_Cons)
qed

section \<open>Tables\<close>

lemma hidx_pow2: "hidx w (2 ^ n - Suc 0) = unat w mod 2 ^ n"
proof -
  have "hidx w (2 ^ n - 1) = take_bit n (unat w)"
    unfolding hidx_def mask_eq_exp_minus_1 [symmetric] by (simp add: take_bit_eq_mask)
  then show ?thesis by (simp add: take_bit_eq_mod)
qed

lemma ht_ok_hidx_less:
  assumes "ht_ok ty h" "0 < ht_size h"
  shows "hidx w (ht_sizemask h) < length (ht_table h)"
  using assms by (auto simp: ht_ok_def hidx_pow2)

lemma mset_concat_update:
  assumes "i < length T"
  shows "mset (concat (T[i := c])) + mset (T ! i) = mset c + mset (concat T)"
proof -
  have T: "T = take i T @ T ! i # drop (Suc i) T" using assms by (simp add: id_take_nth_drop)
  have "T[i := c] = take i T @ c # drop (Suc i) T" using assms by (simp add: upd_conv_take_nth_drop)
  moreover have "mset (concat T) = mset (concat (take i T)) + mset (T ! i) + mset (concat (drop (Suc i) T))"
    by (subst T) simp
  ultimately show ?thesis by (simp add: ac_simps)
qed

lemma length_concat_update:
  assumes "i < length T"
  shows "length (concat (T[i := c])) + length (T ! i) = length c + length (concat T)"
  using arg_cong [OF mset_concat_update [OF assms, of c], of size]
  by (simp only: size_union size_mset)

lemma length_bucket_le: "i < length T \<Longrightarrow> length (T ! i) \<le> length (concat T)"
  using length_concat_update [of i T "[]"] by simp

lemma placed_update:
  assumes "placed ty T m" "\<forall>e \<in> set c. hidx (hashFunction ty (fst e)) m = i"
  shows "placed ty (T[i := c]) m"
  unfolding placed_def
proof (intro allI impI ballI)
  fix j e
  assume "j < length (T[i := c])" "e \<in> set (T[i := c] ! j)"
  then show "hidx (hashFunction ty (fst e)) m = j"
    using assms by (cases "j = i") (auto simp: placed_def)
qed

lemma ht_ok_upd:
  assumes "ht_ok ty h" "i < length (ht_table h)"
    and "\<forall>e \<in> set c. hidx (hashFunction ty (fst e)) (ht_sizemask h) = i"
    and "u + length (ht_table h ! i) = ht_used h + length c"
  shows "ht_ok ty (h\<lparr>ht_table := (ht_table h)[i := c], ht_used := u\<rparr>)"
  using assms length_concat_update [OF assms(2), of c] placed_update [of ty "ht_table h" "ht_sizemask h" c i]
  by (simp add: ht_ok_def split: if_splits)

lemma ht_ok_bucket_placed:
  "ht_ok ty h \<Longrightarrow> i < length (ht_table h) \<Longrightarrow> e \<in> set (ht_table h ! i) \<Longrightarrow>
   hidx (hashFunction ty (fst e)) (ht_sizemask h) = i"
  by (auto simp: ht_ok_def placed_def)

lemma find_append: "find P (xs @ ys) = (case find P xs of None \<Rightarrow> find P ys | Some e \<Rightarrow> Some e)"
  by (induction xs) auto

lemma find_concat_bucket:
  assumes "i < length T" "\<And>j e. j < length T \<Longrightarrow> j \<noteq> i \<Longrightarrow> e \<in> set (T ! j) \<Longrightarrow> \<not> P e"
  shows "find P (concat T) = find P (T ! i)"
proof -
  have T: "T = take i T @ T ! i # drop (Suc i) T" using assms(1) by (simp add: id_take_nth_drop)
  have a: "find P (concat (take i T)) = None"
  proof -
    have "\<not> P e" if mem: "e \<in> set (concat (take i T))" for e
    proof -
      obtain c where c: "c \<in> set (take i T)" "e \<in> set c" using mem by auto
      then obtain j where "j < i" "e \<in> set (T ! j)"
        using assms(1) by (auto simp: in_set_conv_nth [of c])
      then show ?thesis using assms(1) assms(2) [of j e] by simp
    qed
    then show ?thesis by (auto simp: find_None_iff)
  qed
  have b: "find P (concat (drop (Suc i) T)) = None"
  proof -
    have "\<not> P e" if mem: "e \<in> set (concat (drop (Suc i) T))" for e
    proof -
      obtain c where c: "c \<in> set (drop (Suc i) T)" "e \<in> set c" using mem by auto
      then obtain n where "n < length T - Suc i" "c = T ! (Suc i + n)"
        by (auto simp: in_set_conv_nth [of c])
      then show ?thesis using assms(2) [of "Suc i + n" e] c(2) by simp
    qed
    then show ?thesis by (auto simp: find_None_iff)
  qed
  show ?thesis by (subst T) (simp add: find_append a b split: option.splits)
qed

lemma find_table:
  assumes "dtype_ok ty" "ht_ok ty h" "0 < ht_size h"
  shows "find (\<lambda>e. keq ty k (fst e)) (concat (ht_table h)) =
    find (\<lambda>e. keq ty k (fst e)) (ht_table h ! hidx (hashFunction ty k) (ht_sizemask h))"
proof (rule find_concat_bucket)
  show "hidx (hashFunction ty k) (ht_sizemask h) < length (ht_table h)"
    by (rule ht_ok_hidx_less [OF assms(2,3)])
next
  fix j e
  assume "j < length (ht_table h)" "j \<noteq> hidx (hashFunction ty k) (ht_sizemask h)"
    "e \<in> set (ht_table h ! j)"
  then show "\<not> keq ty k (fst e)"
    using ht_ok_bucket_placed [OF assms(2)] keq_hash [OF assms(1)] by metis
qed

section \<open>Rehashing\<close>

lemma rehash_chain_correct:
  assumes "ht_ok ty b" "0 < ht_size b"
  shows "\<exists>b'. rehash_chain ty c a b = Some (a\<lparr>ht_used := ht_used a - length c\<rparr>, b') \<and>
    ht_ok ty b' \<and> ht_size b' = ht_size b \<and>
    mset (concat (ht_table b')) = mset c + mset (concat (ht_table b))"
  using assms
proof (induction c arbitrary: a b)
  case Nil
  then show ?case by simp
next
  case (Cons e c)
  define i where "i = hidx (hashFunction ty (fst e)) (ht_sizemask b)"
  let ?b = "b\<lparr>ht_table := (ht_table b)[i := e # ht_table b ! i], ht_used := ht_used b + 1\<rparr>"
  have i: "i < length (ht_table b)" unfolding i_def by (rule ht_ok_hidx_less [OF Cons.prems])
  have ok: "ht_ok ty ?b"
    using Cons.prems(1) i ht_ok_bucket_placed [OF Cons.prems(1) i]
    by (intro ht_ok_upd) (auto simp: i_def)
  have ms: "mset (concat (ht_table ?b)) = add_mset e (mset (concat (ht_table b)))"
    using mset_concat_update [OF i, of "e # ht_table b ! i"] by simp
  obtain b' where b': "rehash_chain ty c (a\<lparr>ht_used := ht_used a - 1\<rparr>) ?b =
      Some (a\<lparr>ht_used := ht_used a - 1 - length c\<rparr>, b')"
    "ht_ok ty b'" "ht_size b' = ht_size ?b"
    "mset (concat (ht_table b')) = mset c + mset (concat (ht_table ?b))"
    using Cons.IH [OF ok, of "a\<lparr>ht_used := ht_used a - 1\<rparr>"] Cons.prems(2) by auto
  have "rehash_chain ty (e # c) a b = rehash_chain ty c (a\<lparr>ht_used := ht_used a - 1\<rparr>) ?b"
    using i by (simp add: bucket_def set_bucket_def i_def [symmetric])
  then show ?case using b' ms by auto
qed

lemma rehash_skip_correct:
  assumes "j < length (ht_table h)" "ht_table h ! j \<noteq> []" "idx \<le> j" "\<forall>i < idx. ht_table h ! i = []"
  shows "\<exists>r. rehash_skip h idx ev = Some r \<and>
    (case r of
       Visits_exhausted i \<Rightarrow> idx < i \<and> i \<le> j \<and> (\<forall>k < i. ht_table h ! k = [])
     | Bucket_found i ev' c \<Rightarrow> idx \<le> i \<and> i \<le> j \<and> c = ht_table h ! i \<and> c \<noteq> [] \<and>
         (\<forall>k < i. ht_table h ! k = []))"
  using assms
proof (induction h idx ev rule: rehash_skip.induct)
  case (1 h idx ev)
  show ?case
  proof (cases "ht_table h ! idx = []")
    case False
    then show ?thesis using "1.prems" by (auto simp: rehash_skip.simps [of h idx ev])
  next
    case True
    then have "idx \<noteq> j" using "1.prems" by auto
    then have j: "idx + 1 \<le> j" using "1.prems" by simp
    have e: "\<forall>i < idx + 1. ht_table h ! i = []" using "1.prems" True by (simp add: less_Suc_eq)
    show ?thesis
    proof (cases "ev - 1 = 0")
      case ev: True
      then show ?thesis using True "1.prems" j e by (auto simp: rehash_skip.simps [of h idx ev])
    next
      case ev: False
      have "idx < length (ht_table h)" using "1.prems" by simp
      from "1.IH" [OF this True ev "1.prems"(1,2) j e]
      obtain r where r: "rehash_skip h (idx + 1) (ev - 1) = Some r"
        "case r of
           Visits_exhausted i \<Rightarrow> idx + 1 < i \<and> i \<le> j \<and> (\<forall>k < i. ht_table h ! k = [])
         | Bucket_found i ev' c \<Rightarrow> idx + 1 \<le> i \<and> i \<le> j \<and> c = ht_table h ! i \<and> c \<noteq> [] \<and>
             (\<forall>k < i. ht_table h ! k = [])" by blast
      then have "rehash_skip h idx ev = Some r"
        using True ev \<open>idx < length (ht_table h)\<close> by (simp add: rehash_skip.simps [of h idx ev])
      with r(2) show ?thesis by (auto split: skip_result.splits)
    qed
  qed
qed

text \<open>The two states hold the same entries and differ only in how they are stored.\<close>

definition same_content :: "('k, 'v) dict \<Rightarrow> ('k, 'v) dict \<Rightarrow> bool" where
  "same_content d d' \<longleftrightarrow>
     dict_type d' = dict_type d \<and> pauserehash d' = pauserehash d \<and>
     mset (entries d') = mset (entries d)"

lemma same_content_refl [simp]: "same_content d d"
  by (simp add: same_content_def)

lemma same_content_trans: "same_content a b \<Longrightarrow> same_content b c \<Longrightarrow> same_content a c"
  by (simp add: same_content_def)

lemma same_content_map: "dict_inv d \<Longrightarrow> same_content d d' \<Longrightarrow> dict_map d' = dict_map d"
  unfolding dict_map_def same_content_def dict_inv_def
  by (intro ext) (metis lookup_es_mset uniq_mset)

lemma dict_inv_ht_ok: "dict_inv d \<Longrightarrow> ht_ok (dict_type d) (ht0 d)" "dict_inv d \<Longrightarrow> ht_ok (dict_type d) (ht1 d)"
  by (simp_all add: dict_inv_def)

lemma ht_ok_nonempty_bucket:
  assumes "ht_ok ty h" "ht_used h \<noteq> 0"
  obtains j where "j < length (ht_table h)" "ht_table h ! j \<noteq> []"
proof -
  have "concat (ht_table h) \<noteq> []" using assms by (auto simp: ht_ok_def)
  then obtain c where "c \<in> set (ht_table h)" "c \<noteq> []" by auto
  then show ?thesis using that by (metis in_set_conv_nth)
qed

text \<open>Moving one bucket keeps the invariant and the entries.\<close>

lemma move_bucket:
  assumes inv: "dict_inv d" and re: "dictIsRehashing d"
    and i: "i < length (ht_table (ht0 d))" "nat (rehashidx d) \<le> i" "\<forall>k < i. ht_table (ht0 d) ! k = []"
    and c: "c = ht_table (ht0 d) ! i"
  shows "\<exists>a b d'. rehash_chain (dict_type d) c (ht0 d) (ht1 d) = Some (a, b) \<and>
    set_bucket a i [] = Some (ht0 d') \<and> d' = d\<lparr>ht0 := ht0 d', ht1 := b, rehashidx := int i + 1\<rparr> \<and>
    dict_inv d' \<and> dictIsRehashing d' \<and> same_content d d' \<and> ht_size (ht0 d') = ht_size (ht0 d)"
proof -
  let ?ty = "dict_type d" and ?T = "ht_table (ht0 d)"
  have ok: "ht_ok ?ty (ht0 d)" "ht_ok ?ty (ht1 d)" using inv by (simp_all add: dict_inv_def)
  have sz: "0 < ht_size (ht1 d)" "0 < ht_size (ht0 d)"
    using inv re by (auto simp: dict_inv_def rehash_ok_def dictIsRehashing_def)
  obtain b where b: "rehash_chain ?ty c (ht0 d) (ht1 d) =
      Some ((ht0 d)\<lparr>ht_used := ht_used (ht0 d) - length c\<rparr>, b)" "ht_ok ?ty b"
    "ht_size b = ht_size (ht1 d)" "mset (concat (ht_table b)) = mset c + mset (concat (ht_table (ht1 d)))"
    using rehash_chain_correct [OF ok(2) sz(1)] by blast
  let ?a = "(ht0 d)\<lparr>ht_table := ?T[i := []], ht_used := ht_used (ht0 d) - length c\<rparr>"
  let ?d = "d\<lparr>ht0 := ?a, ht1 := b, rehashidx := int i + 1\<rparr>"
  have le: "length c \<le> ht_used (ht0 d)" using length_bucket_le [OF i(1)] ok(1) c by (simp add: ht_ok_def)
  have a_ok: "ht_ok ?ty ?a" using ok(1) i(1) le c by (intro ht_ok_upd) auto
  have "mset (concat (?T[i := []])) + mset c = mset (concat ?T)"
    using mset_concat_update [OF i(1), of "[]"] c by simp
  then have ms: "mset (entries ?d) = mset (entries d)"
    using b(4) by (simp add: entries_def ac_simps)
  have "rehash_ok ?d"
    using i sz b(3) ok(1) by (auto simp: rehash_ok_def ht_ok_def nth_list_update less_Suc_eq nat_add_distrib)
  moreover have "uniq ?ty (entries ?d)" using uniq_mset [OF ms] inv by (simp add: dict_inv_def)
  ultimately have "dict_inv ?d" using inv a_ok b(2) by (simp add: dict_inv_def)
  then show ?thesis
    using b(1) ms i(1)
    by (intro exI [of _ "(ht0 d)\<lparr>ht_used := ht_used (ht0 d) - length c\<rparr>"] exI [of _ b] exI [of _ ?d])
      (simp add: set_bucket_def dictIsRehashing_def same_content_def)
qed

lemma rehash_loop_correct:
  assumes "dict_inv d" "dictIsRehashing d"
  shows "\<exists>early d'. rehash_loop n ev d = Some (early, d') \<and> dict_inv d' \<and> dictIsRehashing d' \<and>
    same_content d d' \<and> ht_size (ht0 d') = ht_size (ht0 d) \<and> rehashidx d \<le> rehashidx d' \<and>
    (early \<longrightarrow> ht_used (ht0 d') \<noteq> 0) \<and>
    (n \<noteq> 0 \<longrightarrow> ht_used (ht0 d) \<noteq> 0 \<longrightarrow> rehashidx d < rehashidx d')"
  using assms
proof (induction n arbitrary: ev d)
  case 0
  then show ?case by auto
next
  case (Suc n)
  let ?T = "ht_table (ht0 d)"
  show ?case
  proof (cases "ht_used (ht0 d) = 0")
    case True
    then show ?thesis using Suc.prems by auto
  next
    case False
    have ok: "ht_ok (dict_type d) (ht0 d)" and re: "rehash_ok d" and nn: "rehashidx d \<noteq> -1"
      using Suc.prems by (simp_all add: dict_inv_def dictIsRehashing_def)
    obtain j where j: "j < length ?T" "?T ! j \<noteq> []" by (rule ht_ok_nonempty_bucket [OF ok False])
    have r0: "0 \<le> rehashidx d" and e: "\<forall>i < nat (rehashidx d). ?T ! i = []"
      using re nn by (auto simp: rehash_ok_def)
    have jr: "nat (rehashidx d) \<le> j" using e j(2) by (meson linorder_not_less)
    have sz: "ht_size (ht0 d) > nat (rehashidx d)" using jr j(1) ok by (simp add: ht_ok_def)
    obtain r where r: "rehash_skip (ht0 d) (nat (rehashidx d)) ev = Some r"
      and rc: "case r of
         Visits_exhausted i \<Rightarrow> nat (rehashidx d) < i \<and> i \<le> j \<and> (\<forall>k < i. ?T ! k = [])
       | Bucket_found i ev' c \<Rightarrow> nat (rehashidx d) \<le> i \<and> i \<le> j \<and> c = ?T ! i \<and> c \<noteq> [] \<and>
           (\<forall>k < i. ?T ! k = [])"
      using rehash_skip_correct [OF j jr e, of ev] by blast
    show ?thesis
    proof (cases r)
      case (Visits_exhausted i)
      let ?d = "d\<lparr>rehashidx := int i\<rparr>"
      have "dict_inv ?d"
        using Suc.prems rc Visits_exhausted j ok
        by (auto simp: dict_inv_def rehash_ok_def dictIsRehashing_def entries_def ht_ok_def)
      then show ?thesis
        using False sz r rc Visits_exhausted
        by (auto simp: dictIsRehashing_def same_content_def entries_def)
    next
      case (Bucket_found i ev' c)
      have i: "i < length ?T" "nat (rehashidx d) \<le> i" "\<forall>k < i. ?T ! k = []" "c = ?T ! i"
        using rc j Bucket_found by auto
      obtain a b d' where m: "rehash_chain (dict_type d) c (ht0 d) (ht1 d) = Some (a, b)"
        "set_bucket a i [] = Some (ht0 d')" "d' = d\<lparr>ht0 := ht0 d', ht1 := b, rehashidx := int i + 1\<rparr>"
        "dict_inv d'" "dictIsRehashing d'" "same_content d d'" "ht_size (ht0 d') = ht_size (ht0 d)"
        using move_bucket [OF Suc.prems i] by blast
      obtain early d'' where l: "rehash_loop n ev' d' = Some (early, d'')" "dict_inv d''"
        "dictIsRehashing d''" "same_content d' d''" "ht_size (ht0 d'') = ht_size (ht0 d')"
        "rehashidx d' \<le> rehashidx d''" "early \<longrightarrow> ht_used (ht0 d'') \<noteq> 0"
        using Suc.IH [OF m(4,5)] by blast
      have "rehash_loop (Suc n) ev d = rehash_loop n ev' d'"
        using False sz r Bucket_found m(1,2) m(3) [symmetric] by simp
      moreover have "rehashidx d < rehashidx d'"
        using m(3) i(2) by (metis dict.select_convs(4) dict.surjective dict.update_convs(4) nat_le_iff zle_add1_eq_le)
      ultimately show ?thesis
        using l m same_content_trans [OF m(6) l(4)] by auto
    qed
  qed
qed

lemma dictRehash_correct:
  assumes "dict_inv d"
  shows "\<exists>more d'. dictRehash d n = Some (more, d') \<and> dict_inv d' \<and> same_content d d' \<and>
    more = dictIsRehashing d' \<and>
    (dictIsRehashing d' \<longrightarrow> dictIsRehashing d \<and> ht_size (ht0 d') = ht_size (ht0 d) \<and>
       (n \<noteq> 0 \<longrightarrow> rehashidx d < rehashidx d'))"
proof (cases "dictIsRehashing d")
  case False
  then show ?thesis using assms by (auto simp: dictRehash_def)
next
  case True
  obtain early d' where l: "rehash_loop n (n * 10) d = Some (early, d')" "dict_inv d'"
    "dictIsRehashing d'" "same_content d d'" "ht_size (ht0 d') = ht_size (ht0 d)"
    "early \<longrightarrow> ht_used (ht0 d') \<noteq> 0"
    "n \<noteq> 0 \<longrightarrow> ht_used (ht0 d) \<noteq> 0 \<longrightarrow> rehashidx d < rehashidx d'"
    using rehash_loop_correct [OF assms True] by blast
  show ?thesis
  proof (cases "ht_used (ht0 d') = 0")
    case z: True
    let ?d = "d'\<lparr>ht0 := ht1 d', ht1 := i_dictReset, rehashidx := -1\<rparr>"
    have "concat (ht_table (ht0 d')) = []" using z l(2) by (simp add: dict_inv_def ht_ok_def)
    then have e: "entries ?d = entries d'" by (simp add: entries_def i_dictReset_def)
    have "ht_ok (dict_type d') i_dictReset" by (simp add: ht_ok_def i_dictReset_def placed_def)
    then have "dict_inv ?d" using l(2) e by (simp add: dict_inv_def rehash_ok_def)
    moreover have "dictRehash d n = Some (False, ?d)"
      using True l z by (simp add: dictRehash_def)
    ultimately show ?thesis using l(4) e by (auto simp: same_content_def dictIsRehashing_def)
  next
    case nz: False
    have "dictRehash d n = Some (True, d')" using True l nz by (simp add: dictRehash_def)
    moreover have "ht_used (ht0 d) \<noteq> 0 \<or> n = 0"
    proof (cases n)
      case (Suc m)
      then show ?thesis using l(1) nz by (auto split: if_splits)
    qed simp
    ultimately show ?thesis using True l by auto
  qed
qed

lemma i_dictRehashStep_correct:
  assumes "dict_inv d"
  shows "\<exists>d'. i_dictRehashStep d = Some d' \<and> dict_inv d' \<and> same_content d d'"
  using dictRehash_correct [OF assms, of 1] assms by (auto simp: i_dictRehashStep_def)

lemma opt_rehash_step:
  assumes "dict_inv d"
  obtains d' where "(if dictIsRehashing d then i_dictRehashStep d else Some d) = Some d'"
    "dict_inv d'" "same_content d d'"
  using i_dictRehashStep_correct [OF assms] assms by (cases "dictIsRehashing d") auto

section \<open>Lookup\<close>

lemma chain_pos_find:
  "chain_pos ty k p c =
   (case find (\<lambda>e. keq ty k (fst e)) c of
      None \<Rightarrow> None
    | Some _ \<Rightarrow> Some (p + length (takeWhile (\<lambda>e. \<not> keq ty k (fst e)) c)))"
  by (induction c arbitrary: p) (auto simp: key_match_keq split: option.splits)

lemma find_takeWhile:
  "find P c = Some e \<Longrightarrow>
   length (takeWhile (\<lambda>x. \<not> P x) c) < length c \<and> c ! length (takeWhile (\<lambda>x. \<not> P x) c) = e \<and> P e"
  by (induction c) (auto split: if_splits)

lemma chain_pos_Some:
  "chain_pos ty k 0 c = Some p \<Longrightarrow>
   p < length c \<and> keq ty k (fst (c ! p)) \<and> find (\<lambda>e. keq ty k (fst e)) c = Some (c ! p)"
  using find_takeWhile [of "\<lambda>e. keq ty k (fst e)" c] by (auto simp: chain_pos_find split: option.splits)

lemma chain_pos_None: "chain_pos ty k p c = None \<longleftrightarrow> find (\<lambda>e. keq ty k (fst e)) c = None"
  by (auto simp: chain_pos_find split: option.splits)

text \<open>The search in one table, as the lookup functions do it.\<close>

lemma table_search:
  fixes d :: "('k, 'v) dict" and k :: 'k and t :: nat
  assumes "dict_inv d" "0 < ht_size (get_ht d t)"
  defines "i \<equiv> hidx (dictHashKey d k) (ht_sizemask (get_ht d t))"
  obtains c where "bucket (get_ht d t) i = Some c" "i < length (ht_table (get_ht d t))"
    "c = ht_table (get_ht d t) ! i"
    "find (\<lambda>e. keq (dict_type d) k (fst e)) (concat (ht_table (get_ht d t))) =
     find (\<lambda>e. keq (dict_type d) k (fst e)) c"
proof -
  have ok: "ht_ok (dict_type d) (get_ht d t)" using assms(1) by (simp add: dict_inv_def get_ht_def)
  have ty: "dtype_ok (dict_type d)" using assms(1) by (simp add: dict_inv_def)
  have "i < length (ht_table (get_ht d t))" unfolding i_def by (rule ht_ok_hidx_less [OF ok assms(2)])
  then show ?thesis
    using that [of "ht_table (get_ht d t) ! i"] find_table [OF ty ok assms(2), of k]
    by (simp add: bucket_def i_def dictHashKey_def)
qed

lemma dict_map_find:
  "dict_map d k = map_option snd
    (case find (\<lambda>e. keq (dict_type d) k (fst e)) (concat (ht_table (ht0 d))) of
       None \<Rightarrow> find (\<lambda>e. keq (dict_type d) k (fst e)) (concat (ht_table (ht1 d)))
     | Some e \<Rightarrow> Some e)"
  by (simp add: dict_map_def lookup_es_def entries_def find_append)

lemma inv_not_rehashing:
  "dict_inv d \<Longrightarrow> \<not> dictIsRehashing d \<Longrightarrow> ht_table (ht1 d) = []"
  by (simp add: dict_inv_def rehash_ok_def dictIsRehashing_def i_dictReset_def)

lemma inv_rehashing_sizes:
  "dict_inv d \<Longrightarrow> dictIsRehashing d \<Longrightarrow> 0 < ht_size (ht0 d) \<and> 0 < ht_size (ht1 d)"
  by (simp add: dict_inv_def rehash_ok_def dictIsRehashing_def)

lemma table_nonempty_size: "ht_ok ty h \<Longrightarrow> ht_table h \<noteq> [] \<Longrightarrow> 0 < ht_size h"
  unfolding ht_ok_def by (metis length_greater_0_conv)

lemma inv_size0:
  assumes "dict_inv d" "entries d \<noteq> []"
  shows "0 < ht_size (ht0 d)"
proof (cases "dictIsRehashing d")
  case True
  then show ?thesis using inv_rehashing_sizes assms by blast
next
  case False
  then have "ht_table (ht0 d) \<noteq> []"
    using inv_not_rehashing [OF assms(1)] assms(2) by (auto simp: entries_def)
  then show ?thesis using table_nonempty_size assms(1) by (auto simp: dict_inv_def)
qed

lemma dictSize_entries: "dict_inv d \<Longrightarrow> dictSize d = length (entries d)"
  by (simp add: dictSize_def entries_def dict_inv_def ht_ok_def)

definition ref_ok :: "('k, 'v) dict \<Rightarrow> 'k \<Rightarrow> entryref option \<Rightarrow> bool" where
  "ref_ok d k r \<longleftrightarrow>
     (case r of
        None \<Rightarrow> dict_map d k = None
      | Some p \<Rightarrow> \<exists>e. deref d p = Some e \<and> keq (dict_type d) k (fst e) \<and> dict_map d k = Some (snd e))"

lemma deref_bucket:
  "i < length (ht_table (get_ht d t)) \<Longrightarrow> p < length (ht_table (get_ht d t) ! i) \<Longrightarrow>
   deref d (t, i, p) = Some (ht_table (get_ht d t) ! i ! p)"
  by (simp add: deref_def bucket_def)

text \<open>\<open>find_in_table\<close> finds the entry that a search through the whole table would find.\<close>

lemma find_in_table_correct:
  assumes "dict_inv d" "0 < ht_size (get_ht d t)"
  shows "\<exists>r. find_in_table d k t = Some r \<and>
    (case find (\<lambda>e. keq (dict_type d) k (fst e)) (concat (ht_table (get_ht d t))) of
       None \<Rightarrow> r = None
     | Some e \<Rightarrow> \<exists>p. r = Some p \<and> deref d p = Some e \<and> keq (dict_type d) k (fst e))"
proof -
  let ?i = "hidx (dictHashKey d k) (ht_sizemask (get_ht d t))"
  obtain c where c: "bucket (get_ht d t) ?i = Some c" "?i < length (ht_table (get_ht d t))"
    "c = ht_table (get_ht d t) ! ?i"
    "find (\<lambda>e. keq (dict_type d) k (fst e)) (concat (ht_table (get_ht d t))) =
     find (\<lambda>e. keq (dict_type d) k (fst e)) c"
    by (rule table_search [OF assms])
  show ?thesis
  proof (cases "chain_pos (dict_type d) k 0 c")
    case None
    then show ?thesis using c chain_pos_None [of "dict_type d" k 0 c] by (simp add: find_in_table_def)
  next
    case (Some p)
    then show ?thesis
      using c chain_pos_Some [OF Some] deref_bucket [of ?i d t p] by (simp add: find_in_table_def)
  qed
qed

lemma dict_map_empty: "entries d = [] \<Longrightarrow> dict_map d k = None"
  by (simp add: dict_map_def lookup_es_def)

lemma dictFind_correct:
  assumes "dict_inv d"
  shows "\<exists>r d'. dictFind d k = Some (r, d') \<and> dict_inv d' \<and> same_content d d' \<and> ref_ok d' k r"
proof (cases "dictSize d = 0")
  case True
  then show ?thesis
    using assms by (auto simp: dictFind_def ref_ok_def dictSize_entries intro: dict_map_empty)
next
  case False
  obtain d' where d': "(if dictIsRehashing d then i_dictRehashStep d else Some d) = Some d'"
    "dict_inv d'" "same_content d d'" by (rule opt_rehash_step [OF assms])
  have "mset (entries d') \<noteq> {#}"
    using False d'(3) dictSize_entries [OF assms] by (simp add: same_content_def)
  then have sz0: "0 < ht_size (get_ht d' 0)" using inv_size0 [OF d'(2)] by (simp add: get_ht_def)
  let ?P = "\<lambda>e. keq (dict_type d') k (fst e)"
  obtain r0 where r0: "find_in_table d' k 0 = Some r0"
    "case find ?P (concat (ht_table (ht0 d'))) of None \<Rightarrow> r0 = None
     | Some e \<Rightarrow> \<exists>p. r0 = Some p \<and> deref d' p = Some e \<and> ?P e"
    using find_in_table_correct [OF d'(2) sz0, of k] by (auto simp: get_ht_def)
  show ?thesis
  proof (cases "find ?P (concat (ht_table (ht0 d')))")
    case (Some e)
    then show ?thesis
      using r0 d' False by (auto simp: dictFind_def ref_ok_def dict_map_find)
  next
    case None
    show ?thesis
    proof (cases "dictIsRehashing d'")
      case re: False
      then show ?thesis
        using r0 d' False None inv_not_rehashing [OF d'(2) re]
        by (auto simp: dictFind_def ref_ok_def dict_map_find)
    next
      case re: True
      then have "0 < ht_size (get_ht d' 1)" using inv_rehashing_sizes [OF d'(2)] by (simp add: get_ht_def)
      then obtain r1 where r1: "find_in_table d' k 1 = Some r1"
        "case find ?P (concat (ht_table (ht1 d'))) of None \<Rightarrow> r1 = None
         | Some e \<Rightarrow> \<exists>p. r1 = Some p \<and> deref d' p = Some e \<and> ?P e"
        using find_in_table_correct [OF d'(2), of 1 k] by (auto simp: get_ht_def)
      then show ?thesis
        using r0 d' False None re
        by (auto simp: dictFind_def ref_ok_def dict_map_find split: option.splits)
    qed
  qed
qed

lemma dictFetchValue_correct:
  assumes "dict_inv d"
  shows "\<exists>d'. dictFetchValue d k = Some (Option.bind (dict_map d k) (\<lambda>v. v), d') \<and>
    dict_inv d' \<and> same_content d d'"
proof -
  obtain r d' where f: "dictFind d k = Some (r, d')" "dict_inv d'" "same_content d d'" "ref_ok d' k r"
    using dictFind_correct [OF assms] by blast
  have "dict_map d' = dict_map d" by (rule same_content_map [OF assms f(3)])
  then show ?thesis using f by (cases r) (auto simp: dictFetchValue_def ref_ok_def)
qed

section \<open>Resizing\<close>

lemma next_power_loop_pow2:
  "\<exists>m \<ge> k. next_power_loop (2 ^ k) s = 2 ^ m \<and> s \<le> 2 ^ m \<and> (m = k \<or> 2 ^ (m - 1) < s)"
proof (induction "s - 2 ^ k" arbitrary: k rule: less_induct)
  case less
  show ?case
  proof (cases "s \<le> 2 ^ k")
    case True
    then show ?thesis by (intro exI [of _ k]) (simp add: next_power_loop.simps)
  next
    case False
    have "s - 2 ^ Suc k < s - 2 ^ k"
      using False zero_less_power [of "2 :: nat" k] unfolding power_Suc by linarith
    then obtain m where m: "m \<ge> Suc k" "next_power_loop (2 ^ Suc k) s = 2 ^ m" "s \<le> 2 ^ m"
      "m = Suc k \<or> 2 ^ (m - 1) < s" using less by blast
    have "next_power_loop (2 ^ k) s = next_power_loop (2 ^ Suc k) s"
      using False by (subst next_power_loop.simps) (simp add: mult.commute)
    then show ?thesis using m False by (intro exI [of _ m]) auto
  qed
qed

lemma i_dictNextPower_pow2:
  obtains n where "n \<le> 63" "i_dictNextPower s = 2 ^ n" "s \<le> 2 ^ 63 \<Longrightarrow> s \<le> 2 ^ n" "2 \<le> n"
    "n = 2 \<or> 2 ^ (n - 1) < s"
proof (cases "s \<ge> LONG_MAX")
  case True
  then show ?thesis using that [of 63] by (simp add: i_dictNextPower_def)
next
  case False
  obtain m where m: "m \<ge> 2" "next_power_loop (2 ^ 2) s = 2 ^ m" "s \<le> 2 ^ m"
    "m = 2 \<or> 2 ^ (m - 1) < s" using next_power_loop_pow2 by blast
  have "m \<le> 63"
  proof (rule ccontr)
    assume "\<not> m \<le> 63"
    then have "(2::nat) ^ 63 \<le> 2 ^ (m - 1)" by (intro power_increasing) auto
    then show False using m False \<open>\<not> m \<le> 63\<close> by simp
  qed
  then show ?thesis using that [of m] m False by (simp add: i_dictNextPower_def)
qed

lemma ht_ok_new:
  assumes "n \<le> 63"
  shows "ht_ok ty \<lparr>ht_table = replicate (2 ^ n) [], ht_size = 2 ^ n, ht_sizemask = 2 ^ n - 1, ht_used = 0\<rparr>"
  using assms by (auto simp: ht_ok_def placed_def concat_replicate_trivial)

lemma i_dictExpand_correct:
  assumes "dict_inv d" "i_dictExpand d s alloc = (r, f, d')"
  shows "dict_inv d' \<and> same_content d d' \<and> (0 < ht_size (ht0 d) \<longrightarrow> 0 < ht_size (ht0 d')) \<and>
    (r = DICT_OK \<longrightarrow> 0 < ht_size (ht0 d'))"
proof (cases "r = DICT_OK")
  case False
  then show ?thesis using assms by (auto simp: i_dictExpand_def Let_def split: if_splits)
next
  case True
  obtain n where n: "n \<le> 63" "i_dictNextPower s = 2 ^ n" using i_dictNextPower_pow2 by metis
  let ?n = "\<lparr>ht_table = replicate (2 ^ n) [], ht_size = 2 ^ n, ht_sizemask = 2 ^ n - 1, ht_used = 0\<rparr>"
  note ok = ht_ok_new [OF n(1), of "dict_type d"]
  have nr: "rehashidx d = -1" using True assms(2) by (auto simp: i_dictExpand_def dictIsRehashing_def split: if_splits)
  have h1: "ht1 d = i_dictReset" using nr assms(1) by (simp add: dict_inv_def rehash_ok_def)
  show ?thesis
  proof (cases "ht_table (ht0 d) = []")
    case e: True
    then have d': "d' = d\<lparr>ht0 := ?n\<rparr>"
      using True assms(2) n(2) by (auto simp: i_dictExpand_def Let_def split: if_splits)
    then have "entries d' = entries d" using e by (simp add: entries_def concat_replicate_trivial)
    then show ?thesis
      using assms(1) ok nr h1 d' by (simp add: dict_inv_def same_content_def rehash_ok_def)
  next
    case ne: False
    then have d': "d' = d\<lparr>ht1 := ?n, rehashidx := 0\<rparr>"
      using True assms(2) n(2) by (auto simp: i_dictExpand_def Let_def split: if_splits)
    have sz: "0 < ht_size (ht0 d)" using ne assms(1) table_nonempty_size by (auto simp: dict_inv_def)
    have "entries d' = entries d"
      using d' h1 by (simp add: entries_def concat_replicate_trivial i_dictReset_def)
    then show ?thesis
      using assms(1) ok sz d' by (simp add: dict_inv_def same_content_def rehash_ok_def)
  qed
qed

lemma dictExpand_correct:
  assumes "dict_inv d" "dictExpand d s = (r, d')"
  shows "dict_inv d' \<and> same_content d d' \<and> (0 < ht_size (ht0 d) \<longrightarrow> 0 < ht_size (ht0 d')) \<and>
    (r = DICT_OK \<longrightarrow> 0 < ht_size (ht0 d'))"
  using assms i_dictExpand_correct [OF assms(1), of s None]
  by (auto simp: dictExpand_def split: prod.splits)

lemma dictTryExpand_correct:
  assumes "dict_inv d" "dictTryExpand d s ok = (r, d')"
  shows "dict_inv d' \<and> same_content d d'"
  using assms i_dictExpand_correct [OF assms(1), of s "Some ok"]
  by (auto simp: dictTryExpand_def split: prod.splits)

lemma dictResize_correct:
  assumes "dict_inv d" "dictResize g d = (r, d')"
  shows "dict_inv d' \<and> same_content d d'"
  using assms dictExpand_correct [OF assms(1)]
  by (auto simp: dictResize_def Let_def split: if_splits)

text \<open>
  There is room for another entry: with fewer than \<open>LONG_MAX - 1\<close> entries a table twice as large
  exists, so the expansion before an insertion cannot fail.
\<close>

definition dict_room :: "('k, 'v) dict \<Rightarrow> bool" where
  "dict_room d \<longleftrightarrow> length (entries d) + 1 < LONG_MAX"

lemma i_dictExpandIfNeeded_correct:
  assumes "dict_inv d" "dict_room d"
  shows "\<exists>d'. i_dictExpandIfNeeded g d = (DICT_OK, d') \<and> dict_inv d' \<and> same_content d d' \<and>
    0 < ht_size (ht0 d')"
proof -
  have ex: "\<exists>d'. dictExpand d s = (DICT_OK, d') \<and> dict_inv d' \<and> same_content d d' \<and> 0 < ht_size (ht0 d')"
    if "\<not> dictIsRehashing d" "ht_used (ht0 d) \<le> s" "i_dictNextPower s \<noteq> ht_size (ht0 d)" for s
  proof -
    have "fst (dictExpand d s) = DICT_OK"
      using that by (simp add: dictExpand_def i_dictExpand_def Let_def)
    then show ?thesis using dictExpand_correct [OF assms(1)] by (metis prod.collapse)
  qed
  have used: "ht_used (ht0 d) \<le> length (entries d)"
    using assms(1) by (simp add: dict_inv_def ht_ok_def entries_def)
  consider (re) "dictIsRehashing d"
    | (init) "\<not> dictIsRehashing d" "ht_size (ht0 d) = 0"
    | (grow) "\<not> dictIsRehashing d" "ht_size (ht0 d) \<noteq> 0" "ht_used (ht0 d) \<ge> ht_size (ht0 d)"
        "dict_can_resize g \<or> ht_used (ht0 d) div ht_size (ht0 d) > dict_force_resize_ratio"
        "dictTypeExpandAllowed d"
    | (keep) "\<not> dictIsRehashing d" "ht_size (ht0 d) \<noteq> 0"
        "i_dictExpandIfNeeded g d = (DICT_OK, d)"
    unfolding i_dictExpandIfNeeded_def by metis
  then show ?thesis
  proof cases
    case re
    then show ?thesis
      using assms inv_rehashing_sizes by (auto simp: i_dictExpandIfNeeded_def)
  next
    case init
    have "ht_used (ht0 d) = 0" using init assms(1) by (simp add: dict_inv_def ht_ok_def)
    moreover have "i_dictNextPower 4 \<noteq> 0" using i_dictNextPower_pow2 [of 4] by (metis power_not_zero zero_neq_numeral)
    ultimately show ?thesis using ex [of 4] init by (simp add: i_dictExpandIfNeeded_def)
  next
    case grow
    have le: "ht_used (ht0 d) + 1 \<le> 2 ^ 63" using used assms(2) by (simp add: dict_room_def)
    obtain n where "i_dictNextPower (ht_used (ht0 d) + 1) = 2 ^ n" "ht_used (ht0 d) + 1 \<le> 2 ^ n"
      using i_dictNextPower_pow2 [of "ht_used (ht0 d) + 1"] le by metis
    then have "i_dictNextPower (ht_used (ht0 d) + 1) \<noteq> ht_size (ht0 d)" using grow(3) by simp
    then show ?thesis using ex [of "ht_used (ht0 d) + 1"] grow by (simp add: i_dictExpandIfNeeded_def)
  next
    case keep
    then show ?thesis using assms by auto
  qed
qed

end
