(* ===== verification/Dict_Update.thy ===== *)
theory Dict_Update
  imports Dict_Correct
begin

text \<open>
  The operations of \<^verbatim>\<open>dict.c\<close> that change the mapping: adding, replacing and deleting an
  entry, clearing the table. Each returns (no out-of-bounds access, no failed assertion), keeps
  \<^const>\<open>dict_inv\<close> and changes \<^const>\<open>dict_map\<close> at the keys equal to its argument only.
\<close>

section \<open>Replacing one bucket\<close>

lemma get_set_ht [simp]: "get_ht (set_ht d t h) t = h"
  by (simp add: get_ht_def set_ht_def)

lemma set_ht_type [simp]: "dict_type (set_ht d t h) = dict_type d"
  by (simp add: set_ht_def)

lemma set_ht_fields [simp]:
  "rehashidx (set_ht d t h) = rehashidx d" "pauserehash (set_ht d t h) = pauserehash d"
  by (simp_all add: set_ht_def)

lemma inv_get_ht: "dict_inv d \<Longrightarrow> ht_ok (dict_type d) (get_ht d t)"
  by (simp add: dict_inv_def get_ht_def)

lemma entries_set_bucket:
  assumes "i < length (ht_table (get_ht d t))"
  shows "mset (entries (set_ht d t ((get_ht d t)\<lparr>ht_table := (ht_table (get_ht d t))[i := c], ht_used := u\<rparr>)))
      + mset (ht_table (get_ht d t) ! i) = mset c + mset (entries d)"
  using assms mset_concat_update [of i "ht_table (get_ht d t)" c]
  by (simp add: entries_def set_ht_def get_ht_def split: if_splits)

lemma dict_inv_set_bucket:
  assumes inv: "dict_inv d" and i: "i < length (ht_table (get_ht d t))"
    and c: "\<forall>e \<in> set c. hidx (hashFunction (dict_type d) (fst e)) (ht_sizemask (get_ht d t)) = i"
    and u: "u + length (ht_table (get_ht d t) ! i) = ht_used (get_ht d t) + length c"
    and e: "t = 0 \<Longrightarrow> dictIsRehashing d \<Longrightarrow> ht_table (ht0 d) ! i = [] \<Longrightarrow> c = []"
    and d': "d' = set_ht d t ((get_ht d t)\<lparr>ht_table := (ht_table (get_ht d t))[i := c], ht_used := u\<rparr>)"
    and uq: "uniq (dict_type d) (entries d')"
  shows "dict_inv d'"
proof -
  let ?h = "(get_ht d t)\<lparr>ht_table := (ht_table (get_ht d t))[i := c], ht_used := u\<rparr>"
  have ok: "ht_ok (dict_type d) ?h" by (rule ht_ok_upd [OF inv_get_ht [OF inv] i c u])
  show ?thesis
  proof (cases "t = 0")
    case True
    then have "rehash_ok d'"
      using inv e i d'
      by (auto simp: dict_inv_def rehash_ok_def dictIsRehashing_def set_ht_def get_ht_def nth_list_update)
    then show ?thesis using inv ok True uq d' by (simp add: dict_inv_def set_ht_def get_ht_def)
  next
    case False
    then have "ht_table (ht1 d) \<noteq> []" using i by (auto simp: get_ht_def)
    then have "dictIsRehashing d" using inv_not_rehashing inv by blast
    then have "rehash_ok d'"
      using inv False d' by (simp add: dict_inv_def rehash_ok_def dictIsRehashing_def set_ht_def get_ht_def)
    then show ?thesis using inv ok False uq d' by (simp add: dict_inv_def set_ht_def get_ht_def)
  qed
qed

section \<open>Setting a value\<close>

text \<open>How the mapping changes when the entries change.\<close>

lemma lookup_es_insert:
  assumes "uniq ty es'" "mset es' = add_mset e (mset es)"
  shows "lookup_es ty es' k = (if keq ty k (fst e) then Some (snd e) else lookup_es ty es k)"
  using lookup_es_mset [OF assms(1), of "e # es" k] assms(2) by (simp add: lookup_es_Cons)

lemma lookup_es_delete:
  assumes "dtype_ok ty" "uniq ty es" "mset es = add_mset e (mset es')"
  shows "lookup_es ty es' k = (if keq ty k (fst e) then None else lookup_es ty es k)"
proof -
  have "uniq ty (e # es')" using assms(2,3) uniq_mset [of es "e # es'" ty] by simp
  then have n: "\<forall>x \<in> set es'. \<not> keq ty (fst e) (fst x)" using uniq_Cons [OF assms(1)] by blast
  have "lookup_es ty es' k = None" if "keq ty k (fst e)"
    unfolding lookup_es_None using n that keq_sym [OF assms(1)] keq_trans [OF assms(1)] by blast
  then show ?thesis using lookup_es_insert [OF assms(2,3)] by simp
qed

lemma swap_value:
  assumes "e \<in> set es" "mset es' + {#e#} = add_mset x (mset es)"
  shows "\<exists>es0. mset es = mset (e # es0) \<and> mset es' = mset (x # es0)"
proof -
  define es0 where "es0 = remove1 e es"
  have m: "mset es = add_mset e (mset es0)" using assms(1) by (simp add: es0_def)
  then have "add_mset e (mset es') = add_mset e (add_mset x (mset es0))"
    using assms(2) by (simp add: add_mset_commute [of x e])
  then show ?thesis using m by (intro exI [of _ es0]) simp
qed

lemma mset_swap:
  assumes "A + B = C + D" "C + {#e#} = add_mset x B"
  shows "A + {#e#} = add_mset x D"
proof -
  have "(A + {#e#}) + B = (C + {#e#}) + D" using assms(1) by (simp add: ac_simps)
  then have "(A + {#e#}) + B = add_mset x D + B" using assms(2) by (simp add: ac_simps)
  then show ?thesis by (rule add_right_imp_eq)
qed

lemma uniq_swap_value:
  assumes "dtype_ok ty" "uniq ty es" "mset es' + {#e#} = add_mset (fst e, v) (mset es)"
  shows "uniq ty es'"
proof (cases "e = (fst e, v)")
  case True
  then have "mset es' = mset es" using assms(3) by (metis add_mset_add_single add_mset_add_mset_same_iff)
  then show ?thesis using uniq_mset assms(2) by blast
next
  case False
  then have "e \<in># mset es" using assms(3) by (metis insert_noteq_member add_mset_add_single)
  then obtain es0 where m: "mset es = mset (e # es0)" "mset es' = mset ((fst e, v) # es0)"
    using swap_value [OF _ assms(3)] by auto
  have "uniq ty (e # es0)" using uniq_mset [OF m(1)] assms(2) by blast
  then have "uniq ty ((fst e, v) # es0)" unfolding uniq_Cons [OF assms(1)] by simp
  then show ?thesis using uniq_mset [OF m(2)] by blast
qed

lemma lookup_es_swap_value:
  assumes "dtype_ok ty" "uniq ty es" "e \<in> set es" "mset es' + {#e#} = add_mset (fst e, v) (mset es)"
  shows "lookup_es ty es' k = (if keq ty k (fst e) then Some v else lookup_es ty es k)"
proof -
  obtain es0 where m: "mset es = mset (e # es0)" "mset es' = mset ((fst e, v) # es0)"
    using swap_value [OF assms(3,4)] by blast
  have "lookup_es ty es' k = lookup_es ty ((fst e, v) # es0) k"
    by (rule lookup_es_mset [OF uniq_swap_value [OF assms(1,2,4)] m(2)])
  moreover have "lookup_es ty es k = lookup_es ty (e # es0) k"
    by (rule lookup_es_mset [OF assms(2) m(1)])
  ultimately show ?thesis by (simp add: lookup_es_Cons)
qed

lemma dictSetVal_correct:
  assumes inv: "dict_inv d" and r: "deref d r = Some e"
  shows "\<exists>d'. dictSetVal d r v = Some d' \<and> dict_inv d' \<and> dict_type d' = dict_type d \<and>
    pauserehash d' = pauserehash d \<and> mset (entries d') + {#e#} = add_mset (fst e, Some v) (mset (entries d)) \<and>
    e \<in> set (entries d)"
proof -
  obtain t i p where rp: "r = (t, i, p)" by (cases r)
  let ?h = "get_ht d t"
  let ?T = "ht_table ?h"
  have i: "i < length ?T" and p: "p < length (?T ! i)" and e: "e = ?T ! i ! p"
    using r rp by (auto simp: deref_def bucket_def Option.bind_eq_Some_conv split: if_splits)
  let ?c = "(?T ! i)[p := (fst e, Some v)]"
  let ?d = "set_ht d t (?h\<lparr>ht_table := ?T[i := ?c], ht_used := ht_used ?h\<rparr>)"
  have mem: "e \<in> set (?T ! i)" using p e by simp
  have hd: "\<forall>x \<in> set ?c. hidx (hashFunction (dict_type d) (fst x)) (ht_sizemask ?h) = i"
    using ht_ok_bucket_placed [OF inv_get_ht [OF inv] i] mem by (metis fst_conv set_update_subsetI subsetI insertE subset_iff set_update_subset_insert)
  have "mset ?c + {#e#} = add_mset (fst e, Some v) (mset (?T ! i))"
    using p e mem by (simp add: mset_update)
  then have m: "mset (entries ?d) + {#e#} = add_mset (fst e, Some v) (mset (entries d))"
    by (rule mset_swap [OF entries_set_bucket [OF i]])
  have "uniq (dict_type d) (entries ?d)"
    by (rule uniq_swap_value [OF _ _ m]) (use inv in \<open>simp_all add: dict_inv_def\<close>)
  then have "dict_inv ?d"
    using p by (intro dict_inv_set_bucket [OF inv i hd]) (auto simp: get_ht_def)
  moreover have "e \<in> set (entries d)"
    using mem i nth_mem [OF i] by (auto simp: entries_def get_ht_def split: if_splits)
  ultimately show ?thesis
    using m i p e rp by (simp add: dictSetVal_def bucket_def set_bucket_def)
qed

section \<open>Adding\<close>

definition table_of :: "('k, 'v) dict \<Rightarrow> nat" where
  "table_of d = (if dictIsRehashing d then 1 else 0)"

lemma i_dictKeyIndex_correct:
  assumes "dict_inv d" "dict_room d"
  shows "\<exists>idx ex d'. i_dictKeyIndex g d key (dictHashKey d key) = Some (idx, ex, d') \<and>
    dict_inv d' \<and> same_content d d' \<and>
    (case idx of
       None \<Rightarrow> ex \<noteq> None \<and> ref_ok d' key ex
     | Some i \<Rightarrow> ex = None \<and> ref_ok d' key None \<and> 0 < ht_size (get_ht d' (table_of d')) \<and>
         i = hidx (dictHashKey d' key) (ht_sizemask (get_ht d' (table_of d'))))"
proof -
  obtain d' where d': "i_dictExpandIfNeeded g d = (DICT_OK, d')" "dict_inv d'" "same_content d d'"
    "0 < ht_size (ht0 d')" using i_dictExpandIfNeeded_correct [OF assms] by blast
  have h: "dictHashKey d key = dictHashKey d' key"
    using d'(3) by (simp add: same_content_def dictHashKey_def)
  let ?P = "\<lambda>e. keq (dict_type d') key (fst e)"
  let ?i = "\<lambda>t. hidx (dictHashKey d' key) (ht_sizemask (get_ht d' t))"
  have sz0: "0 < ht_size (get_ht d' 0)" using d'(4) by (simp add: get_ht_def)
  obtain c0 where c0: "bucket (get_ht d' 0) (?i 0) = Some c0" "?i 0 < length (ht_table (get_ht d' 0))"
    "c0 = ht_table (get_ht d' 0) ! ?i 0" "find ?P (concat (ht_table (get_ht d' 0))) = find ?P c0"
    by (rule table_search [OF d'(2) sz0])
  show ?thesis
  proof (cases "chain_pos (dict_type d') key 0 c0")
    case (Some p)
    then show ?thesis
      using c0 d' h chain_pos_Some [OF Some] deref_bucket [of "?i 0" d' 0 p]
      by (simp add: i_dictKeyIndex_def get_ht_def ref_ok_def dict_map_find)
  next
    case None
    then have n0: "find ?P (concat (ht_table (ht0 d'))) = None"
      using c0(4) chain_pos_None [of "dict_type d'" key 0 c0] by (simp add: get_ht_def)
    show ?thesis
    proof (cases "dictIsRehashing d'")
      case re: False
      then show ?thesis
        using c0 d' h None n0 inv_not_rehashing [OF d'(2) re]
        by (simp add: i_dictKeyIndex_def get_ht_def ref_ok_def dict_map_find table_of_def)
    next
      case re: True
      have sz1: "0 < ht_size (get_ht d' 1)" using inv_rehashing_sizes [OF d'(2) re] by (simp add: get_ht_def)
      obtain c1 where c1: "bucket (get_ht d' 1) (?i 1) = Some c1" "?i 1 < length (ht_table (get_ht d' 1))"
        "c1 = ht_table (get_ht d' 1) ! ?i 1" "find ?P (concat (ht_table (get_ht d' 1))) = find ?P c1"
        by (rule table_search [OF d'(2) sz1])
      show ?thesis
      proof (cases "chain_pos (dict_type d') key 0 c1")
        case (Some p)
        then show ?thesis
          using c0 c1 d' h None n0 re chain_pos_Some [OF Some] deref_bucket [of "?i 1" d' 1 p]
          by (simp add: i_dictKeyIndex_def get_ht_def ref_ok_def dict_map_find)
      next
        case n1: None
        then show ?thesis
          using c0 c1 d' h None n0 re sz1 chain_pos_None [of "dict_type d'" key 0 c1]
          by (simp add: i_dictKeyIndex_def get_ht_def ref_ok_def dict_map_find table_of_def)
      qed
    qed
  qed
qed

lemma dict_room_same: "same_content d d' \<Longrightarrow> dict_room d' = dict_room d"
  unfolding dict_room_def same_content_def by (metis size_mset)

text \<open>
  \<^verbatim>\<open>dictAddRaw\<close> either reports the existing entry, or links a new one with no value yet; the
  pointer it returns is to that entry.
\<close>

lemma dictAddRaw_correct:
  assumes "dict_inv d" "dict_room d"
  shows "\<exists>r ex d'. dictAddRaw g d key = Some (r, ex, d') \<and> dict_inv d' \<and>
    dict_type d' = dict_type d \<and> pauserehash d' = pauserehash d \<and>
    (case r of
       None \<Rightarrow> ex \<noteq> None \<and> ref_ok d' key ex \<and> mset (entries d') = mset (entries d)
     | Some e \<Rightarrow> ex = None \<and> dict_map d key = None \<and> deref d' e = Some (key, None) \<and>
         mset (entries d') = add_mset (key, None) (mset (entries d)))"
proof -
  obtain d1 where d1: "(if dictIsRehashing d then i_dictRehashStep d else Some d) = Some d1"
    "dict_inv d1" "same_content d d1" by (rule opt_rehash_step [OF assms(1)])
  have room: "dict_room d1" using dict_room_same [OF d1(3)] assms(2) by simp
  obtain idx ex d2 where k: "i_dictKeyIndex g d1 key (dictHashKey d1 key) = Some (idx, ex, d2)"
    "dict_inv d2" "same_content d1 d2" and
    kc: "case idx of
       None \<Rightarrow> ex \<noteq> None \<and> ref_ok d2 key ex
     | Some i \<Rightarrow> ex = None \<and> ref_ok d2 key None \<and> 0 < ht_size (get_ht d2 (table_of d2)) \<and>
         i = hidx (dictHashKey d2 key) (ht_sizemask (get_ht d2 (table_of d2)))"
    using i_dictKeyIndex_correct [OF d1(2) room, of g key] by blast
  have sc: "same_content d d2" by (rule same_content_trans [OF d1(3) k(3)])
  show ?thesis
  proof (cases idx)
    case None
    then show ?thesis using d1(1) k kc sc by (simp add: dictAddRaw_def same_content_def)
  next
    case (Some i)
    let ?t = "table_of d2"
    let ?h = "get_ht d2 ?t"
    let ?c = "(key, None) # ht_table ?h ! i"
    let ?d = "set_ht d2 ?t (?h\<lparr>ht_table := (ht_table ?h)[i := ?c], ht_used := ht_used ?h + 1\<rparr>)"
    have i: "i < length (ht_table ?h)"
      using kc Some ht_ok_hidx_less [OF inv_get_ht [OF k(2)]] by simp
    have m: "mset (entries ?d) = add_mset (key, None) (mset (entries d2))"
      using entries_set_bucket [OF i, where c = ?c and u = "ht_used ?h + 1"] by simp
    have new: "dict_map d2 key = None" using kc Some by (simp add: ref_ok_def)
    have uq2: "uniq (dict_type d2) (entries d2)" and ty2: "dtype_ok (dict_type d2)"
      using k(2) by (simp_all add: dict_inv_def)
    have "uniq (dict_type d2) ((key, None) # entries d2)"
      unfolding uniq_Cons [OF ty2] using uq2 new by (simp add: dict_map_def lookup_es_None)
    then have uq: "uniq (dict_type d2) (entries ?d)" using uniq_mset m by (metis mset.simps(2))
    have hd: "\<forall>x \<in> set ?c. hidx (hashFunction (dict_type d2) (fst x)) (ht_sizemask ?h) = i"
      using ht_ok_bucket_placed [OF inv_get_ht [OF k(2)] i] kc Some by (auto simp: dictHashKey_def)
    have "dict_inv ?d"
      by (rule dict_inv_set_bucket [OF k(2) i hd _ _ refl uq]) (simp_all add: table_of_def split: if_splits)
    moreover have "deref ?d (?t, i, 0) = Some (key, None)" using i by (simp add: deref_def bucket_def)
    moreover have "dict_map d key = None" using new same_content_map [OF assms(1) sc] by simp
    moreover have "dictAddRaw g d key = Some (Some (?t, i, 0), None, ?d)"
      using d1(1) k(1) kc Some i unfolding dictAddRaw_def table_of_def [symmetric]
      by (simp add: bucket_def set_bucket_def Let_def)
    ultimately show ?thesis using m sc by (simp add: same_content_def)
  qed
qed

text \<open>\<open>upd_eq ty m k v\<close> sets \<open>m\<close> at every key equal to \<open>k\<close> under the type's comparison.\<close>

definition upd_eq :: "'k dictType \<Rightarrow> ('k \<Rightarrow> 'w option) \<Rightarrow> 'k \<Rightarrow> 'w option \<Rightarrow> 'k \<Rightarrow> 'w option" where
  "upd_eq ty m k v = (\<lambda>x. if keq ty x k then v else m x)"

lemma dict_inv_parts:
  assumes "dict_inv d"
  shows inv_dtype: "dtype_ok (dict_type d)" and inv_uniq: "uniq (dict_type d) (entries d)"
  using assms by (simp_all add: dict_inv_def)

lemma keq_cong: "dtype_ok ty \<Longrightarrow> keq ty a b \<Longrightarrow> keq ty x a = keq ty x b"
  by (metis keq_sym keq_trans)

lemma dictSetVal_map:
  assumes "dict_inv d" "deref d r = Some e" "keq (dict_type d) key (fst e)"
  shows "\<exists>d'. dictSetVal d r v = Some d' \<and> dict_inv d' \<and> dict_type d' = dict_type d \<and>
    pauserehash d' = pauserehash d \<and> length (entries d') = length (entries d) \<and>
    dict_map d' = upd_eq (dict_type d) (dict_map d) key (Some (Some v))"
proof -
  obtain d' where d': "dictSetVal d r v = Some d'" "dict_inv d'" "dict_type d' = dict_type d"
    "pauserehash d' = pauserehash d"
    "mset (entries d') + {#e#} = add_mset (fst e, Some v) (mset (entries d))" "e \<in> set (entries d)"
    using dictSetVal_correct [OF assms(1,2)] by blast
  have "lookup_es (dict_type d) (entries d') x =
      (if keq (dict_type d) x (fst e) then Some (Some v) else lookup_es (dict_type d) (entries d) x)" for x
    by (rule lookup_es_swap_value [OF inv_dtype [OF assms(1)] inv_uniq [OF assms(1)] d'(6,5)])
  then have "dict_map d' = upd_eq (dict_type d) (dict_map d) key (Some (Some v))"
    using d'(3) keq_cong [OF inv_dtype [OF assms(1)] assms(3)]
    by (simp add: dict_map_def upd_eq_def fun_eq_iff)
  moreover have "length (entries d') = length (entries d)"
    using arg_cong [OF d'(5), of size] by simp
  ultimately show ?thesis using d' by blast
qed

lemma dictAddRaw_cases [consumes 2, case_names found added]:
  assumes "dict_inv d" "dict_room d"
  obtains
    (found) p e d' where "dictAddRaw g d key = Some (None, Some p, d')" "dict_inv d'" "same_content d d'"
      "deref d' p = Some e" "keq (dict_type d) key (fst e)" "dict_map d key = Some (snd e)"
  | (added) r d' where "dictAddRaw g d key = Some (Some r, None, d')" "dict_inv d'"
      "dict_type d' = dict_type d" "pauserehash d' = pauserehash d" "dict_map d key = None"
      "deref d' r = Some (key, None)" "length (entries d') = length (entries d) + 1"
      "dict_map d' = upd_eq (dict_type d) (dict_map d) key (Some None)"
proof -
  obtain r ex d1 where a: "dictAddRaw g d key = Some (r, ex, d1)" "dict_inv d1"
    "dict_type d1 = dict_type d" "pauserehash d1 = pauserehash d" and
    c: "case r of
       None \<Rightarrow> ex \<noteq> None \<and> ref_ok d1 key ex \<and> mset (entries d1) = mset (entries d)
     | Some e \<Rightarrow> ex = None \<and> dict_map d key = None \<and> deref d1 e = Some (key, None) \<and>
         mset (entries d1) = add_mset (key, None) (mset (entries d))"
    using dictAddRaw_correct [OF assms] by blast
  show ?thesis
  proof (cases r)
    case None
    then have sc: "same_content d d1" using c a by (simp add: same_content_def)
    then show ?thesis
      using that(1) a None c same_content_map [OF assms(1) sc] by (auto simp: ref_ok_def)
  next
    case (Some e)
    then have m: "mset (entries d1) = add_mset (key, None) (mset (entries d))" using c by simp
    have "dict_map d1 = upd_eq (dict_type d) (dict_map d) key (Some None)"
      using lookup_es_insert [OF inv_uniq [OF a(2)] m] a(3)
      by (simp add: dict_map_def upd_eq_def fun_eq_iff)
    moreover have "length (entries d1) = length (entries d) + 1"
      using arg_cong [OF m, of size] by simp
    ultimately show ?thesis using that(2) a c Some by simp
  qed
qed

lemma upd_eq_upd_eq [simp]: "upd_eq ty (upd_eq ty m k v) k w = upd_eq ty m k w"
  by (simp add: upd_eq_def fun_eq_iff)

lemma same_content_size:
  "dict_inv d \<Longrightarrow> dict_inv d' \<Longrightarrow> same_content d d' \<Longrightarrow> dictSize d' = dictSize d"
  using mset_eq_length [of "entries d'" "entries d"] by (simp add: dictSize_entries same_content_def)

lemma dictAdd_correct:
  assumes "dict_inv d" "dict_room d"
  shows "\<exists>r d'. dictAdd g d key v = Some (r, d') \<and> dict_inv d' \<and> dict_type d' = dict_type d \<and>
    pauserehash d' = pauserehash d \<and>
    (if dict_map d key = None
     then r = DICT_OK \<and> dictSize d' = dictSize d + 1 \<and>
       dict_map d' = upd_eq (dict_type d) (dict_map d) key (Some (Some v))
     else r = DICT_ERR \<and> dictSize d' = dictSize d \<and> dict_map d' = dict_map d)"
  using assms
proof (cases rule: dictAddRaw_cases [where g = g and key = key])
  case (found p e d1)
  then show ?thesis
    using same_content_map [OF assms(1) found(3)] same_content_size [OF assms(1) found(2,3)]
    by (simp add: dictAdd_def same_content_def)
next
  case (added r d1)
  obtain d' where d': "dictSetVal d1 r v = Some d'" "dict_inv d'" "dict_type d' = dict_type d1"
    "pauserehash d' = pauserehash d1" "length (entries d') = length (entries d1)"
    "dict_map d' = upd_eq (dict_type d1) (dict_map d1) key (Some (Some v))"
    using dictSetVal_map [OF added(2,6), of key v] by auto
  then show ?thesis
    using added dictSize_entries [OF assms(1)] dictSize_entries [OF d'(2)] by (simp add: dictAdd_def)
qed

lemma dictReplace_correct:
  assumes "dict_inv d" "dict_room d"
  shows "\<exists>r d'. dictReplace g d key v = Some (r, d') \<and> dict_inv d' \<and> dict_type d' = dict_type d \<and>
    pauserehash d' = pauserehash d \<and> r = (dict_map d key = None) \<and>
    dict_map d' = upd_eq (dict_type d) (dict_map d) key (Some (Some v)) \<and>
    dictSize d' = dictSize d + (if r then 1 else 0)"
  using assms
proof (cases rule: dictAddRaw_cases [where g = g and key = key])
  case (found p e d1)
  have k: "keq (dict_type d1) key (fst e)" using found by (simp add: same_content_def)
  obtain d' where d': "dictSetVal d1 p v = Some d'" "dict_inv d'" "dict_type d' = dict_type d1"
    "pauserehash d' = pauserehash d1" "length (entries d') = length (entries d1)"
    "dict_map d' = upd_eq (dict_type d1) (dict_map d1) key (Some (Some v))"
    using dictSetVal_map [OF found(2,4) k, of v] by auto
  have "dictSize d' = dictSize d"
    using d'(5) same_content_size [OF assms(1) found(2,3)]
    by (simp add: dictSize_entries [OF d'(2)] dictSize_entries [OF found(2)])
  then show ?thesis
    using found d' same_content_map [OF assms(1) found(3)] by (auto simp: dictReplace_def same_content_def)
next
  case (added r d1)
  obtain d' where d': "dictSetVal d1 r v = Some d'" "dict_inv d'" "dict_type d' = dict_type d1"
    "pauserehash d' = pauserehash d1" "length (entries d') = length (entries d1)"
    "dict_map d' = upd_eq (dict_type d1) (dict_map d1) key (Some (Some v))"
    using dictSetVal_map [OF added(2,6), of key v] by auto
  then show ?thesis
    using added dictSize_entries [OF assms(1)] dictSize_entries [OF d'(2)] by (auto simp: dictReplace_def)
qed

lemma dictAddOrFind_correct:
  assumes "dict_inv d" "dict_room d"
  shows "\<exists>r e d'. dictAddOrFind g d key = Some (Some r, d') \<and> dict_inv d' \<and> dict_type d' = dict_type d \<and>
    deref d' r = Some e \<and> keq (dict_type d) key (fst e) \<and>
    dict_map d' = (if dict_map d key = None then upd_eq (dict_type d) (dict_map d) key (Some None) else dict_map d)"
  using assms
proof (cases rule: dictAddRaw_cases [where g = g and key = key])
  case (found p e d1)
  then show ?thesis
    using same_content_map [OF assms(1) found(3)]
    by (cases e) (simp add: dictAddOrFind_def same_content_def)
next
  case (added r d1)
  then show ?thesis by (simp add: dictAddOrFind_def)
qed

section \<open>Deleting\<close>

lemma chain_unlink_None: "chain_unlink ty k c = None \<longleftrightarrow> find (\<lambda>e. keq ty k (fst e)) c = None"
  by (induction c) (auto simp: key_match_keq)

lemma chain_unlink_Some:
  "chain_unlink ty k c = Some (e, c') \<Longrightarrow>
   find (\<lambda>e. keq ty k (fst e)) c = Some e \<and> keq ty k (fst e) \<and> mset c = add_mset e (mset c')"
proof (induction c arbitrary: c')
  case Nil
  then show ?case by simp
next
  case (Cons a c)
  then show ?case by (cases "keq ty k (fst a)") (auto simp: key_match_keq)
qed

text \<open>Deleting from the table \<open>t\<close> the entry a search of that table finds.\<close>

lemma delete_in_table_correct:
  assumes inv: "dict_inv d" and sz: "0 < ht_size (get_ht d t)"
  shows "\<exists>r d'. delete_in_table d k t = Some (r, d') \<and>
    r = find (\<lambda>e. keq (dict_type d) k (fst e)) (concat (ht_table (get_ht d t))) \<and>
    (case r of
       None \<Rightarrow> d' = d
     | Some e \<Rightarrow> dict_inv d' \<and> dict_type d' = dict_type d \<and> pauserehash d' = pauserehash d \<and>
         keq (dict_type d) k (fst e) \<and> mset (entries d) = add_mset e (mset (entries d')))"
proof -
  let ?h = "get_ht d t"
  let ?T = "ht_table ?h"
  let ?i = "hidx (dictHashKey d k) (ht_sizemask ?h)"
  obtain c where c: "bucket ?h ?i = Some c" "?i < length ?T" "c = ?T ! ?i"
    "find (\<lambda>e. keq (dict_type d) k (fst e)) (concat ?T) = find (\<lambda>e. keq (dict_type d) k (fst e)) c"
    by (rule table_search [OF inv sz])
  show ?thesis
  proof (cases "chain_unlink (dict_type d) k c")
    case None
    then show ?thesis
      using c chain_unlink_None [of "dict_type d" k c] by (simp add: delete_in_table_def)
  next
    case (Some r)
    obtain e c' where r: "r = (e, c')" by (cases r)
    have u: "find (\<lambda>e. keq (dict_type d) k (fst e)) c = Some e" "keq (dict_type d) k (fst e)"
      "mset c = add_mset e (mset c')" using chain_unlink_Some [of "dict_type d" k c e c'] Some r by auto
    let ?d = "set_ht d t (?h\<lparr>ht_table := ?T[?i := c'], ht_used := ht_used ?h - 1\<rparr>)"
    have "mset (entries ?d) + mset c = mset c' + mset (entries d)"
      using entries_set_bucket [OF c(2), where c = c' and u = "ht_used ?h - 1"] c(3) by simp
    then have m: "mset (entries d) = add_mset e (mset (entries ?d))" using u(3) by simp
    have len: "length c = Suc (length c')" using arg_cong [OF u(3), of size] by simp
    have "length c \<le> ht_used ?h"
      using length_bucket_le [OF c(2)] c(3) inv_get_ht [OF inv, of t] by (simp add: ht_ok_def)
    then have used: "ht_used ?h - 1 + length (?T ! ?i) = ht_used ?h + length c'" using len c(3) by simp
    have hd: "\<forall>x \<in> set c'. hidx (hashFunction (dict_type d) (fst x)) (ht_sizemask ?h) = ?i"
      using ht_ok_bucket_placed [OF inv_get_ht [OF inv] c(2)] u(3) c(3)
      by (metis insert_iff set_mset_add_mset_insert set_mset_mset)
    have "uniq (dict_type d) (e # entries ?d)" using inv_uniq [OF inv] m uniq_mset [of "entries d" "e # entries ?d"] by simp
    then have uq: "uniq (dict_type d) (entries ?d)" using uniq_Cons [OF inv_dtype [OF inv]] by blast
    have emp: "ht_table (ht0 d) ! ?i = [] \<Longrightarrow> t = 0 \<Longrightarrow> c' = []" using len c(3) by (auto simp: get_ht_def)
    have "dict_inv ?d"
      by (rule dict_inv_set_bucket [OF inv c(2) hd used _ refl uq]) (use emp in simp)
    then show ?thesis using c Some r u m by (simp add: delete_in_table_def set_bucket_def)
  qed
qed

lemma dictGenericDelete_correct:
  assumes inv: "dict_inv d"
  shows "\<exists>r d'. dictGenericDelete d k = Some (r, d') \<and> dict_inv d' \<and> dict_type d' = dict_type d \<and>
    pauserehash d' = pauserehash d \<and> map_option snd r = dict_map d k \<and>
    (\<forall>e. r = Some e \<longrightarrow> keq (dict_type d) k (fst e)) \<and>
    mset (entries d) = (case r of None \<Rightarrow> {#} | Some e \<Rightarrow> {#e#}) + mset (entries d')"
proof (cases "entries d = []")
  case True
  then have "ht_used (ht0 d) = 0 \<and> ht_used (ht1 d) = 0"
    using inv by (simp add: dict_inv_def ht_ok_def entries_def)
  then show ?thesis using True inv dict_map_empty [OF True] by (simp add: dictGenericDelete_def)
next
  case False
  then have u: "\<not> (ht_used (ht0 d) = 0 \<and> ht_used (ht1 d) = 0)"
    using inv by (auto simp: dict_inv_def ht_ok_def entries_def)
  obtain d1 where d1: "(if dictIsRehashing d then i_dictRehashStep d else Some d) = Some d1"
    "dict_inv d1" "same_content d d1" by (rule opt_rehash_step [OF inv])
  have g: "dictGenericDelete d k = do {
        (he, d) \<leftarrow> delete_in_table d1 k 0;
        case he of
          Some e \<Rightarrow> Some (Some e, d)
        | None \<Rightarrow> if \<not> dictIsRehashing d then Some (None, d) else delete_in_table d k 1
      }" unfolding dictGenericDelete_def if_not_P [OF u] d1(1) by simp
  have map: "dict_map d1 = dict_map d" by (rule same_content_map [OF inv d1(3)])
  have "mset (entries d1) \<noteq> {#}" using False d1(3) by (simp add: same_content_def)
  then have sz0: "0 < ht_size (get_ht d1 0)" using inv_size0 [OF d1(2)] by (simp add: get_ht_def)
  obtain r0 d2 where r0: "delete_in_table d1 k 0 = Some (r0, d2)"
    "r0 = find (\<lambda>e. keq (dict_type d1) k (fst e)) (concat (ht_table (ht0 d1)))"
    "case r0 of None \<Rightarrow> d2 = d1
     | Some e \<Rightarrow> dict_inv d2 \<and> dict_type d2 = dict_type d1 \<and> pauserehash d2 = pauserehash d1 \<and>
         keq (dict_type d1) k (fst e) \<and> mset (entries d1) = add_mset e (mset (entries d2))"
    using delete_in_table_correct [OF d1(2) sz0, of k] by (auto simp: get_ht_def)
  show ?thesis
  proof (cases r0)
    case (Some e)
    then show ?thesis
      using g r0 d1 map dict_map_find [of d1 k] by (cases e) (simp add: same_content_def)
  next
    case None
    show ?thesis
    proof (cases "dictIsRehashing d1")
      case re: False
      then show ?thesis
        using g r0 None d1 map dict_map_find [of d1 k] inv_not_rehashing [OF d1(2) re]
        by (simp add: same_content_def)
    next
      case re: True
      have sz1: "0 < ht_size (get_ht d1 1)" using inv_rehashing_sizes [OF d1(2) re] by (simp add: get_ht_def)
      obtain r1 d3 where r1: "delete_in_table d1 k 1 = Some (r1, d3)"
        "r1 = find (\<lambda>e. keq (dict_type d1) k (fst e)) (concat (ht_table (ht1 d1)))"
        "case r1 of None \<Rightarrow> d3 = d1
         | Some e \<Rightarrow> dict_inv d3 \<and> dict_type d3 = dict_type d1 \<and> pauserehash d3 = pauserehash d1 \<and>
             keq (dict_type d1) k (fst e) \<and> mset (entries d1) = add_mset e (mset (entries d3))"
        using delete_in_table_correct [OF d1(2) sz1, of k] by (auto simp: get_ht_def)
      have gd: "dictGenericDelete d k = Some (r1, d3)" using g r0 None re r1(1) by simp
      have mp: "dict_map d k = map_option snd r1"
        unfolding map [symmetric] dict_map_find using r0(2) None r1(2) by simp
      show ?thesis
      proof (cases r1)
        case n1: None
        then show ?thesis using gd mp r1(3) d1 by (simp add: same_content_def)
      next
        case (Some e)
        then show ?thesis using gd mp r1(3) d1 by (cases e) (simp add: same_content_def)
      qed
    qed
  qed
qed

lemma dictGenericDelete_map:
  assumes inv: "dict_inv d"
  shows "\<exists>r d'. dictGenericDelete d k = Some (r, d') \<and> dict_inv d' \<and> dict_type d' = dict_type d \<and>
    pauserehash d' = pauserehash d \<and> map_option snd r = dict_map d k \<and>
    dict_map d' = upd_eq (dict_type d) (dict_map d) k None \<and>
    dictSize d' = dictSize d - (if dict_map d k = None then 0 else 1)"
proof -
  obtain r d' where r: "dictGenericDelete d k = Some (r, d')" "dict_inv d'" "dict_type d' = dict_type d"
    "pauserehash d' = pauserehash d" "map_option snd r = dict_map d k"
    "\<forall>e. r = Some e \<longrightarrow> keq (dict_type d) k (fst e)"
    "mset (entries d) = (case r of None \<Rightarrow> {#} | Some e \<Rightarrow> {#e#}) + mset (entries d')"
    using dictGenericDelete_correct [OF inv] by blast
  note ty = inv_dtype [OF inv]
  show ?thesis
  proof (cases r)
    case None
    have nk: "dict_map d k = None" using r(5) None by simp
    have sc: "same_content d d'" using r None by (simp add: same_content_def)
    have "dict_map d x = None" if "keq (dict_type d) x k" for x
      using nk that keq_sym [OF ty] keq_trans [OF ty] unfolding dict_map_def lookup_es_None by blast
    then have "upd_eq (dict_type d) (dict_map d) k None = dict_map d"
      by (auto simp: upd_eq_def fun_eq_iff)
    then show ?thesis
      using r nk same_content_map [OF inv sc] same_content_size [OF inv r(2) sc] by simp
  next
    case (Some e)
    have m: "mset (entries d) = add_mset e (mset (entries d'))" using r(7) Some by simp
    have "dict_map d' = upd_eq (dict_type d) (dict_map d) (fst e) None"
      using lookup_es_delete [OF ty inv_uniq [OF inv] m] r(3)
      by (simp add: dict_map_def upd_eq_def fun_eq_iff)
    then have "dict_map d' = upd_eq (dict_type d) (dict_map d) k None"
      using keq_cong [OF ty] r(6) Some by (simp add: upd_eq_def)
    moreover have "dict_map d k \<noteq> None" using Some unfolding r(5) [symmetric] by simp
    moreover have "length (entries d) = Suc (length (entries d'))" using arg_cong [OF m, of size] by simp
    ultimately show ?thesis
      using r dictSize_entries [OF inv] dictSize_entries [OF r(2)] by simp
  qed
qed

lemma dictDelete_correct:
  assumes "dict_inv d"
  shows "\<exists>r d'. dictDelete d k = Some (r, d') \<and> dict_inv d' \<and> dict_type d' = dict_type d \<and>
    r = (if dict_map d k = None then DICT_ERR else DICT_OK) \<and>
    dict_map d' = upd_eq (dict_type d) (dict_map d) k None \<and>
    dictSize d' = dictSize d - (if dict_map d k = None then 0 else 1)"
proof -
  obtain r d' where r: "dictGenericDelete d k = Some (r, d')" "dict_inv d'" "dict_type d' = dict_type d"
    "map_option snd r = dict_map d k" "dict_map d' = upd_eq (dict_type d) (dict_map d) k None"
    "dictSize d' = dictSize d - (if dict_map d k = None then 0 else 1)"
    using dictGenericDelete_map [OF assms] by blast
  moreover have "(r \<noteq> None) = (dict_map d k \<noteq> None)" unfolding r(4) [symmetric] by simp
  ultimately show ?thesis by (simp add: dictDelete_def)
qed

section \<open>Creating and clearing\<close>

lemma dictCreate_inv: "dtype_ok ty \<Longrightarrow> dict_inv (dictCreate ty)"
  by (simp add: dictCreate_def i_dictInit_def dict_inv_def ht_ok_def placed_def uniq_def entries_def
      rehash_ok_def i_dictReset_def)

lemma dictCreate_map: "dict_map (dictCreate ty) k = None"
  by (rule dict_map_empty) (simp add: dictCreate_def i_dictInit_def entries_def i_dictReset_def)

lemma clear_loop_all: "clear_loop T (length (concat T)) = concat T"
proof (induction T)
  case (Cons c T)
  then show ?case by (cases "concat (c # T) = []") auto
qed simp

lemma dictRelease_frees_all: "dict_inv d \<Longrightarrow> dictRelease d = entries d"
  by (simp add: dictRelease_def i_dictClear_def entries_def dict_inv_def ht_ok_def clear_loop_all)

lemma dictEmpty_inv: "dict_inv d \<Longrightarrow> dict_inv (dictEmpty d)"
  by (simp add: dictEmpty_def i_dictClear_def dict_inv_def ht_ok_def placed_def uniq_def entries_def
      rehash_ok_def i_dictReset_def)

lemma dictEmpty_map: "dict_map (dictEmpty d) k = None"
  by (rule dict_map_empty) (simp add: dictEmpty_def i_dictClear_def entries_def i_dictReset_def)

end
