(* ===== verification/Dict_Iter.thy ===== *)
theory Dict_Iter
  imports Dict_Update
begin

text \<open>
  Iterating over a dictionary, and the progress of incremental rehashing. A loop of
  \<^verbatim>\<open>dictNext\<close> calls returns every entry exactly once and gives back the dictionary it was
  given; repeated \<^verbatim>\<open>dictRehash\<close> calls move every entry to the new table.
\<close>

section \<open>Iterators\<close>

text \<open>The loop \<open>while ((de = dictNext(di)) != NULL)\<close> that clients write, with a bound on its turns.\<close>

fun iter_loop ::
  "nat \<Rightarrow> ('k, 'v) dictIterator \<Rightarrow> ('k, 'v) dict \<Rightarrow>
   (('k, 'v) dictEntry list \<times> ('k, 'v) dictIterator \<times> ('k, 'v) dict) option" where
  "iter_loop 0 it d = None"
| "iter_loop (Suc n) it d =
     (case dictNext it d of
        None \<Rightarrow> None
      | Some (None, it, d) \<Rightarrow> Some ([], it, d)
      | Some (Some e, it, d) \<Rightarrow> map_option (\<lambda>(es, r). (e # es, r)) (iter_loop n it d))"

text \<open>What an iterator has still to return.\<close>

definition iter_rest :: "('k, 'v) dictIterator \<Rightarrow> ('k, 'v) dict \<Rightarrow> ('k, 'v) dictEntry list" where
  "iter_rest it d =
     (if it_entry it = [] then [] else it_nextEntry it) @
     concat (drop (nat (it_index it + 1)) (ht_table (get_ht d (it_table it)))) @
     (if it_table it = 0 then concat (ht_table (ht1 d)) else [])"

definition iter_fresh :: "('k, 'v) dictIterator \<Rightarrow> bool" where
  "iter_fresh it \<longleftrightarrow> it_index it = -1 \<and> it_table it = 0"

definition iter_ok :: "('k, 'v) dictIterator \<Rightarrow> ('k, 'v) dict \<Rightarrow> bool" where
  "iter_ok it d \<longleftrightarrow>
     -1 \<le> it_index it \<and> (iter_fresh it \<longrightarrow> it_entry it = []) \<and>
     (it_table it = 0 \<or> it_table it = 1 \<and> dictIsRehashing d \<and> 0 \<le> it_index it)"

lemma concat_drop_nth: "i < length T \<Longrightarrow> concat (drop i T) = T ! i @ concat (drop (Suc i) T)"
  by (simp add: Cons_nth_drop_Suc [symmetric])

text \<open>What a call of \<^verbatim>\<open>dictNext\<close> has to do; the first call of a safe iterator pauses rehashing.\<close>

definition iter_result ::
  "('k, 'v) dictIterator \<Rightarrow> ('k, 'v) dict \<Rightarrow>
   (('k, 'v) dictEntry option \<times> ('k, 'v) dictIterator \<times> ('k, 'v) dict) option \<Rightarrow> bool" where
  "iter_result it d res \<longleftrightarrow>
     (\<exists>it'. res = Some (case iter_rest it d of [] \<Rightarrow> None | e # es \<Rightarrow> Some e, it',
         if iter_fresh it \<and> it_safe it then dictPauseRehashing d else d) \<and>
       it_safe it' = it_safe it \<and> iter_ok it' d \<and> \<not> iter_fresh it' \<and> iter_rest it' d = tl (iter_rest it d))"

definition iter_measure :: "('k, 'v) dictIterator \<Rightarrow> ('k, 'v) dict \<Rightarrow> nat" where
  "iter_measure it d =
     2 * (if it_table it = 0 then ht_size (ht1 d) + 2 + nat (int (ht_size (ht0 d)) - it_index it)
          else nat (int (ht_size (ht1 d)) - it_index it)) + (if it_entry it = [] then 0 else 1)"

lemma pause_simps [simp]:
  "ht0 (dictPauseRehashing d) = ht0 d" "ht1 (dictPauseRehashing d) = ht1 d"
  "dictIsRehashing (dictPauseRehashing d) = dictIsRehashing d"
  "get_ht (dictPauseRehashing d) t = get_ht d t"
  "iter_rest it (dictPauseRehashing d) = iter_rest it d"
  "iter_ok it (dictPauseRehashing d) = iter_ok it d"
  "iter_measure it (dictPauseRehashing d) = iter_measure it d"
  "dict_inv (dictPauseRehashing d) = dict_inv d"
  by (simp_all add: dictPauseRehashing_def dictIsRehashing_def get_ht_def iter_rest_def iter_ok_def
      iter_measure_def dict_inv_def rehash_ok_def entries_def)

lemma dictNext_chain:
  assumes "it_entry it \<noteq> []" "iter_ok it d"
    and IH: "it_nextEntry it = [] \<Longrightarrow> iter_result (it\<lparr>it_entry := []\<rparr>) d (dictNext (it\<lparr>it_entry := []\<rparr>) d)"
  shows "iter_result it d (dictNext it d)"
proof (cases "it_nextEntry it = []")
  case True
  then have "dictNext it d = dictNext (it\<lparr>it_entry := []\<rparr>) d" using assms(1) by (subst dictNext.simps) simp
  moreover have "\<not> iter_fresh it" using assms(1,2) by (auto simp: iter_ok_def)
  ultimately show ?thesis
    using IH [OF True] True assms(1) by (simp add: iter_result_def iter_rest_def iter_fresh_def)
next
  case False
  then obtain e es where c: "it_nextEntry it = e # es" by (cases "it_nextEntry it") auto
  then have "dictNext it d = Some (Some e, it\<lparr>it_entry := e # es, it_nextEntry := es\<rparr>, d)"
    using assms(1) by (subst dictNext.simps) simp
  moreover have "\<not> iter_fresh it" using assms(1,2) by (auto simp: iter_ok_def)
  ultimately show ?thesis
    using c assms(1,2) by (auto simp: iter_result_def iter_rest_def iter_fresh_def iter_ok_def)
qed

text \<open>Entering the bucket \<open>i\<close> of the table \<open>t\<close>.\<close>

lemma dictNext_enter:
  assumes "it_safe it1 = it_safe it" "iter_ok it1 d" "\<not> iter_fresh it1" "it_entry it1 = c"
    and rest: "iter_rest it d = c @ iter_rest (it1\<lparr>it_entry := []\<rparr>) d"
    and d1: "d1 = (if iter_fresh it \<and> it_safe it then dictPauseRehashing d else d)"
    and nx: "dictNext it d = (if c \<noteq> [] then Some (Some (hd c), it1\<lparr>it_nextEntry := tl c\<rparr>, d1) else dictNext it1 d1)"
    and IH: "c = [] \<Longrightarrow> iter_result it1 d1 (dictNext it1 d1)"
  shows "iter_result it d (dictNext it d)"
proof (cases c)
  case Nil
  have "iter_result it1 d1 (dictNext it1 d1)" by (rule IH [OF Nil])
  moreover have "it1\<lparr>it_entry := []\<rparr> = it1" using assms(4) Nil by simp
  ultimately show ?thesis
    using Nil assms(1,3) rest nx d1 by (auto simp: iter_result_def)
next
  case (Cons e es)
  have "iter_rest (it1\<lparr>it_nextEntry := es\<rparr>) d = es @ iter_rest (it1\<lparr>it_entry := []\<rparr>) d"
    using Cons assms(4) by (simp add: iter_rest_def)
  then show ?thesis
    using Cons assms(1-4) rest nx d1 by (simp add: iter_result_def iter_ok_def iter_fresh_def)
qed

lemma dictNext_correct:
  assumes "dict_inv d" "iter_ok it d"
  shows "iter_result it d (dictNext it d)"
  using assms
proof (induction "iter_measure it d" arbitrary: it d rule: less_induct)
  case less
  note inv = less.prems(1) and ok = less.prems(2)
  let ?t = "it_table it" and ?i = "it_index it + 1"
  let ?d1 = "if iter_fresh it \<and> it_safe it then dictPauseRehashing d else d"
  have len: "length (ht_table (get_ht d t)) = ht_size (get_ht d t)" for t
    using inv_get_ht [OF inv, of t] by (simp add: ht_ok_def)
  have d1: "dict_inv ?d1" "iter_ok x ?d1 = iter_ok x d" "iter_measure x ?d1 = iter_measure x d" for x
    using inv by simp_all
  have i0: "0 \<le> ?i" using ok by (simp add: iter_ok_def)
  consider (chain) "it_entry it \<noteq> []"
    | (table1) "it_entry it = []" "?i \<ge> int (ht_size (get_ht d ?t))" "dictIsRehashing d" "?t = 0"
    | (finish) "it_entry it = []" "?i \<ge> int (ht_size (get_ht d ?t))" "\<not> (dictIsRehashing d \<and> ?t = 0)"
    | (bucket) "it_entry it = []" "?i < int (ht_size (get_ht d ?t))" by linarith
  then show ?case
  proof cases
    case chain
    show ?thesis
    proof (rule dictNext_chain [OF chain ok])
      show "iter_result (it\<lparr>it_entry := []\<rparr>) d (dictNext (it\<lparr>it_entry := []\<rparr>) d)"
        by (rule less.hyps) (use chain ok inv in \<open>auto simp: iter_measure_def iter_ok_def iter_fresh_def\<close>)
    qed
  next
    case table1
    define c where "c = ht_table (ht1 d) ! 0"
    let ?it1 = "it\<lparr>it_table := 1, it_index := 0, it_entry := c\<rparr>"
    have sz: "0 < ht_size (ht1 d)" using inv_rehashing_sizes inv table1 by blast
    then have l1: "0 < length (ht_table (ht1 d))" using len [of 1] by (simp add: get_ht_def)
    show ?thesis
    proof (rule dictNext_enter [where ?it1.0 = ?it1 and c = c and ?d1.0 = ?d1])
      show "iter_rest it d = c @ iter_rest (?it1\<lparr>it_entry := []\<rparr>) d"
        using table1 len [of 0] concat_drop_nth [OF l1] by (simp add: iter_rest_def get_ht_def c_def)
      show "dictNext it d = (if c \<noteq> [] then Some (Some (hd c), ?it1\<lparr>it_nextEntry := tl c\<rparr>, ?d1) else dictNext ?it1 ?d1)"
        using table1 l1 by (subst dictNext.simps) (simp add: c_def bucket_def Let_def iter_fresh_def)
      show "iter_result ?it1 ?d1 (dictNext ?it1 ?d1)" if "c = []"
        using that table1 sz ok by (intro less.hyps [OF _ d1(1)]) (auto simp: inv iter_measure_def iter_ok_def iter_fresh_def)
    qed (use table1 in \<open>simp_all add: iter_ok_def iter_fresh_def\<close>)
  next
    case finish
    then have "dictNext it d = Some (None, it\<lparr>it_index := ?i\<rparr>, ?d1)"
      by (subst dictNext.simps) (auto simp: Let_def iter_fresh_def)
    moreover have "iter_rest it d = []"
      using finish len [of ?t] inv_not_rehashing [OF inv] by (auto simp: iter_rest_def)
    moreover have "iter_rest (it\<lparr>it_index := ?i\<rparr>) d = []"
      using finish len [of ?t] inv_not_rehashing [OF inv] by (auto simp: iter_rest_def)
    ultimately show ?thesis
      using ok finish by (auto simp: iter_result_def iter_ok_def iter_fresh_def)
  next
    case bucket
    define c where "c = ht_table (get_ht d ?t) ! nat ?i"
    let ?it1 = "it\<lparr>it_index := ?i, it_entry := c\<rparr>"
    have l: "nat ?i < length (ht_table (get_ht d ?t))" using bucket len [of ?t] i0 by simp
    show ?thesis
    proof (rule dictNext_enter [where ?it1.0 = ?it1 and c = c and ?d1.0 = ?d1])
      show "iter_rest it d = c @ iter_rest (?it1\<lparr>it_entry := []\<rparr>) d"
        using bucket concat_drop_nth [OF l] i0
        by (simp add: iter_rest_def c_def nat_add_distrib Suc_nat_eq_nat_zadd1)
      show "dictNext it d = (if c \<noteq> [] then Some (Some (hd c), ?it1\<lparr>it_nextEntry := tl c\<rparr>, ?d1) else dictNext ?it1 ?d1)"
        using bucket l by (subst dictNext.simps) (auto simp: c_def bucket_def Let_def iter_fresh_def)
      show "iter_result ?it1 ?d1 (dictNext ?it1 ?d1)" if "c = []"
        using that bucket ok i0
        by (intro less.hyps [OF _ d1(1)]) (auto simp: inv iter_measure_def iter_ok_def iter_fresh_def get_ht_def split: if_splits)
    qed (use ok i0 in \<open>auto simp: iter_ok_def iter_fresh_def\<close>)
  qed
qed

lemma iter_loop_correct:
  assumes "dict_inv d" "iter_ok it d" "\<not> iter_fresh it" "length (iter_rest it d) < n"
  shows "\<exists>it'. iter_loop n it d = Some (iter_rest it d, it', d) \<and> it_safe it' = it_safe it \<and> \<not> iter_fresh it'"
  using assms(2-)
proof (induction n arbitrary: it)
  case (Suc n)
  obtain it' where it': "dictNext it d = Some (case iter_rest it d of [] \<Rightarrow> None | e # es \<Rightarrow> Some e, it', d)"
    "it_safe it' = it_safe it" "iter_ok it' d" "\<not> iter_fresh it'" "iter_rest it' d = tl (iter_rest it d)"
    using dictNext_correct [OF assms(1) Suc.prems(1)] Suc.prems(2) by (auto simp: iter_result_def)
  show ?case
  proof (cases "iter_rest it d")
    case Nil
    then show ?thesis using it' by simp
  next
    case (Cons e es)
    then show ?thesis using it' Suc.IH [of it'] Suc.prems(3) by auto
  qed
qed simp

lemma iterate_all:
  assumes "dict_inv d" "length (entries d) < n"
  shows "\<exists>it'. iter_loop n (if safe then dictGetSafeIterator else dictGetIterator) d =
      Some (entries d, it', if safe then dictPauseRehashing d else d) \<and>
    dictReleaseIterator it' (if safe then dictPauseRehashing d else d) = d"
proof -
  let ?it = "if safe then dictGetSafeIterator else dictGetIterator"
  let ?d = "if safe then dictPauseRehashing d else d"
  have f: "iter_fresh ?it" "it_safe ?it = safe" "iter_ok ?it d" "iter_rest ?it d = entries d"
    by (simp_all add: iter_fresh_def iter_ok_def iter_rest_def entries_def get_ht_def
        dictGetSafeIterator_def dictGetIterator_def)
  obtain it' where it': "dictNext ?it d = Some (case entries d of [] \<Rightarrow> None | e # es \<Rightarrow> Some e, it', ?d)"
    "it_safe it' = safe" "iter_ok it' d" "\<not> iter_fresh it'" "iter_rest it' d = tl (entries d)"
    using dictNext_correct [OF assms(1) f(3)] unfolding iter_result_def f(2,4)
    by (simp only: f(1) simp_thms) blast
  have rel: "dictReleaseIterator i ?d = d" if "\<not> iter_fresh i" "it_safe i = safe" for i
    using that by (auto simp: dictReleaseIterator_def iter_fresh_def dictPauseRehashing_def dictResumeRehashing_def)
  obtain m where n: "n = Suc m" using assms(2) by (cases n) auto
  show ?thesis
  proof (cases "entries d")
    case Nil
    then show ?thesis using n it' rel by (simp del: if_split)
  next
    case (Cons e es)
    have "\<exists>it''. iter_loop m it' ?d = Some (es, it'', ?d) \<and> it_safe it'' = safe \<and> \<not> iter_fresh it''"
      using iter_loop_correct [of ?d it' m] it' assms n Cons by (cases safe) simp_all
    then show ?thesis using n it' rel Cons by auto
  qed
qed

section \<open>Rehashing finishes\<close>

fun rehash_rounds :: "nat \<Rightarrow> nat \<Rightarrow> ('k, 'v) dict \<Rightarrow> ('k, 'v) dict option" where
  "rehash_rounds 0 n d = Some d"
| "rehash_rounds (Suc k) n d =
     (case dictRehash d n of None \<Rightarrow> None | Some (_, d) \<Rightarrow> rehash_rounds k n d)"

lemma rehash_rounds_finish:
  assumes "dict_inv d" "n \<noteq> 0" "dictIsRehashing d \<Longrightarrow> int (ht_size (ht0 d)) - rehashidx d < int k"
  shows "\<exists>d'. rehash_rounds k n d = Some d' \<and> \<not> dictIsRehashing d' \<and> dict_inv d' \<and> same_content d d'"
  using assms
proof (induction k arbitrary: d)
  case 0
  then have "\<not> dictIsRehashing d"
    by (auto simp: dict_inv_def rehash_ok_def dictIsRehashing_def split: if_splits)
  then show ?case using 0 by simp
next
  case (Suc k)
  obtain d1 where d1: "dictRehash d n = Some (dictIsRehashing d1, d1)" "dict_inv d1" "same_content d d1"
    "dictIsRehashing d1 \<longrightarrow> dictIsRehashing d \<and> ht_size (ht0 d1) = ht_size (ht0 d) \<and> rehashidx d < rehashidx d1"
    using dictRehash_correct [OF Suc.prems(1), of n] Suc.prems(2) by auto
  have "\<exists>d'. rehash_rounds k n d1 = Some d' \<and> \<not> dictIsRehashing d' \<and> dict_inv d' \<and> same_content d1 d'"
    using Suc.prems(3) d1(4) by (intro Suc.IH [OF d1(2) Suc.prems(2)]) auto
  then show ?case using d1 same_content_trans by auto
qed

end
