(* ===== verification/Dict_Scan.thy ===== *)
theory Dict_Scan
  imports Dict_Update
begin

text \<open>
  The stateless cursor of \<^verbatim>\<open>dictScan\<close> (\<^verbatim>\<open>dict.c\<close>). The cursor is incremented from its most
  significant bit down, so that a scan that lasts while the table grows, shrinks or is rehashed
  still emits every entry that is in the table from the first call to the last. The callback
  \<^verbatim>\<open>fn\<close> is modelled by the list of the entries it is called on; \<^verbatim>\<open>bucketfn\<close>, which only
  \<^verbatim>\<open>defrag.c\<close> passes, is taken to be NULL.
\<close>

unbundle bit_operations_syntax

section \<open>The model\<close>

text \<open>Reversing the bits of a word.\<close>

fun rev_loop :: "nat \<Rightarrow> u64 \<Rightarrow> u64 \<Rightarrow> u64" where
  "rev_loop s msk v =
     (if s div 2 > 0 then
        let msk = msk XOR push_bit (s div 2) msk
        in rev_loop (s div 2) msk
             ((drop_bit (s div 2) v AND msk) OR (push_bit (s div 2) v AND NOT msk))
      else v)"

declare rev_loop.simps [simp del]

definition rev_u64 :: "u64 \<Rightarrow> u64" where
  "rev_u64 v = rev_loop 64 (NOT 0) v"

definition next_cursor :: "u64 \<Rightarrow> u64 \<Rightarrow> u64" where
  "next_cursor v m = rev_u64 (rev_u64 (v OR NOT m) + 1)"

partial_function (option) scan_expansions ::
  "('k, 'v) dictht \<Rightarrow> u64 \<Rightarrow> u64 \<Rightarrow> u64 \<Rightarrow> (('k, 'v) dictEntry list \<times> u64) option" where
  "scan_expansions t1 m0 m1 v = do {
     c \<leftarrow> bucket t1 (unat (v AND m1));
     let v = next_cursor v m1;
     if v AND (m0 XOR m1) \<noteq> 0 then do {
       (es, v) \<leftarrow> scan_expansions t1 m0 m1 v;
       Some (c @ es, v)
     } else Some (c, v)
   }"

definition dictScan ::
  "('k, 'v) dict \<Rightarrow> u64 \<Rightarrow> (('k, 'v) dictEntry list \<times> u64 \<times> ('k, 'v) dict) option" where
  "dictScan d v =
     (if dictSize d = 0 then Some ([], 0, d)
      else do {
        let d = dictPauseRehashing d;
        (es, v) \<leftarrow>
          (if \<not> dictIsRehashing d then do {
             let m0 = word_of_nat (ht_sizemask (ht0 d));
             c \<leftarrow> bucket (ht0 d) (unat (v AND m0));
             Some (c, next_cursor v m0)
           } else do {
             let (t0, t1) = (if ht_size (ht0 d) > ht_size (ht1 d) then (ht1 d, ht0 d) else (ht0 d, ht1 d));
             let m0 = word_of_nat (ht_sizemask t0);
             let m1 = word_of_nat (ht_sizemask t1);
             c \<leftarrow> bucket t0 (unat (v AND m0));
             (es, v) \<leftarrow> scan_expansions t1 m0 m1 v;
             Some (c @ es, v)
           });
        Some (es, v, dictResumeRehashing d)
      })"

section \<open>Reversal\<close>

definition alternating :: "nat \<Rightarrow> u64 \<Rightarrow> bool" where
  "alternating s msk \<longleftrightarrow> (\<forall>i < 64. bit msk i \<longleftrightarrow> even (i div s))"

definition flip :: "nat \<Rightarrow> nat \<Rightarrow> nat" where
  "flip s i = (if even (i div s) then i + s else i - s)"

lemma alternating_step:
  assumes "alternating (2 * s) msk" "0 < s"
  shows "alternating s (msk XOR push_bit s msk)"
  unfolding alternating_def
proof (intro allI impI)
  fix i :: nat
  assume i: "i < 64"
  define q r where "q = i div (2 * s)" and "r = i mod (2 * s)"
  have ir: "i = 2 * s * q + r" "r < 2 * s" using assms(2) by (simp_all add: q_def r_def)
  have b: "bit (msk XOR push_bit s msk) i \<longleftrightarrow> (even q \<noteq> (s \<le> i \<and> even ((i - s) div (2 * s))))"
    using assms(1) i by (simp add: bit_simps alternating_def q_def)
  show "bit (msk XOR push_bit s msk) i \<longleftrightarrow> even (i div s)"
  proof (cases "r < s")
    case True
    have e: "i div s = 2 * q"
      using ir True assms(2) by (intro div_nat_eqI) (auto simp: algebra_simps)
    have "(i - s) div (2 * s) = q - 1" if "s \<le> i"
    proof (cases q)
      case 0
      then show ?thesis using ir True that by simp
    next
      case (Suc p)
      then have "i - s = 2 * s * p + (s + r)" using ir by (simp add: algebra_simps)
      then show ?thesis using Suc True assms(2) by (intro div_nat_eqI) (auto simp: algebra_simps)
    qed
    moreover have "s \<le> i \<longleftrightarrow> q \<noteq> 0" using ir True assms(2) by (cases q) auto
    ultimately show ?thesis using b e by auto
  next
    case False
    have e: "i div s = 2 * q + 1"
      using ir False assms(2) by (intro div_nat_eqI) (auto simp: algebra_simps)
    have "(i - s) div (2 * s) = q" using ir False assms(2) by (intro div_nat_eqI) (auto simp: algebra_simps)
    moreover have "s \<le> i" using ir False by simp
    ultimately show ?thesis using b e by auto
  qed
qed

lemma rev_loop_step:
  assumes "alternating (2 * s) msk" "0 < s"
  obtains m' v' where "rev_loop (2 * s) msk v = rev_loop s m' v'" "alternating s m'"
    "\<And>i. i < 64 \<Longrightarrow> flip s i < 64 \<Longrightarrow> bit v' i = bit v (flip s i)"
proof
  let ?m = "msk XOR push_bit s msk"
  show "rev_loop (2 * s) msk v = rev_loop s ?m ((drop_bit s v AND ?m) OR (push_bit s v AND NOT ?m))"
    using assms by (subst rev_loop.simps) (simp add: Let_def)
  show alt: "alternating s ?m" by (rule alternating_step [OF assms])
  show "bit ((drop_bit s v AND ?m) OR (push_bit s v AND NOT ?m)) i = bit v (flip s i)"
    if "i < 64" "flip s i < 64" for i
  proof -
    have "s \<le> i" if "odd (i div s)" using that by (cases "i < s") auto
    moreover have "bit ?m i \<longleftrightarrow> even (i div s)" using alt that(1) by (simp add: alternating_def)
    moreover have "bit ((drop_bit s v AND ?m) OR (push_bit s v AND NOT ?m)) i \<longleftrightarrow>
      bit v (s + i) \<and> bit ?m i \<or> (s \<le> i \<and> bit v (i - s)) \<and> \<not> bit ?m i"
      using that(1) by (simp only: bit_or_iff bit_and_iff bit_not_iff bit_drop_bit_eq bit_push_bit_iff comp_def) simp
    ultimately show ?thesis by (auto simp: flip_def add.commute)
  qed
qed

definition rev_blocks :: "nat \<Rightarrow> nat \<Rightarrow> nat" where
  "rev_blocks s i = i div s * s + (s - 1 - i mod s)"

lemma flip_rev_blocks:
  assumes "0 < s"
  shows "flip s (rev_blocks s i) = rev_blocks (2 * s) i"
proof -
  define a r where "a = i div s" and "r = i mod s"
  have i: "i = a * s + r" "r < s" using assms by (simp_all add: a_def r_def)
  have d: "rev_blocks s i div s = a"
    unfolding rev_blocks_def a_def [symmetric] r_def [symmetric]
    using assms i(2) by (intro div_nat_eqI) (auto simp: algebra_simps)
  show ?thesis
  proof (cases "even a")
    case True
    then obtain b where b: "a = 2 * b" by blast
    have "i div (2 * s) = b" using i b by (intro div_nat_eqI) (auto simp: algebra_simps)
    moreover have "i mod (2 * s) = r" using i b by (simp add: mult.assoc [symmetric] mult.commute [of _ s])
    ultimately show ?thesis
      using d True i b unfolding flip_def rev_blocks_def a_def [symmetric] r_def [symmetric]
      by (simp add: algebra_simps)
  next
    case False
    then obtain b where b: "a = 2 * b + 1" by (meson oddE)
    have q: "i div (2 * s) = b" using i b by (intro div_nat_eqI) (auto simp: algebra_simps)
    have "i mod (2 * s) = i - (2 * s) * b" using q by (simp add: minus_div_mult_eq_mod [symmetric] mult.commute)
    then have "i mod (2 * s) = s + r" using i b by (simp add: algebra_simps)
    then show ?thesis
      using d False i b q unfolding flip_def rev_blocks_def a_def [symmetric] r_def [symmetric]
      by (simp add: algebra_simps)
  qed
qed

lemma rev_blocks_less:
  assumes "i < 64" "j \<le> 6"
  shows "rev_blocks (2 ^ j) i < 64"
proof -
  have k: "2 ^ j * 2 ^ (6 - j) = (64 :: nat)" using assms(2) by (simp flip: power_add)
  have "i div 2 ^ j < 2 ^ (6 - j)" using assms(1) k by (simp add: less_mult_imp_div_less mult.commute)
  then have "Suc (i div 2 ^ j) * 2 ^ j \<le> 2 ^ (6 - j) * 2 ^ j" by (intro mult_le_mono1) simp
  then have "i div 2 ^ j * 2 ^ j + 2 ^ j \<le> 64" using k by (simp add: mult.commute)
  moreover have "(0 :: nat) < 2 ^ j" by simp
  ultimately show ?thesis unfolding rev_blocks_def by linarith
qed

lemma bit_rev_loop:
  assumes "j \<le> 6" "alternating (2 ^ j) msk" "i < 64"
  shows "bit (rev_loop (2 ^ j) msk v) i = bit v (rev_blocks (2 ^ j) i)"
  using assms
proof (induction j arbitrary: msk v)
  case 0
  then show ?case by (simp add: rev_loop.simps rev_blocks_def)
next
  case (Suc j)
  obtain m' v' where m': "rev_loop (2 * 2 ^ j) msk v = rev_loop (2 ^ j) m' v'" "alternating (2 ^ j) m'"
    "\<And>i. i < 64 \<Longrightarrow> flip (2 ^ j) i < 64 \<Longrightarrow> bit v' i = bit v (flip (2 ^ j) i)"
    using rev_loop_step [of "2 ^ j" msk v] Suc.prems by auto
  have "rev_blocks (2 ^ j) i < 64" "rev_blocks (2 * 2 ^ j) i < 64"
    using rev_blocks_less [of i j] rev_blocks_less [of i "Suc j"] Suc.prems by auto
  then show ?case
    using m' Suc.IH [OF _ m'(2), of v'] Suc.prems flip_rev_blocks [of "2 ^ j" i] by simp
qed

lemma bit_rev_u64: "i < 64 \<Longrightarrow> bit (rev_u64 v) i = bit v (63 - i)"
  using bit_rev_loop [of 6 "NOT 0" i v] by (simp add: rev_u64_def alternating_def rev_blocks_def bit_simps)

lemma rev_rev_u64 [simp]: "rev_u64 (rev_u64 v) = v"
  by (rule bit_word_eqI) (simp add: bit_rev_u64)

lemma rev_u64_0 [simp]: "rev_u64 0 = 0"
  by (rule bit_word_eqI) (simp add: bit_rev_u64)

section \<open>The order of the cursor\<close>

text \<open>The position of a cursor or of a hash: the value of the reversed word.\<close>

definition pos :: "u64 \<Rightarrow> nat" where
  "pos v = unat (rev_u64 v)"

lemma pos_less [simp]: "pos v < 2 ^ 64"
  using unat_u64_less [of "rev_u64 v"] by (simp add: pos_def)

lemma pos_0 [simp]: "pos 0 = 0"
  by (simp add: pos_def)

lemma pos_eq_0 [simp]: "pos v = 0 \<longleftrightarrow> v = 0"
  by (metis pos_def rev_rev_u64 rev_u64_0 unat_eq_zero)

lemma bit_pos: "bit (pos v) i \<longleftrightarrow> i < 64 \<and> bit v (63 - i)"
proof (cases "i < 64")
  case True
  then show ?thesis by (simp add: pos_def bit_unsigned_iff bit_rev_u64)
next
  case False
  then show ?thesis using bit_imp_le_length [of "rev_u64 v" i] by (auto simp: pos_def bit_unsigned_iff)
qed

text \<open>A bucket of a table of size \<open>2 ^ n\<close> holds one block of \<open>2 ^ (64 - n)\<close> positions.\<close>

lemma same_bucket:
  assumes "n \<le> 64"
  shows "unat h mod 2 ^ n = unat v mod 2 ^ n \<longleftrightarrow> pos h div 2 ^ (64 - n) = pos v div 2 ^ (64 - n)"
proof -
  have "unat h mod 2 ^ n = unat v mod 2 ^ n \<longleftrightarrow> take_bit n (unat h) = take_bit n (unat v)"
    by (simp add: take_bit_eq_mod)
  also have "\<dots> \<longleftrightarrow> (\<forall>i < n. bit h i = bit v i)"
    using assms by (auto simp: bit_eq_iff bit_take_bit_iff bit_unsigned_iff)
  also have "\<dots> \<longleftrightarrow> (\<forall>i. 64 - n \<le> i \<longrightarrow> i < 64 \<longrightarrow> bit h (63 - i) = bit v (63 - i))"
    (is "?L \<longleftrightarrow> ?R")
  proof
    assume ?L
    then show ?R using assms by auto
  next
    assume r: ?R
    show ?L
    proof (intro allI impI)
      fix i
      assume "i < n"
      then show "bit h i = bit v i" using r [rule_format, of "63 - i"] assms by simp
    qed
  qed
  also have "\<dots> \<longleftrightarrow> drop_bit (64 - n) (pos h) = drop_bit (64 - n) (pos v)"
    (is "?L \<longleftrightarrow> ?R")
  proof
    assume l: ?L
    show ?R
    proof (rule bit_eqI)
      fix j
      show "bit (drop_bit (64 - n) (pos h)) j \<longleftrightarrow> bit (drop_bit (64 - n) (pos v)) j"
        using l [rule_format, of "64 - n + j"] by (auto simp: bit_drop_bit_eq bit_pos)
    qed
  next
    assume r: ?R
    show ?L
    proof (intro allI impI)
      fix i
      assume i: "64 - n \<le> i" "i < 64"
      have "bit (drop_bit (64 - n) (pos h)) (i - (64 - n)) \<longleftrightarrow> bit (drop_bit (64 - n) (pos v)) (i - (64 - n))"
        using r by simp
      then show "bit h (63 - i) = bit v (63 - i)" using i by (simp add: bit_drop_bit_eq bit_pos)
    qed
  qed
  finally show ?thesis by (simp add: drop_bit_eq_div)
qed

lemma nat_or_mask: "a OR mask k = a div 2 ^ k * 2 ^ k + (2 ^ k - 1 :: nat)"
proof -
  have "push_bit k (drop_bit k a) AND mask k = 0" by (auto simp: bit_eq_iff bit_simps)
  then have "push_bit k (drop_bit k a) + mask k = push_bit k (drop_bit k a) OR mask k"
    by (rule disjunctive_add_eq_or)
  also have "\<dots> = a OR mask k" by (auto simp: bit_eq_iff bit_simps)
  finally show ?thesis by (simp add: push_bit_eq_mult drop_bit_eq_div mask_eq_exp_minus_1)
qed

lemma size_mask: "word_of_nat (2 ^ n - Suc 0) = (mask n :: u64)"
  using of_nat_mask_eq [of n] by (simp add: mask_eq_exp_minus_1)

definition block_end :: "nat \<Rightarrow> nat \<Rightarrow> nat" where
  "block_end k p = (p div 2 ^ k + 1) * 2 ^ k"

lemma pos_next_cursor:
  assumes "n \<le> 64"
  shows "pos (next_cursor v (mask n)) = block_end (64 - n) (pos v) mod 2 ^ 64"
proof -
  define x where "x = rev_u64 (v OR NOT (mask n))"
  have "unat x = pos v OR mask (64 - n)"
  proof (rule bit_eqI)
    fix i
    show "bit (unat x) i \<longleftrightarrow> bit (pos v OR mask (64 - n)) i"
    proof (cases "i < 64")
      case True
      then have "bit (unat x) i \<longleftrightarrow> bit v (63 - i) \<or> \<not> 63 - i < n"
        by (auto simp: x_def bit_unsigned_iff bit_rev_u64 bit_or_iff bit_not_iff bit_mask_iff)
      then show ?thesis using True assms by (auto simp: bit_or_iff bit_pos bit_mask_iff)
    next
      case False
      then show ?thesis
        using bit_imp_le_length [of x i] by (auto simp: bit_or_iff bit_pos bit_mask_iff bit_unsigned_iff)
    qed
  qed
  then have "Suc (unat x) = block_end (64 - n) (pos v)" by (simp add: nat_or_mask block_end_def)
  moreover have "unat (x + 1) = Suc (unat x) mod 2 ^ 64" by (simp add: unat_word_ariths)
  ultimately show ?thesis by (simp add: pos_def next_cursor_def x_def)
qed

lemma pos_mod_0:
  assumes "n \<le> 64"
  shows "pos w mod 2 ^ (64 - n) = 0 \<longleftrightarrow> (\<forall>j. n \<le> j \<longrightarrow> j < 64 \<longrightarrow> \<not> bit w j)"
proof -
  have "pos w mod 2 ^ (64 - n) = 0 \<longleftrightarrow> (\<forall>i. i < 64 - n \<longrightarrow> \<not> bit w (63 - i))"
    by (auto simp: bit_eq_iff bit_take_bit_iff bit_pos simp flip: take_bit_eq_mod)
  also have "\<dots> \<longleftrightarrow> (\<forall>j. n \<le> j \<longrightarrow> j < 64 \<longrightarrow> \<not> bit w j)" (is "?L \<longleftrightarrow> ?R")
  proof
    assume l: ?L
    show ?R
    proof (intro allI impI)
      fix j
      assume "n \<le> j" "j < (64 :: nat)"
      then show "\<not> bit w j" using l [rule_format, of "63 - j"] by simp
    qed
  next
    assume r: ?R
    show ?L
    proof (intro allI impI)
      fix i
      assume "i < 64 - n"
      then show "\<not> bit w (63 - i)" using r [rule_format, of "63 - i"] by simp
    qed
  qed
  finally show ?thesis .
qed

lemma u64_eq_0_bits: "(x :: u64) = 0 \<longleftrightarrow> (\<forall>j. \<not> bit x j)"
  by (auto intro: bit_eqI)

lemma expansion_done:
  assumes "n0 \<le> n1" "n1 \<le> 63" "pos w mod 2 ^ (64 - n1) = 0"
  shows "w AND (mask n0 XOR mask n1) = 0 \<longleftrightarrow> pos w mod 2 ^ (64 - n0) = 0"
proof -
  have "bit (w AND (mask n0 XOR mask n1)) j \<longleftrightarrow> bit w j \<and> (j < n0) \<noteq> (j < n1)" for j
    using bit_imp_le_length [of w j] by (auto simp: bit_and_iff bit_xor_iff bit_mask_iff)
  then have "w AND (mask n0 XOR mask n1) = 0 \<longleftrightarrow> (\<forall>j. \<not> (bit w j \<and> (j < n0) \<noteq> (j < n1)))"
    unfolding u64_eq_0_bits by (simp only:)
  also have "\<dots> \<longleftrightarrow> (\<forall>j. n0 \<le> j \<longrightarrow> j < n1 \<longrightarrow> \<not> bit w j)"
    using assms(1) by (auto simp: not_less) (meson not_le)
  also have "\<dots> \<longleftrightarrow> (\<forall>j. n0 \<le> j \<longrightarrow> j < 64 \<longrightarrow> \<not> bit w j)"
  proof (intro iffI allI impI)
    fix j
    assume *: "\<forall>j. n0 \<le> j \<longrightarrow> j < n1 \<longrightarrow> \<not> bit w j" "n0 \<le> j" "j < 64"
    then show "\<not> bit w j" using assms pos_mod_0 [of n1 w] by (cases "j < n1") auto
  next
    fix j
    assume *: "\<forall>j. n0 \<le> j \<longrightarrow> j < 64 \<longrightarrow> \<not> bit w j" "n0 \<le> j" "j < n1"
    then show "\<not> bit w j" using assms(2) by simp
  qed
  finally show ?thesis using assms pos_mod_0 [of n0 w] by simp
qed

section \<open>One call\<close>

lemma block_end_gt: "p < block_end k p"
proof -
  have "p = p div 2 ^ k * 2 ^ k + p mod 2 ^ k" by (rule div_mult_mod_eq [symmetric])
  moreover have "p mod 2 ^ k < 2 ^ k" by simp
  ultimately show ?thesis unfolding block_end_def add_mult_distrib mult_1 by linarith
qed

lemma block_same:
  assumes "p \<le> q" "q < block_end k p"
  shows "q div 2 ^ k = p div 2 ^ k"
proof (rule div_nat_eqI)
  show "2 ^ k * (p div 2 ^ k) \<le> q" using assms(1) times_div_less_eq_dividend le_trans by blast
  show "q < 2 ^ k * Suc (p div 2 ^ k)" using assms(2) by (simp add: block_end_def mult.commute)
qed

lemma block_end_same: "p \<le> q \<Longrightarrow> q < block_end k p \<Longrightarrow> block_end k q = block_end k p"
  by (simp add: block_end_def block_same)

lemma block_end_mono:
  assumes "k \<le> l"
  shows "block_end k p \<le> block_end l p"
proof -
  have l: "2 ^ l = 2 ^ k * (2 :: nat) ^ (l - k)" using assms by (simp flip: power_add)
  have "p div 2 ^ k < (p div 2 ^ l + 1) * 2 ^ (l - k)"
    using block_end_gt [of p l] by (simp add: block_end_def l div_less_iff_less_mult algebra_simps)
  then have "(p div 2 ^ k + 1) * 2 ^ k \<le> ((p div 2 ^ l + 1) * 2 ^ (l - k)) * 2 ^ k"
    by (intro mult_le_mono1) simp
  then show ?thesis by (simp add: block_end_def l algebra_simps)
qed

lemma block_end_64: "p < 2 ^ 64 \<Longrightarrow> k \<le> 64 \<Longrightarrow> block_end k p \<le> 2 ^ 64"
  using block_end_mono [of k 64 p] by (simp add: block_end_def)

lemma block_end_dvd:
  assumes "k \<le> l" "p < q" "q \<le> block_end l p" "q mod 2 ^ l = 0"
  shows "q = block_end l p"
proof -
  have "q div 2 ^ l * 2 ^ l = q" using assms(4) by auto
  moreover have "p div 2 ^ l * 2 ^ l < q" using assms(2) by (metis div_times_less_eq_dividend order_le_less_trans)
  ultimately have "p div 2 ^ l < q div 2 ^ l" by (metis mult_less_cancel2)
  then have "(p div 2 ^ l + 1) * 2 ^ l \<le> q div 2 ^ l * 2 ^ l" by (intro mult_le_mono1) simp
  then show ?thesis using assms(3) \<open>q div 2 ^ l * 2 ^ l = q\<close> by (simp add: block_end_def)
qed

lemma block_end_mod: "k \<le> l \<Longrightarrow> block_end l p mod 2 ^ k = 0"
  by (auto simp: block_end_def le_imp_power_dvd)

lemma block_end_mod_mod: "k \<le> 64 \<Longrightarrow> block_end k p mod 2 ^ 64 mod 2 ^ k = 0"
  by (metis block_end_mod le_refl mod_mod_cancel le_imp_power_dvd)

text \<open>The bucket at the cursor holds the entries whose positions are in the cursor's block.\<close>

definition epos :: "'k dictType \<Rightarrow> ('k, 'v) dictEntry \<Rightarrow> nat" where
  "epos ty e = pos (hashFunction ty (fst e))"

lemma bucket_block:
  assumes "ht_ok ty h" "ht_size h = 2 ^ n" "n \<le> 63"
  shows "\<exists>c. bucket h (unat (v AND word_of_nat (ht_sizemask h))) = Some c \<and> set c \<subseteq> set (concat (ht_table h)) \<and>
    (\<forall>e \<in> set (concat (ht_table h)). epos ty e div 2 ^ (64 - n) = pos v div 2 ^ (64 - n) \<longrightarrow> e \<in> set c)"
proof -
  have m: "ht_sizemask h = 2 ^ n - 1" using assms by (auto simp: ht_ok_def)
  have i: "unat (v AND word_of_nat (ht_sizemask h)) = unat v mod 2 ^ n"
  proof -
    have "v AND word_of_nat (ht_sizemask h) = take_bit n v"
      unfolding m using size_mask [of n] by (simp add: take_bit_eq_mask)
    then show ?thesis by (simp only: unsigned_take_bit_eq) (simp add: take_bit_eq_mod)
  qed
  have l: "unat v mod 2 ^ n < length (ht_table h)" using assms by (simp add: ht_ok_def)
  have "e \<in> set (ht_table h ! (unat v mod 2 ^ n))"
    if e: "e \<in> set (concat (ht_table h))" and p: "epos ty e div 2 ^ (64 - n) = pos v div 2 ^ (64 - n)" for e
  proof -
    obtain j where j: "j < length (ht_table h)" "e \<in> set (ht_table h ! j)"
      using e by (auto simp: in_set_conv_nth [of _ "ht_table h"])
    have "j = unat (hashFunction ty (fst e)) mod 2 ^ n"
      using ht_ok_bucket_placed [OF assms(1) j] m hidx_pow2 [of _ n] by simp
    then show ?thesis using same_bucket [of n "hashFunction ty (fst e)" v] p j(2) assms(3) by (simp add: epos_def)
  qed
  moreover have "set (ht_table h ! (unat v mod 2 ^ n)) \<subseteq> set (concat (ht_table h))"
    using nth_mem [OF l] by auto
  ultimately show ?thesis using i l by (simp add: bucket_def) blast
qed

text \<open>
  \<open>scan_covers ty T v v' es\<close>: the list \<open>es\<close> of entries of \<open>T\<close> has all whose positions are between
  the cursors \<open>v\<close> and \<open>v'\<close>, where the returned cursor 0 stands for the end.
\<close>

definition cursor_end :: "u64 \<Rightarrow> nat" where
  "cursor_end v = (if v = 0 then 2 ^ 64 else pos v)"

definition scan_covers ::
  "'k dictType \<Rightarrow> ('k, 'v) dictEntry list \<Rightarrow> u64 \<Rightarrow> u64 \<Rightarrow> ('k, 'v) dictEntry list \<Rightarrow> bool" where
  "scan_covers ty T v v' es \<longleftrightarrow>
     set es \<subseteq> set T \<and> (\<forall>e \<in> set T. pos v \<le> epos ty e \<longrightarrow> epos ty e < cursor_end v' \<longrightarrow> e \<in> set es)"

lemma cursor_end_block:
  assumes "pos w = block_end k (pos v) mod 2 ^ 64" "k \<le> 64"
  shows "cursor_end w = block_end k (pos v)"
proof (cases "block_end k (pos v) = 2 ^ 64")
  case True
  then have "w = 0" using assms(1) by (metis mod_self pos_eq_0)
  then show ?thesis using True by (simp add: cursor_end_def)
next
  case False
  then have "block_end k (pos v) < 2 ^ 64" using block_end_64 [OF pos_less assms(2), of v] by simp
  then have p: "pos w = block_end k (pos v)" using assms(1) by simp
  then have "w \<noteq> 0" using block_end_gt [of "pos v" k] by (metis not_less0 pos_0)
  then show ?thesis using p by (simp add: cursor_end_def)
qed

lemma cursor_end_next:
  "n \<le> 64 \<Longrightarrow> cursor_end (next_cursor v (mask n)) = block_end (64 - n) (pos v)"
  using pos_next_cursor [of n v] by (intro cursor_end_block) simp_all

lemma scan_covers_bucket:
  assumes "ht_ok ty h" "ht_size h = 2 ^ n" "n \<le> 63" "cursor_end w \<le> block_end (64 - n) (pos v)"
  shows "\<exists>c. bucket h (unat (v AND word_of_nat (ht_sizemask h))) = Some c \<and> scan_covers ty (concat (ht_table h)) v w c"
proof -
  obtain c where c: "bucket h (unat (v AND word_of_nat (ht_sizemask h))) = Some c" "set c \<subseteq> set (concat (ht_table h))"
    "\<forall>e \<in> set (concat (ht_table h)). epos ty e div 2 ^ (64 - n) = pos v div 2 ^ (64 - n) \<longrightarrow> e \<in> set c"
    using bucket_block [OF assms(1-3)] by blast
  have "epos ty e div 2 ^ (64 - n) = pos v div 2 ^ (64 - n)"
    if "pos v \<le> epos ty e" "epos ty e < cursor_end w" for e :: "'a \<times> 'b option"
    using that assms(4) by (intro block_same) simp_all
  then show ?thesis using c by (auto simp: scan_covers_def)
qed

lemma scan_covers_join:
  assumes "scan_covers ty T v w es" "scan_covers ty T w x es'" "w \<noteq> 0"
  shows "scan_covers ty T v x (es @ es')"
  using assms unfolding scan_covers_def cursor_end_def by (auto simp: not_less [symmetric])

lemma scan_expansions_correct:
  assumes h: "ht_ok ty h" "ht_size h = 2 ^ n1" and n: "n0 \<le> n1" "n1 \<le> 63"
  shows "\<exists>es w. scan_expansions h (mask n0) (word_of_nat (ht_sizemask h)) v = Some (es, w) \<and>
    scan_covers ty (concat (ht_table h)) v w es \<and> cursor_end w = block_end (64 - n0) (pos v)"
proof (induction "block_end (64 - n0) (pos v) - pos v" arbitrary: v rule: less_induct)
  case less
  have m: "word_of_nat (ht_sizemask h) = (mask n1 :: u64)" using h size_mask [of n1] by (auto simp: ht_ok_def)
  let ?w = "next_cursor v (mask n1)"
  let ?B = "block_end (64 - n0) (pos v)"
  have we: "cursor_end ?w = block_end (64 - n1) (pos v)" using n by (intro cursor_end_next) simp
  have le: "block_end (64 - n1) (pos v) \<le> ?B" using n by (intro block_end_mono) simp
  obtain c where c: "bucket h (unat (v AND mask n1)) = Some c" "scan_covers ty (concat (ht_table h)) v ?w c"
    using scan_covers_bucket [OF h n(2), of ?w v] we m by auto
  have wm: "pos ?w mod 2 ^ (64 - n1) = 0"
    using pos_next_cursor [of n1 v] block_end_mod_mod [of "64 - n1" "pos v"] n by simp
  note stop = expansion_done [OF n wm]
  show ?case
  proof (cases "?w AND (mask n0 XOR mask n1) = 0")
    case True
    have "cursor_end ?w = ?B"
    proof (cases "?w = 0")
      case w0: True
      then have "?B \<ge> 2 ^ 64" using we le by (simp add: cursor_end_def)
      then show ?thesis using w0 block_end_64 [OF pos_less, of "64 - n0" v] by (simp add: cursor_end_def)
    next
      case False
      then have "pos ?w = block_end (64 - n1) (pos v)" using we by (simp add: cursor_end_def)
      then show ?thesis
        using True stop False le block_end_gt [of "pos v" "64 - n1"] n
          block_end_dvd [of "64 - n1" "64 - n0" "pos v" "pos ?w"] by (simp add: cursor_end_def)
    qed
    then show ?thesis using True c m by (subst scan_expansions.simps) simp
  next
    case False
    then have w0: "?w \<noteq> 0" by auto
    then have pw: "pos ?w = block_end (64 - n1) (pos v)" using we by (simp add: cursor_end_def)
    have "pos ?w \<noteq> ?B" using stop False block_end_mod [of "64 - n0" "64 - n0" "pos v"] by auto
    then have lt: "pos v < pos ?w" "pos ?w < ?B" using pw le block_end_gt [of "pos v" "64 - n1"] by auto
    then have B: "block_end (64 - n0) (pos ?w) = ?B" by (intro block_end_same) simp_all
    have dec: "?B - pos ?w < ?B - pos v" using lt by linarith
    obtain es x where x: "scan_expansions h (mask n0) (mask n1) ?w = Some (es, x)"
      "scan_covers ty (concat (ht_table h)) ?w x es" "cursor_end x = ?B"
      using less.hyps [of ?w] dec B m by auto
    have "scan_expansions h (mask n0) (mask n1) v = Some (c @ es, x)"
      using False c(1) x(1) by (subst scan_expansions.simps) simp
    then show ?thesis using scan_covers_join [OF c(2) x(2) w0] x(3) m by auto
  qed
qed

lemma scan_covers_append:
  "scan_covers ty S v w es \<Longrightarrow> scan_covers ty T v w es' \<Longrightarrow> scan_covers ty (S @ T) v w (es @ es')"
  by (auto simp: scan_covers_def)

lemma scan_covers_set: "set S = set T \<Longrightarrow> scan_covers ty S v w es = scan_covers ty T v w es"
  by (simp add: scan_covers_def)

lemma ht_ok_size:
  assumes "ht_ok ty h" "0 < ht_size h"
  obtains n where "ht_size h = 2 ^ n" "n \<le> 63" "word_of_nat (ht_sizemask h) = (mask n :: u64)"
  using assms size_mask by (auto simp: ht_ok_def)

lemma scan_two_tables:
  assumes "ht_ok ty t0" "ht_ok ty t1" "0 < ht_size t0" "ht_size t0 \<le> ht_size t1"
  shows "\<exists>c es w. bucket t0 (unat (v AND word_of_nat (ht_sizemask t0))) = Some c \<and>
    scan_expansions t1 (word_of_nat (ht_sizemask t0)) (word_of_nat (ht_sizemask t1)) v = Some (es, w) \<and>
    scan_covers ty (concat (ht_table t0) @ concat (ht_table t1)) v w (c @ es) \<and>
    pos v < cursor_end w \<and> (\<exists>k. 2 ^ (64 - k) dvd cursor_end w \<and> 2 ^ k = ht_size t0)"
proof -
  obtain n0 where n0: "ht_size t0 = 2 ^ n0" "n0 \<le> 63" "word_of_nat (ht_sizemask t0) = (mask n0 :: u64)"
    using ht_ok_size [OF assms(1,3)] .
  obtain n1 where n1: "ht_size t1 = 2 ^ n1" "n1 \<le> 63" "word_of_nat (ht_sizemask t1) = (mask n1 :: u64)"
    using ht_ok_size [OF assms(2)] assms(3,4) by auto
  have n01: "n0 \<le> n1" using assms(4) n0(1) n1(1) by simp
  obtain es w where e: "scan_expansions t1 (mask n0) (word_of_nat (ht_sizemask t1)) v = Some (es, w)"
    "scan_covers ty (concat (ht_table t1)) v w es" "cursor_end w = block_end (64 - n0) (pos v)"
    using scan_expansions_correct [OF assms(2) n1(1) n01 n1(2)] by blast
  obtain c where "bucket t0 (unat (v AND word_of_nat (ht_sizemask t0))) = Some c"
    "scan_covers ty (concat (ht_table t0)) v w c"
    using scan_covers_bucket [OF assms(1) n0(1,2), of w v] e(3) by auto
  moreover have "2 ^ (64 - n0) dvd cursor_end w" unfolding e(3) block_end_def by simp
  ultimately show ?thesis
    using e n0 block_end_gt [of "pos v" "64 - n0"] by (auto intro: scan_covers_append)
qed

text \<open>The size of the table whose buckets the calls walk: the smaller of the two while rehashing.\<close>

definition scan_size :: "('k, 'v) dict \<Rightarrow> nat" where
  "scan_size d = (if dictIsRehashing d then min (ht_size (ht0 d)) (ht_size (ht1 d)) else ht_size (ht0 d))"

lemma pause_resume [simp]: "dictResumeRehashing (dictPauseRehashing d) = d"
  by (simp add: dictPauseRehashing_def dictResumeRehashing_def)

lemma pause_fields [simp]:
  "ht0 (dictPauseRehashing d) = ht0 d" "ht1 (dictPauseRehashing d) = ht1 d"
  "dictIsRehashing (dictPauseRehashing d) = dictIsRehashing d"
  by (simp_all add: dictPauseRehashing_def dictIsRehashing_def)

lemma dictScan_empty: "dict_inv d \<Longrightarrow> entries d = [] \<Longrightarrow> dictScan d v = Some ([], 0, d)"
  by (simp add: dictScan_def dictSize_entries)

lemma dictScan_step:
  assumes inv: "dict_inv d" and ne: "entries d \<noteq> []"
  shows "\<exists>es w. dictScan d v = Some (es, w, d) \<and> scan_covers (dict_type d) (entries d) v w es \<and>
    pos v < cursor_end w \<and> (\<exists>k. 2 ^ (64 - k) dvd cursor_end w \<and> 2 ^ k = scan_size d)"
proof -
  have ok: "ht_ok (dict_type d) (ht0 d)" "ht_ok (dict_type d) (ht1 d)" using inv by (simp_all add: dict_inv_def)
  have sz: "0 < ht_size (ht0 d)" by (rule inv_size0 [OF inv ne])
  have size: "dictSize d \<noteq> 0" using ne dictSize_entries [OF inv] by simp
  show ?thesis
  proof (cases "dictIsRehashing d")
    case False
    obtain n where n: "ht_size (ht0 d) = 2 ^ n" "n \<le> 63" "word_of_nat (ht_sizemask (ht0 d)) = (mask n :: u64)"
      using ht_ok_size [OF ok(1) sz] .
    let ?w = "next_cursor v (mask n)"
    have w: "cursor_end ?w = block_end (64 - n) (pos v)" using n by (intro cursor_end_next) simp
    obtain c where c: "bucket (ht0 d) (unat (v AND mask n)) = Some c"
      "scan_covers (dict_type d) (concat (ht_table (ht0 d))) v ?w c"
      using scan_covers_bucket [OF ok(1) n(1,2), of ?w v] w n(3) by auto
    have "scan_covers (dict_type d) (entries d) v ?w c"
      using c(2) inv_not_rehashing [OF inv False] by (simp add: entries_def)
    moreover have "dictScan d v = Some (c, ?w, d)" using False size c(1) n(3) by (simp add: dictScan_def)
    moreover have "2 ^ (64 - n) dvd cursor_end ?w" unfolding w block_end_def by simp
    ultimately show ?thesis
      using w block_end_gt [of "pos v" "64 - n"] n(1) False by (auto simp: scan_size_def)
  next
    case True
    have sz1: "0 < ht_size (ht1 d)" using inv_rehashing_sizes [OF inv True] by simp
    show ?thesis
    proof (cases "ht_size (ht0 d) > ht_size (ht1 d)")
      case gt: True
      have "set (concat (ht_table (ht1 d)) @ concat (ht_table (ht0 d))) = set (entries d)"
        by (auto simp: entries_def)
      then have "scan_covers (dict_type d) (concat (ht_table (ht1 d)) @ concat (ht_table (ht0 d))) v w es =
          scan_covers (dict_type d) (entries d) v w es" for w es by (rule scan_covers_set)
      then obtain c es w where r: "bucket (ht1 d) (unat (v AND word_of_nat (ht_sizemask (ht1 d)))) = Some c"
        "scan_expansions (ht0 d) (word_of_nat (ht_sizemask (ht1 d))) (word_of_nat (ht_sizemask (ht0 d))) v = Some (es, w)"
        "scan_covers (dict_type d) (entries d) v w (c @ es)" "pos v < cursor_end w"
        "\<exists>k. 2 ^ (64 - k) dvd cursor_end w \<and> 2 ^ k = ht_size (ht1 d)"
        using scan_two_tables [OF ok(2,1) sz1, of v] gt by auto
      have "dictScan d v = Some (c @ es, w, d)" using r(1,2) gt True size by (simp add: dictScan_def)
      then show ?thesis using r gt True by (simp add: scan_size_def)
    next
      case le: False
      then obtain c es w where r: "bucket (ht0 d) (unat (v AND word_of_nat (ht_sizemask (ht0 d)))) = Some c"
        "scan_expansions (ht1 d) (word_of_nat (ht_sizemask (ht0 d))) (word_of_nat (ht_sizemask (ht1 d))) v = Some (es, w)"
        "scan_covers (dict_type d) (entries d) v w (c @ es)" "pos v < cursor_end w"
        "\<exists>k. 2 ^ (64 - k) dvd cursor_end w \<and> 2 ^ k = ht_size (ht0 d)"
        using scan_two_tables [OF ok sz, of v] by (auto simp: entries_def)
      have "dictScan d v = Some (c @ es, w, d)" using r(1,2) le True size by (simp add: dictScan_def)
      then show ?thesis using r le True by (simp add: scan_size_def)
    qed
  qed
qed

section \<open>A whole scan\<close>

text \<open>
  A scan: one call per dictionary of the list, each with the cursor the call before returned, until
  a call returns 0. The list holds the states of the dictionary at the successive calls; between
  them it may change in any way that keeps the invariant.
\<close>

fun scan_run :: "('k, 'v) dict list \<Rightarrow> u64 \<Rightarrow> ('k, 'v) dictEntry list option" where
  "scan_run [] v = None"
| "scan_run (d # ds) v = do {
     (es, w, _) \<leftarrow> dictScan d v;
     if w = 0 then Some es else map_option ((@) es) (scan_run ds w)
   }"

lemma dictScan_covers:
  assumes "dict_inv d"
  shows "\<exists>es w. dictScan d v = Some (es, w, d) \<and> scan_covers (dict_type d) (entries d) v w es \<and>
    pos v < cursor_end w"
proof (cases "entries d = []")
  case True
  then show ?thesis
    using dictScan_empty [OF assms True] pos_less [of v] by (simp add: scan_covers_def cursor_end_def)
next
  case False
  then show ?thesis using dictScan_step [OF assms False] by blast
qed

lemma dict_map_entry:
  "dict_map d k \<noteq> None \<Longrightarrow> \<exists>e \<in> set (entries d). keq (dict_type d) k (fst e)"
  unfolding dict_map_def by (metis lookup_es_None)

lemma scan_run_covers:
  assumes "\<forall>d \<in> set ds. dict_inv d \<and> dict_type d = ty \<and> dict_map d k \<noteq> None"
    "scan_run ds v = Some es" "pos v \<le> pos (hashFunction ty k)"
  shows "\<exists>e \<in> set es. keq ty k (fst e)"
  using assms
proof (induction ds arbitrary: v es)
  case (Cons d ds)
  have d: "dict_inv d" "dict_type d = ty" "dict_map d k \<noteq> None" using Cons.prems(1) by auto
  obtain es1 w where s: "dictScan d v = Some (es1, w, d)" "scan_covers ty (entries d) v w es1"
    using dictScan_covers [OF d(1)] d(2) by blast
  obtain e where e: "e \<in> set (entries d)" "keq ty k (fst e)" using dict_map_entry [OF d(3)] d(2) by auto
  have h: "epos ty e = pos (hashFunction ty k)"
    using keq_hash [of ty k "fst e"] e(2) d(1,2) by (auto simp: epos_def dict_inv_def)
  show ?case
  proof (cases "epos ty e < cursor_end w")
    case True
    then have "e \<in> set es1" using s(2) e(1) h Cons.prems(3) by (simp add: scan_covers_def)
    moreover have "set es1 \<subseteq> set es" using Cons.prems(2) s(1) by (auto split: if_splits)
    ultimately show ?thesis using e(2) by blast
  next
    case False
    then have w: "w \<noteq> 0" "pos w \<le> pos (hashFunction ty k)"
      using h pos_less [of "hashFunction ty k"] by (auto simp: cursor_end_def split: if_splits)
    then obtain es2 where "scan_run ds w = Some es2" "es = es1 @ es2" using Cons.prems(2) s(1) by auto
    then show ?thesis using Cons.IH [of w es2] Cons.prems(1) w by auto
  qed
qed simp

lemma scan_run_sound:
  assumes "\<forall>d \<in> set ds. dict_inv d" "scan_run ds v = Some es" "e \<in> set es"
  shows "\<exists>d \<in> set ds. e \<in> set (entries d)"
  using assms
proof (induction ds arbitrary: v es)
  case (Cons d ds)
  obtain es1 w where s: "dictScan d v = Some (es1, w, d)" "scan_covers (dict_type d) (entries d) v w es1"
    using dictScan_covers Cons.prems(1) by (metis list.set_intros(1))
  then show ?case
    using Cons.prems Cons.IH [of w] by (auto simp: scan_covers_def split: if_splits)
qed simp

lemma scan_run_ends:
  assumes "\<forall>d \<in> set ds. dict_inv d \<and> scan_size d \<le> 2 ^ N" "N \<le> 64"
    "pos v = q * 2 ^ (64 - N)" "2 ^ N \<le> length ds + q"
  shows "\<exists>es. scan_run ds v = Some es"
  using assms
proof (induction ds arbitrary: v q)
  case Nil
  have "2 ^ 64 = 2 ^ N * (2 :: nat) ^ (64 - N)" using assms(2) by (simp flip: power_add)
  also have "\<dots> \<le> q * 2 ^ (64 - N)" using Nil.prems(4) by (intro mult_le_mono1) simp
  finally show ?case using Nil.prems(3) pos_less [of v] by linarith
next
  case (Cons d ds)
  have d: "dict_inv d" "scan_size d \<le> 2 ^ N" using Cons.prems(1) by auto
  show ?case
  proof (cases "entries d = []")
    case True
    then show ?thesis using dictScan_empty [OF d(1)] by simp
  next
    case False
    obtain es w k where s: "dictScan d v = Some (es, w, d)" "pos v < cursor_end w"
      "2 ^ (64 - k) dvd cursor_end w" "2 ^ k = scan_size d" using dictScan_step [OF d(1) False] by blast
    show ?thesis
    proof (cases "w = 0")
      case True
      then show ?thesis using s(1) by simp
    next
      case w: False
      have "(2 :: nat) ^ k \<le> 2 ^ N" using d(2) s(4) by simp
      then have "k \<le> N" by simp
      then have "2 ^ (64 - N) dvd (2 :: nat) ^ (64 - k)" by (intro le_imp_power_dvd) simp
      then have "2 ^ (64 - N) dvd pos w" using s(3) w by (auto simp: cursor_end_def intro: dvd_trans)
      then obtain q' where q': "pos w = q' * 2 ^ (64 - N)" by (metis dvd_def mult.commute)
      have "q < q'" using s(2) w q' Cons.prems(3) by (simp add: cursor_end_def)
      then have "\<exists>es. scan_run ds w = Some es"
        using Cons.IH [of w q'] Cons.prems q' by auto
      then show ?thesis using s(1) w by auto
    qed
  qed
qed

end
