(* ===== verification/Dict_Demo.thy ===== *)
theory Dict_Demo
  imports Dict_Update
begin

text \<open>
  A concrete dictionary in the middle of a rehash from 4 to 8 buckets: bucket 0 has been moved,
  the key 4 is in the new table, the keys 1 and 2 are in the old one.
\<close>

definition demo_type :: "nat dictType" where
  "demo_type = \<lparr>hashFunction = word_of_nat, keyCompare = None, expandAllowed = None\<rparr>"

definition demo_dict :: "(nat, nat) dict" where
  "demo_dict =
     \<lparr>dict_type = demo_type,
      ht0 = \<lparr>ht_table = [[], [(1, Some 10)], [(2, Some 20)], []], ht_size = 4, ht_sizemask = 3, ht_used = 2\<rparr>,
      ht1 = \<lparr>ht_table = [[], [], [], [], [(4, Some 40)], [], [], []], ht_size = 8, ht_sizemask = 7, ht_used = 1\<rparr>,
      rehashidx = 1, pauserehash = 0\<rparr>"

lemma keq_demo [simp]: "keq demo_type a b \<longleftrightarrow> a = b"
  by (auto simp: keq_def dictCompareKeys_def demo_type_def)

lemma dtype_ok_demo [simp]: "dtype_ok demo_type"
  by (simp add: dtype_ok_def)

lemma entries_demo: "entries demo_dict = [(1, Some 10), (2, Some 20), (4, Some 40)]"
  by (simp add: entries_def demo_dict_def)

lemma dict_map_demo: "dict_map demo_dict k =
    (if k = 1 then Some (Some 10) else if k = 2 then Some (Some 20) else if k = 4 then Some (Some 40) else None)"
  unfolding dict_map_def entries_demo by (simp add: lookup_es_def demo_dict_def)

lemma pow2_sizes: "\<exists>n \<le> 63. (4 :: nat) = 2 ^ n \<and> (3 :: nat) = 2 ^ n - 1" "\<exists>n \<le> 63. (8 :: nat) = 2 ^ n \<and> (7 :: nat) = 2 ^ n - 1"
  by (rule exI [of _ 2], simp) (rule exI [of _ 3], simp)

lemma placed_enumerate:
  "placed ty T m \<longleftrightarrow> (\<forall>(i, c) \<in> set (enumerate 0 T). \<forall>e \<in> set c. hidx (hashFunction ty (fst e)) m = i)"
proof -
  have "set (enumerate 0 T) = (\<lambda>i. (i, T ! i)) ` {..<length T}" by (force simp: enumerate_eq_zip set_zip)
  then show ?thesis by (simp add: placed_def) (meson lessThan_iff)
qed

lemma demo_inv: "dict_inv demo_dict"
proof -
  have "placed demo_type (ht_table (ht0 demo_dict)) 3" "placed demo_type (ht_table (ht1 demo_dict)) 7"
    unfolding placed_enumerate by (simp_all add: demo_dict_def demo_type_def hidx_def)
  then have "ht_ok demo_type (ht0 demo_dict)" "ht_ok demo_type (ht1 demo_dict)"
    using pow2_sizes by (simp_all add: ht_ok_def demo_dict_def)
  moreover have "uniq demo_type (entries demo_dict)" unfolding entries_demo by (simp add: uniq_def)
  moreover have "rehash_ok demo_dict" by (simp add: rehash_ok_def demo_dict_def)
  ultimately show ?thesis by (simp add: dict_inv_def demo_dict_def)
qed

lemma demo_room: "dict_room demo_dict"
  by (simp add: dict_room_def entries_demo)

lemma demo_fields: "dict_type demo_dict = demo_type" "dictSize demo_dict = 3" "dictIsRehashing demo_dict"
  by (simp_all add: demo_dict_def dictSize_def dictIsRehashing_def)

end
