(* ===== verification/Interfaces.thy ===== *)
theory Interfaces
  imports Redis_Prelude "HOL-Library.Monad_Syntax"
begin

text \<open>
  The contracts of the containers: a mutable set, map and sequence with an invariant, an
  abstraction to the mathematical object and a bound on the size. A client that runs any sequence
  of operations gets the answers the mathematical object gives; this is proved once per contract
  and holds of every container that is shown to implement it.
\<close>

section \<open>Sets\<close>

datatype 'a set_op = SAdd 'a | SRem 'a | SMem 'a

fun set_op_arg :: "'a set_op \<Rightarrow> 'a" where
  "set_op_arg (SAdd x) = x"
| "set_op_arg (SRem x) = x"
| "set_op_arg (SMem x) = x"

text \<open>Running operations on the container: the answers and the final state.\<close>

fun run_set ::
  "('s \<Rightarrow> 'a \<Rightarrow> ('s \<times> bool) option) \<Rightarrow> ('s \<Rightarrow> 'a \<Rightarrow> ('s \<times> bool) option) \<Rightarrow> ('s \<Rightarrow> 'a \<Rightarrow> bool option) \<Rightarrow>
   's \<Rightarrow> 'a set_op list \<Rightarrow> (bool list \<times> 's) option" where
  "run_set add rem mem s [] = Some ([], s)"
| "run_set add rem mem s (SAdd x # ops) = do {
     (s, b) \<leftarrow> add s x; (bs, s) \<leftarrow> run_set add rem mem s ops; Some (b # bs, s) }"
| "run_set add rem mem s (SRem x # ops) = do {
     (s, b) \<leftarrow> rem s x; (bs, s) \<leftarrow> run_set add rem mem s ops; Some (b # bs, s) }"
| "run_set add rem mem s (SMem x # ops) = do {
     b \<leftarrow> mem s x; (bs, s) \<leftarrow> run_set add rem mem s ops; Some (b # bs, s) }"

text \<open>The same operations on a mathematical set.\<close>

fun spec_set :: "'a set \<Rightarrow> 'a set_op list \<Rightarrow> bool list \<times> 'a set" where
  "spec_set A [] = ([], A)"
| "spec_set A (SAdd x # ops) = (let (bs, B) = spec_set (insert x A) ops in ((x \<notin> A) # bs, B))"
| "spec_set A (SRem x # ops) = (let (bs, B) = spec_set (A - {x}) ops in ((x \<in> A) # bs, B))"
| "spec_set A (SMem x # ops) = (let (bs, B) = spec_set A ops in ((x \<in> A) # bs, B))"

locale set_store =
  fixes inv :: "'s \<Rightarrow> bool" and abs :: "'s \<Rightarrow> 'a set" and size :: "'s \<Rightarrow> nat" and cap :: nat
    and ok :: "'a \<Rightarrow> bool"
    and add :: "'s \<Rightarrow> 'a \<Rightarrow> ('s \<times> bool) option" and rem :: "'s \<Rightarrow> 'a \<Rightarrow> ('s \<times> bool) option"
    and mem :: "'s \<Rightarrow> 'a \<Rightarrow> bool option"
  assumes add_law: "inv s \<Longrightarrow> size s < cap \<Longrightarrow> ok x \<Longrightarrow>
      \<exists>s'. add s x = Some (s', x \<notin> abs s) \<and> inv s' \<and> abs s' = insert x (abs s) \<and> size s' \<le> Suc (size s)"
    and rem_law: "inv s \<Longrightarrow> size s < cap \<Longrightarrow> ok x \<Longrightarrow>
      \<exists>s'. rem s x = Some (s', x \<in> abs s) \<and> inv s' \<and> abs s' = abs s - {x} \<and> size s' \<le> size s"
    and mem_law: "inv s \<Longrightarrow> ok x \<Longrightarrow> mem s x = Some (x \<in> abs s)"
begin

lemma run_refines:
  assumes "inv s" "size s + length ops \<le> cap" "\<forall>x \<in> set ops. ok (set_op_arg x)"
  shows "\<exists>s'. run_set add rem mem s ops = Some (fst (spec_set (abs s) ops), s') \<and> inv s' \<and>
    abs s' = snd (spec_set (abs s) ops)"
  using assms
proof (induction ops arbitrary: s)
  case (Cons op ops)
  have c: "size s < cap" and k: "ok (set_op_arg op)" using Cons.prems by auto
  show ?case
  proof (cases op)
    case (SAdd x)
    then obtain s' where s': "add s x = Some (s', x \<notin> abs s)" "inv s'" "abs s' = insert x (abs s)" "size s' \<le> Suc (size s)"
      using add_law [OF Cons.prems(1) c] k by auto
    then show ?thesis using SAdd Cons.IH [of s'] Cons.prems by (auto simp: Let_def split: prod.splits)
  next
    case (SRem x)
    then obtain s' where s': "rem s x = Some (s', x \<in> abs s)" "inv s'" "abs s' = abs s - {x}" "size s' \<le> size s"
      using rem_law [OF Cons.prems(1) c] k by auto
    then show ?thesis using SRem Cons.IH [of s'] Cons.prems by (auto simp: Let_def split: prod.splits)
  next
    case (SMem x)
    then show ?thesis
      using mem_law [OF Cons.prems(1)] k Cons.IH [of s] Cons.prems by (auto simp: Let_def split: prod.splits)
  qed
qed simp

end

section \<open>Maps\<close>

datatype ('k, 'v) map_op = MGet 'k | MPut 'k 'v | MDel 'k

datatype 'v map_answer = Value "'v option" | Flag bool

fun run_map ::
  "('s \<Rightarrow> 'k \<Rightarrow> ('v option \<times> 's) option) \<Rightarrow> ('s \<Rightarrow> 'k \<Rightarrow> 'v \<Rightarrow> (bool \<times> 's) option) \<Rightarrow>
   ('s \<Rightarrow> 'k \<Rightarrow> (bool \<times> 's) option) \<Rightarrow> 's \<Rightarrow> ('k, 'v) map_op list \<Rightarrow> ('v map_answer list \<times> 's) option" where
  "run_map get put del s [] = Some ([], s)"
| "run_map get put del s (MGet k # ops) = do {
     (v, s) \<leftarrow> get s k; (as, s) \<leftarrow> run_map get put del s ops; Some (Value v # as, s) }"
| "run_map get put del s (MPut k v # ops) = do {
     (b, s) \<leftarrow> put s k v; (as, s) \<leftarrow> run_map get put del s ops; Some (Flag b # as, s) }"
| "run_map get put del s (MDel k # ops) = do {
     (b, s) \<leftarrow> del s k; (as, s) \<leftarrow> run_map get put del s ops; Some (Flag b # as, s) }"

text \<open>The operations on a mathematical map, where \<open>eq\<close> says which keys are the same.\<close>

fun spec_map ::
  "('k \<Rightarrow> 'k \<Rightarrow> bool) \<Rightarrow> ('k \<Rightarrow> 'v option) \<Rightarrow> ('k, 'v) map_op list \<Rightarrow> 'v map_answer list \<times> ('k \<Rightarrow> 'v option)" where
  "spec_map eq m [] = ([], m)"
| "spec_map eq m (MGet k # ops) = (let (as, m') = spec_map eq m ops in (Value (m k) # as, m'))"
| "spec_map eq m (MPut k v # ops) =
     (let (as, m') = spec_map eq (\<lambda>x. if eq x k then Some v else m x) ops in (Flag (m k = None) # as, m'))"
| "spec_map eq m (MDel k # ops) =
     (let (as, m') = spec_map eq (\<lambda>x. if eq x k then None else m x) ops in (Flag (m k \<noteq> None) # as, m'))"

locale map_store =
  fixes inv :: "'s \<Rightarrow> bool" and abs :: "'s \<Rightarrow> 'k \<Rightarrow> 'v option" and size :: "'s \<Rightarrow> nat" and cap :: nat
    and eq :: "'k \<Rightarrow> 'k \<Rightarrow> bool"
    and get :: "'s \<Rightarrow> 'k \<Rightarrow> ('v option \<times> 's) option" and put :: "'s \<Rightarrow> 'k \<Rightarrow> 'v \<Rightarrow> (bool \<times> 's) option"
    and del :: "'s \<Rightarrow> 'k \<Rightarrow> (bool \<times> 's) option"
  assumes get_law: "inv s \<Longrightarrow>
      \<exists>s'. get s k = Some (abs s k, s') \<and> inv s' \<and> abs s' = abs s \<and> size s' = size s"
    and put_law: "inv s \<Longrightarrow> size s < cap \<Longrightarrow>
      \<exists>s'. put s k v = Some (abs s k = None, s') \<and> inv s' \<and> abs s' = (\<lambda>x. if eq x k then Some v else abs s x) \<and>
        size s' \<le> Suc (size s)"
    and del_law: "inv s \<Longrightarrow>
      \<exists>s'. del s k = Some (abs s k \<noteq> None, s') \<and> inv s' \<and> abs s' = (\<lambda>x. if eq x k then None else abs s x) \<and>
        size s' \<le> size s"
begin

lemma run_refines:
  assumes "inv s" "size s + length ops \<le> cap"
  shows "\<exists>s'. run_map get put del s ops = Some (fst (spec_map eq (abs s) ops), s') \<and> inv s' \<and>
    abs s' = snd (spec_map eq (abs s) ops)"
  using assms
proof (induction ops arbitrary: s)
  case (Cons op ops)
  show ?case
  proof (cases op)
    case (MGet k)
    obtain s' where s': "get s k = Some (abs s k, s')" "inv s'" "abs s' = abs s" "size s' = size s"
      using get_law [OF Cons.prems(1)] by blast
    then show ?thesis using MGet Cons.IH [of s'] Cons.prems by (auto simp: Let_def split: prod.splits)
  next
    case (MPut k v)
    obtain s' where s': "put s k v = Some (abs s k = None, s')" "inv s'"
      "abs s' = (\<lambda>x. if eq x k then Some v else abs s x)" "size s' \<le> Suc (size s)"
      using put_law [OF Cons.prems(1), of k v] Cons.prems(2) by auto
    then show ?thesis using MPut Cons.IH [of s'] Cons.prems by (auto simp: Let_def split: prod.splits)
  next
    case (MDel k)
    obtain s' where s': "del s k = Some (abs s k \<noteq> None, s')" "inv s'"
      "abs s' = (\<lambda>x. if eq x k then None else abs s x)" "size s' \<le> size s"
      using del_law [OF Cons.prems(1), of k] by blast
    then show ?thesis using MDel Cons.IH [of s'] Cons.prems by (auto simp: Let_def split: prod.splits)
  qed
qed simp

end

section \<open>Sequences\<close>

text \<open>
  A mutable sequence with insertion at both ends, deletion and lookup at a position, and rotation
  in both directions.
\<close>

datatype 'v seq_op = QPush_head 'v | QPush_tail 'v | QDel nat | QGet int | QRotate_tail | QRotate_head

fun seq_at :: "'v list \<Rightarrow> int \<Rightarrow> 'v option" where
  "seq_at xs i =
     (let j = (if i < 0 then int (length xs) + i else i) in
      if 0 \<le> j \<and> j < int (length xs) then Some (xs ! nat j) else None)"

fun seq_del :: "nat \<Rightarrow> 'v list \<Rightarrow> 'v list" where
  "seq_del i xs = take i xs @ drop (Suc i) xs"

fun seq_rotate_tail :: "'v list \<Rightarrow> 'v list" where
  "seq_rotate_tail xs = (if xs = [] then [] else last xs # butlast xs)"

fun spec_seq :: "'v list \<Rightarrow> 'v seq_op list \<Rightarrow> 'v option list \<times> 'v list" where
  "spec_seq xs [] = ([], xs)"
| "spec_seq xs (QPush_head v # ops) = spec_seq (v # xs) ops"
| "spec_seq xs (QPush_tail v # ops) = spec_seq (xs @ [v]) ops"
| "spec_seq xs (QDel i # ops) = spec_seq (seq_del i xs) ops"
| "spec_seq xs (QGet i # ops) = (let (as, ys) = spec_seq xs ops in (seq_at xs i # as, ys))"
| "spec_seq xs (QRotate_tail # ops) = spec_seq (seq_rotate_tail xs) ops"
| "spec_seq xs (QRotate_head # ops) = spec_seq (rotate1 xs) ops"

fun run_seq ::
  "('s \<Rightarrow> 'v \<Rightarrow> 's option) \<Rightarrow> ('s \<Rightarrow> 'v \<Rightarrow> 's option) \<Rightarrow> ('s \<Rightarrow> nat \<Rightarrow> 's option) \<Rightarrow> ('s \<Rightarrow> int \<Rightarrow> 'v option option) \<Rightarrow>
   ('s \<Rightarrow> 's option) \<Rightarrow> ('s \<Rightarrow> 's option) \<Rightarrow> 's \<Rightarrow> 'v seq_op list \<Rightarrow> ('v option list \<times> 's) option" where
  "run_seq ph pt del get rt rh s [] = Some ([], s)"
| "run_seq ph pt del get rt rh s (op # ops) =
     (case op of
        QPush_head v \<Rightarrow> do { s \<leftarrow> ph s v; run_seq ph pt del get rt rh s ops }
      | QPush_tail v \<Rightarrow> do { s \<leftarrow> pt s v; run_seq ph pt del get rt rh s ops }
      | QDel i \<Rightarrow> do { s \<leftarrow> del s i; run_seq ph pt del get rt rh s ops }
      | QGet i \<Rightarrow> do { a \<leftarrow> get s i; (as, s) \<leftarrow> run_seq ph pt del get rt rh s ops; Some (a # as, s) }
      | QRotate_tail \<Rightarrow> do { s \<leftarrow> rt s; run_seq ph pt del get rt rh s ops }
      | QRotate_head \<Rightarrow> do { s \<leftarrow> rh s; run_seq ph pt del get rt rh s ops })"

locale seq_store =
  fixes inv :: "'s \<Rightarrow> 'v list \<Rightarrow> bool" and cap :: nat
    and ph :: "'s \<Rightarrow> 'v \<Rightarrow> 's option" and pt :: "'s \<Rightarrow> 'v \<Rightarrow> 's option" and del :: "'s \<Rightarrow> nat \<Rightarrow> 's option"
    and get :: "'s \<Rightarrow> int \<Rightarrow> 'v option option" and rt :: "'s \<Rightarrow> 's option" and rh :: "'s \<Rightarrow> 's option"
  assumes ph_law: "inv s xs \<Longrightarrow> length xs < cap \<Longrightarrow> \<exists>s'. ph s v = Some s' \<and> inv s' (v # xs)"
    and pt_law: "inv s xs \<Longrightarrow> length xs < cap \<Longrightarrow> \<exists>s'. pt s v = Some s' \<and> inv s' (xs @ [v])"
    and del_law: "inv s xs \<Longrightarrow> \<exists>s'. del s i = Some s' \<and> inv s' (seq_del i xs)"
    and get_law: "inv s xs \<Longrightarrow> get s k = Some (seq_at xs k)"
    and rt_law: "inv s xs \<Longrightarrow> \<exists>s'. rt s = Some s' \<and> inv s' (seq_rotate_tail xs)"
    and rh_law: "inv s xs \<Longrightarrow> \<exists>s'. rh s = Some s' \<and> inv s' (rotate1 xs)"
begin

lemma run_refines:
  assumes "inv s xs" "length xs + length ops \<le> cap"
  shows "\<exists>s'. run_seq ph pt del get rt rh s ops = Some (fst (spec_seq xs ops), s') \<and> inv s' (snd (spec_seq xs ops))"
  using assms
proof (induction ops arbitrary: s xs)
  case (Cons op ops)
  have c: "length xs < cap" using Cons.prems by simp
  show ?case
  proof (cases op)
    case (QPush_head v)
    obtain s' where "ph s v = Some s'" "inv s' (v # xs)" using ph_law [OF Cons.prems(1) c] by blast
    then show ?thesis using QPush_head Cons.IH [of s' "v # xs"] Cons.prems(2) by auto
  next
    case (QPush_tail v)
    obtain s' where "pt s v = Some s'" "inv s' (xs @ [v])" using pt_law [OF Cons.prems(1) c] by blast
    then show ?thesis using QPush_tail Cons.IH [of s' "xs @ [v]"] Cons.prems(2) by auto
  next
    case (QDel i)
    obtain s' where "del s i = Some s'" "inv s' (seq_del i xs)" using del_law [OF Cons.prems(1)] by blast
    then show ?thesis using QDel Cons.IH [of s' "seq_del i xs"] Cons.prems(2) by auto
  next
    case (QGet i)
    then show ?thesis using get_law [OF Cons.prems(1), of i] Cons.IH [OF Cons.prems(1)] Cons.prems(2)
      by (auto split: prod.splits simp del: seq_at.simps)
  next
    case QRotate_tail
    obtain s' where "rt s = Some s'" "inv s' (seq_rotate_tail xs)" using rt_law [OF Cons.prems(1)] by blast
    then show ?thesis using QRotate_tail Cons.IH [of s' "seq_rotate_tail xs"] Cons.prems(2) by auto
  next
    case QRotate_head
    obtain s' where "rh s = Some s'" "inv s' (rotate1 xs)" using rh_law [OF Cons.prems(1)] by blast
    then show ?thesis using QRotate_head Cons.IH [of s' "rotate1 xs"] Cons.prems(2) by auto
  qed
qed simp

end

section \<open>Streams of bytes\<close>

text \<open>
  A sink for bytes with an invariant, the text it holds, and a bound on the memory it uses. It may
  stop to accept bytes; as long as it is open, everything that was put is in the text, in order.
\<close>

fun puts :: "('c \<Rightarrow> char list \<Rightarrow> 'c option) \<Rightarrow> 'c \<Rightarrow> char list list \<Rightarrow> 'c option" where
  "puts put c [] = Some c"
| "puts put c (s # ss) = do { c \<leftarrow> put c s; puts put c ss }"

lemma puts_append: "puts put c (ss @ ts) = Option.bind (puts put c ss) (\<lambda>c. puts put c ts)"
  by (induction ss arbitrary: c) (auto split: Option.bind_splits)

locale byte_sink =
  fixes inv :: "'c \<Rightarrow> bool" and accepting :: "'c \<Rightarrow> bool" and contents :: "'c \<Rightarrow> char list" and used :: "'c \<Rightarrow> nat"
    and cost :: "nat \<Rightarrow> nat" and cap :: nat and put :: "'c \<Rightarrow> char list \<Rightarrow> 'c option"
  assumes put_law: "inv c \<Longrightarrow> used c + cost (length s) < cap \<Longrightarrow>
      \<exists>c'. put c s = Some c' \<and> inv c' \<and> used c' \<le> used c + cost (length s) \<and>
        (accepting c' \<longrightarrow> accepting c \<and> contents c' = contents c @ s)"
begin

lemma puts_correct:
  assumes "inv c" "used c + sum_list (map (\<lambda>s. cost (length s)) ss) < cap"
  shows "\<exists>c'. puts put c ss = Some c' \<and> inv c' \<and> used c' \<le> used c + sum_list (map (\<lambda>s. cost (length s)) ss) \<and>
    (accepting c' \<longrightarrow> accepting c \<and> contents c' = contents c @ concat ss)"
  using assms
proof (induction ss arbitrary: c)
  case (Cons s ss)
  obtain c1 where c1: "put c s = Some c1" "inv c1" "used c1 \<le> used c + cost (length s)"
    "accepting c1 \<longrightarrow> accepting c \<and> contents c1 = contents c @ s"
    using put_law [of c s] Cons.prems by auto
  obtain c2 where c2: "puts put c1 ss = Some c2" "inv c2" "used c2 \<le> used c1 + sum_list (map (\<lambda>s. cost (length s)) ss)"
    "accepting c2 \<longrightarrow> accepting c1 \<and> contents c2 = contents c1 @ concat ss"
    using Cons.IH [OF c1(2)] Cons.prems(2) c1(3) by auto
  show ?case using c1 c2 by auto
qed simp

end

end
