(* ===== verification/Dict_Properties.thy ===== *)
theory Dict_Properties
  imports Dict_Iter Dict_Scan Dict_Demo Interfaces
begin

text \<open>
  What \<^verbatim>\<open>dict.c\<close> promises, in terms of the mapping \<^const>\<open>dict_map\<close> a dictionary stands for and the
  invariant \<^const>\<open>dict_inv\<close> of its two tables. Each operation is total on a dictionary in its
  invariant: the result \<^const>\<open>None\<close>, an access out of bounds or through NULL, does not occur.
\<close>

section \<open>Scanning\<close>

text \<open>
  C3. A scan with \<^verbatim>\<open>dictScan\<close> that starts at cursor 0 and runs until a call returns 0 emits an entry
  for every key that is in the dictionary at each of its calls, whatever insertions, deletions,
  resizes and rehashing steps happen between the calls.
\<close>

theorem scan_complete:
  assumes "\<forall>d \<in> set ds. dict_inv d \<and> dict_type d = ty \<and> dict_map d k \<noteq> None"
    and "scan_run ds 0 = Some es"
  shows "\<exists>e \<in> set es. keq ty k (fst e)"
  by (rule scan_run_covers [OF assms]) simp

text \<open>
  C4. Such a scan ends: when no call meets a table with more than \<open>2 ^ N\<close> buckets (the smaller of the
  two while rehashing), one of the first \<open>2 ^ N\<close> calls returns 0; and every entry emitted was in
  the dictionary at some call.
\<close>

theorem scan_terminates:
  assumes "\<forall>d \<in> set ds. dict_inv d \<and> scan_size d \<le> 2 ^ N" "N \<le> 64" "2 ^ N \<le> length ds"
  shows "\<exists>es. scan_run ds 0 = Some es \<and> (\<forall>e \<in> set es. \<exists>d \<in> set ds. e \<in> set (entries d))"
proof -
  obtain es where es: "scan_run ds 0 = Some es" using scan_run_ends [OF assms(1,2), of 0 0] assms(3) by auto
  then show ?thesis using scan_run_sound [OF _ es] assms(1) by blast
qed

lemma demo_scan_size: "scan_size demo_dict = 4"
  by (simp add: scan_size_def demo_dict_def dictIsRehashing_def)

theorem scan_terminates_witness:
  "\<exists>es. scan_run (replicate 4 demo_dict) 0 = Some es \<and>
     (\<forall>e \<in> set es. \<exists>d \<in> set (replicate 4 demo_dict). e \<in> set (entries d))"
proof (rule scan_terminates [where N = 2])
  show "\<forall>d \<in> set (replicate 4 demo_dict). dict_inv d \<and> scan_size d \<le> 2 ^ 2"
    by (simp add: demo_inv demo_scan_size)
qed simp_all

theorem scan_complete_witness:
  "\<exists>es. scan_run (replicate 4 demo_dict) 0 = Some es \<and> (\<exists>e \<in> set es. keq demo_type 4 (fst e))"
proof -
  define ds where "ds = replicate 4 demo_dict"
  have ds: "set ds = {demo_dict}" "length ds = 4" by (simp_all add: ds_def)
  then have sz: "\<forall>d \<in> set ds. dict_inv d \<and> scan_size d \<le> 2 ^ 2" using demo_inv demo_scan_size by simp
  obtain es where es: "scan_run ds 0 = Some es" using scan_run_ends [OF sz, of 0 0] ds(2) by auto
  have all: "\<forall>d \<in> set ds. dict_inv d \<and> dict_type d = demo_type \<and> dict_map d 4 \<noteq> None"
    using ds(1) demo_inv demo_fields(1) dict_map_demo [of 4] by simp
  show ?thesis using scan_complete [OF all es] es unfolding ds_def by blast
qed

section \<open>The operations\<close>

text \<open>
  C5. \<^verbatim>\<open>dictFind\<close> returns a pointer to the entry of the key, in whichever of the two tables it is, and
  NULL when there is none; the rehashing step it may perform leaves the entries as they were.
\<close>

theorem dictFind_ok:
  assumes "dict_inv d"
  shows "\<exists>r d'. dictFind d k = Some (r, d') \<and> dict_inv d' \<and> dict_map d' = dict_map d \<and>
    mset (entries d') = mset (entries d) \<and>
    (case r of
       None \<Rightarrow> dict_map d k = None
     | Some p \<Rightarrow> \<exists>e. deref d' p = Some e \<and> keq (dict_type d) k (fst e) \<and> dict_map d k = Some (snd e))"
proof -
  obtain r d' where f: "dictFind d k = Some (r, d')" "dict_inv d'" "same_content d d'" "ref_ok d' k r"
    using dictFind_correct [OF assms] by blast
  then show ?thesis
    using same_content_map [OF assms f(3)] by (auto simp: ref_ok_def same_content_def split: option.splits)
qed

theorem dictFind_ok_witness:
  "\<exists>r d'. dictFind demo_dict 4 = Some (r, d') \<and> dict_map d' 4 = Some (Some 40) \<and> r \<noteq> None"
  using dictFind_ok [OF demo_inv, of 4] dict_map_demo [of 4] by (auto split: option.splits)

text \<open>
  C6. \<^verbatim>\<open>dictAdd\<close> on a dictionary with room maps the key to the value and counts it when the key is new,
  and changes neither the mapping nor the size, and says so, when it is there.
\<close>

theorem dictAdd_ok:
  assumes "dict_inv d" "dict_room d"
  shows "\<exists>r d'. dictAdd g d key v = Some (r, d') \<and> dict_inv d' \<and> dict_type d' = dict_type d \<and>
    (if dict_map d key = None
     then r = DICT_OK \<and> dictSize d' = dictSize d + 1 \<and>
       dict_map d' = upd_eq (dict_type d) (dict_map d) key (Some (Some v))
     else r = DICT_ERR \<and> dictSize d' = dictSize d \<and> dict_map d' = dict_map d)"
  using dictAdd_correct [OF assms, of g key v] by blast

theorem dictAdd_ok_witness:
  "\<exists>d'. dictAdd \<lparr>dict_can_resize = True\<rparr> demo_dict 7 70 = Some (DICT_OK, d') \<and> dict_inv d' \<and>
     dictSize d' = 4 \<and> dict_map d' 7 = Some (Some 70) \<and> dict_map d' 4 = Some (Some 40)"
  using dictAdd_ok [OF demo_inv demo_room, of "\<lparr>dict_can_resize = True\<rparr>" 7 70]
  by (auto simp: dict_map_demo demo_fields upd_eq_def)

text \<open>
  \<^verbatim>\<open>dictReplace\<close> maps the key to the value in both cases and returns 1 exactly when the key is new.
\<close>

lemma dictReplace_ok:
  assumes "dict_inv d" "dict_room d"
  shows "\<exists>r d'. dictReplace g d key v = Some (r, d') \<and> dict_inv d' \<and> dict_type d' = dict_type d \<and>
    r = (dict_map d key = None) \<and> dict_map d' = upd_eq (dict_type d) (dict_map d) key (Some (Some v)) \<and>
    dictSize d' = dictSize d + (if r then 1 else 0)"
  using dictReplace_correct [OF assms, of g key v] by blast

text \<open>
  C7. \<^verbatim>\<open>dictDelete\<close> removes the key, and nothing else, from the mapping; it returns an error exactly when
  the key is not there.
\<close>

theorem dictDelete_ok:
  assumes "dict_inv d"
  shows "\<exists>r d'. dictDelete d k = Some (r, d') \<and> dict_inv d' \<and> dict_type d' = dict_type d \<and>
    r = (if dict_map d k = None then DICT_ERR else DICT_OK) \<and>
    dict_map d' = upd_eq (dict_type d) (dict_map d) k None \<and>
    dictSize d' = dictSize d - (if dict_map d k = None then 0 else 1)"
  by (rule dictDelete_correct [OF assms])

theorem dictDelete_ok_witness:
  "\<exists>d'. dictDelete demo_dict 2 = Some (DICT_OK, d') \<and> dict_inv d' \<and> dictSize d' = 2 \<and>
     dict_map d' 2 = None \<and> dict_map d' 4 = Some (Some 40)"
  using dictDelete_ok [OF demo_inv, of 2] by (auto simp: dict_map_demo demo_fields upd_eq_def)

section \<open>Rehashing and iteration\<close>

text \<open>
  C8. Incremental rehashing finishes: \<open>k\<close> calls of \<^verbatim>\<open>dictRehash\<close>, where \<open>k\<close> is more than the number of
  buckets left in the old table, move every entry to the new table, whatever the number of steps
  per call, and leave the entries and the mapping as they were.
\<close>

theorem rehash_finishes:
  assumes "dict_inv d" "n \<noteq> 0" "int (ht_size (ht0 d)) - rehashidx d < int k"
  shows "\<exists>d'. rehash_rounds k n d = Some d' \<and> \<not> dictIsRehashing d' \<and> dict_inv d' \<and>
    mset (entries d') = mset (entries d) \<and> dict_map d' = dict_map d"
proof -
  obtain d' where d': "rehash_rounds k n d = Some d'" "\<not> dictIsRehashing d'" "dict_inv d'" "same_content d d'"
    using rehash_rounds_finish [OF assms(1,2)] assms(3) by blast
  then show ?thesis using same_content_map [OF assms(1) d'(4)] by (simp add: same_content_def)
qed

theorem rehash_finishes_witness:
  "\<exists>d'. rehash_rounds 4 1 demo_dict = Some d' \<and> \<not> dictIsRehashing d' \<and> dict_map d' = dict_map demo_dict"
proof -
  have "int (ht_size (ht0 demo_dict)) - rehashidx demo_dict < int 4" by (simp add: demo_dict_def)
  then show ?thesis using rehash_finishes [OF demo_inv, of 1 4] by auto
qed

text \<open>
  C9. A loop of \<^verbatim>\<open>dictNext\<close> calls over a dictionary that is not changed meanwhile returns each entry
  of the two tables exactly once, for safe and unsafe iterators, and releasing the iterator gives
  back the dictionary, its rehashing pause count included.
\<close>

theorem iterator_visits_all:
  assumes "dict_inv d" "length (entries d) < n"
  shows "\<exists>it'. iter_loop n (if safe then dictGetSafeIterator else dictGetIterator) d =
      Some (entries d, it', if safe then dictPauseRehashing d else d) \<and>
    dictReleaseIterator it' (if safe then dictPauseRehashing d else d) = d"
  by (rule iterate_all [OF assms])

theorem iterator_visits_all_witness:
  "\<exists>it'. iter_loop 4 dictGetSafeIterator demo_dict =
      Some ([(1, Some 10), (2, Some 20), (4, Some 40)], it', dictPauseRehashing demo_dict)"
  using iterator_visits_all [OF demo_inv, of 4 True] by (auto simp: entries_demo)

section \<open>The map contract\<close>

text \<open>The mapping of a dictionary all of whose entries have been given a value.\<close>

definition dict_vals :: "('k, 'v) dict \<Rightarrow> 'k \<Rightarrow> 'v option" where
  "dict_vals d k = Option.bind (dict_map d k) (\<lambda>v. v)"

definition dict_full :: "'k dictType \<Rightarrow> ('k, 'v) dict \<Rightarrow> bool" where
  "dict_full ty d \<longleftrightarrow> dict_inv d \<and> dict_type d = ty \<and> (\<forall>k. dict_map d k \<noteq> Some None)"

definition dict_del :: "('k, 'v) dict \<Rightarrow> 'k \<Rightarrow> (bool \<times> ('k, 'v) dict) option" where
  "dict_del d k = map_option (\<lambda>(r, d). (r = DICT_OK, d)) (dictDelete d k)"

lemma dict_vals_None: "dict_full ty d \<Longrightarrow> dict_vals d k = None \<longleftrightarrow> dict_map d k = None"
  by (cases "dict_map d k") (auto simp: dict_full_def dict_vals_def bind_eq_None_conv dest: spec [of _ k])

interpretation dict_store: map_store "dict_full ty" dict_vals dictSize "LONG_MAX - 1" "keq ty"
  dictFetchValue "dictReplace g" dict_del
  for ty :: "'k dictType" and g
proof unfold_locales
  fix d :: "('k, 'v) dict" and k
  assume d: "dict_full ty d"
  then have inv: "dict_inv d" by (simp add: dict_full_def)
  obtain d' where d': "dictFetchValue d k = Some (dict_vals d k, d')" "dict_inv d'" "same_content d d'"
    using dictFetchValue_correct [OF inv, of k] unfolding dict_vals_def by blast
  show "\<exists>d'. dictFetchValue d k = Some (dict_vals d k, d') \<and> dict_full ty d' \<and>
      dict_vals d' = dict_vals d \<and> dictSize d' = dictSize d"
    using d d' same_content_map [OF inv d'(3)] same_content_size [OF inv d'(2,3)]
    by (auto simp: dict_full_def same_content_def dict_vals_def fun_eq_iff)
next
  fix d :: "('k, 'v) dict" and k v
  assume d: "dict_full ty d" "dictSize d < LONG_MAX - 1"
  then have inv: "dict_inv d" and room: "dict_room d"
    using dictSize_entries [of d] by (auto simp: dict_full_def dict_room_def)
  obtain r d' where d': "dictReplace g d k v = Some (r, d')" "dict_inv d'" "dict_type d' = dict_type d"
    "r = (dict_map d k = None)" "dict_map d' = upd_eq (dict_type d) (dict_map d) k (Some (Some v))"
    "dictSize d' = dictSize d + (if r then 1 else 0)"
    using dictReplace_correct [OF inv room, of g k v] by blast
  then show "\<exists>d'. dictReplace g d k v = Some (dict_vals d k = None, d') \<and> dict_full ty d' \<and>
      dict_vals d' = (\<lambda>x. if keq ty x k then Some v else dict_vals d x) \<and> dictSize d' \<le> Suc (dictSize d)"
    using d(1) dict_vals_None [OF d(1), of k]
    by (auto simp: dict_full_def upd_eq_def dict_vals_def fun_eq_iff)
next
  fix d :: "('k, 'v) dict" and k
  assume d: "dict_full ty d"
  then have inv: "dict_inv d" by (simp add: dict_full_def)
  obtain d' where d': "dict_del d k = Some (dict_map d k \<noteq> None, d')" "dict_inv d'" "dict_type d' = dict_type d"
    "dict_map d' = upd_eq (dict_type d) (dict_map d) k None" "dictSize d' \<le> dictSize d"
    using dictDelete_correct [OF inv, of k] by (auto simp: dict_del_def)
  then show "\<exists>d'. dict_del d k = Some (dict_vals d k \<noteq> None, d') \<and> dict_full ty d' \<and>
      dict_vals d' = (\<lambda>x. if keq ty x k then None else dict_vals d x) \<and> dictSize d' \<le> dictSize d"
    using d dict_vals_None [OF d, of k]
    by (auto simp: dict_full_def upd_eq_def dict_vals_def fun_eq_iff)
qed

text \<open>
  C10. Any sequence of \<^verbatim>\<open>dictFetchValue\<close>, \<^verbatim>\<open>dictReplace\<close> and \<^verbatim>\<open>dictDelete\<close> calls on a new
  dictionary answers as a mathematical map on the keys does, two keys being the same when the
  type's comparison says so, through all the table expansions and rehashing steps the calls cause.
\<close>

theorem dict_refines_map:
  fixes ty :: "'k dictType" and ops :: "('k, 'v) map_op list"
  assumes "dtype_ok ty" "length ops < LONG_MAX"
  shows "\<exists>d'. run_map dictFetchValue (dictReplace g) dict_del (dictCreate ty) ops =
      Some (fst (spec_map (keq ty) (\<lambda>_. None) ops), d') \<and> dict_inv d' \<and>
    dict_vals d' = snd (spec_map (keq ty) (\<lambda>_. None) ops)"
proof -
  let ?d = "dictCreate ty :: ('k, 'v) dict"
  have e: "dict_vals ?d = (\<lambda>_. None)" by (simp add: dict_vals_def dictCreate_map fun_eq_iff)
  have "dict_type ?d = ty" by (simp add: dictCreate_def i_dictInit_def)
  then have full: "dict_full ty ?d" using dictCreate_inv [OF assms(1)] by (simp add: dict_full_def dictCreate_map)
  have "dictSize ?d = 0" by (simp add: dictSize_def dictCreate_def i_dictInit_def i_dictReset_def)
  then have len: "dictSize ?d + length ops \<le> LONG_MAX - 1" using assms(2) by simp
  show ?thesis
    using dict_store.run_refines [OF full len, of g] unfolding e dict_full_def by blast
qed

theorem dict_refines_map_witness:
  "\<exists>d'. run_map dictFetchValue (dictReplace \<lparr>dict_can_resize = True\<rparr>) dict_del (dictCreate demo_type)
      [MPut 3 30, MPut 7 70, MPut 3 31, MGet 3, MDel 7, MGet 7] =
    Some ([Flag True, Flag True, Flag False, Value (Some 31), Flag True, Value None], d')"
  using dict_refines_map [OF dtype_ok_demo, of "[MPut 3 30, MPut 7 70, MPut 3 31, MGet 3, MDel 7, MGet 7]"
      "\<lparr>dict_can_resize = True\<rparr>"] by (auto simp: Let_def)

end
