(* ===== verification/Bytes.thy ===== *)
theory Bytes
  imports Redis_Prelude
begin

text \<open>
  Memory as lists of bytes: little-endian integers of any width, loads and stores at an offset
  that fail out of bounds, and \<open>memmove\<close>. The host is taken to be little-endian, where the
  macros \<^verbatim>\<open>memrev16ifbe\<close>, \<^verbatim>\<open>intrev32ifbe\<close> and their likes do nothing.
\<close>

fun le_bytes :: "nat \<Rightarrow> nat \<Rightarrow> u8 list" where
  "le_bytes 0 n = []"
| "le_bytes (Suc k) n = word_of_nat n # le_bytes k (n div 256)"

fun le_val :: "u8 list \<Rightarrow> nat" where
  "le_val [] = 0"
| "le_val (b # bs) = unat b + 256 * le_val bs"

definition store_sint :: "nat \<Rightarrow> int \<Rightarrow> u8 list" where
  "store_sint k v = le_bytes k (nat (v mod 256 ^ k))"

definition load_sint :: "u8 list \<Rightarrow> int" where
  "load_sint bs =
     (if 2 * int (le_val bs) \<ge> 256 ^ length bs then int (le_val bs) - 256 ^ length bs else int (le_val bs))"

definition sint_range :: "nat \<Rightarrow> int \<Rightarrow> bool" where
  "sint_range k v \<longleftrightarrow> - (256 ^ k) \<le> 2 * v \<and> 2 * v < 256 ^ k"

definition load_at :: "nat \<Rightarrow> nat \<Rightarrow> 'a list \<Rightarrow> 'a list option" where
  "load_at off n m = (if off + n \<le> length m then Some (take n (drop off m)) else None)"

definition store_at :: "nat \<Rightarrow> 'a list \<Rightarrow> 'a list \<Rightarrow> 'a list option" where
  "store_at off bs m =
     (if off + length bs \<le> length m then Some (take off m @ bs @ drop (off + length bs) m) else None)"

definition memmove :: "nat \<Rightarrow> nat \<Rightarrow> nat \<Rightarrow> 'a list \<Rightarrow> 'a list option" where
  "memmove dst src n m = Option.bind (load_at src n m) (\<lambda>bs. store_at dst bs m)"

text \<open>\<open>realloc\<close>: the bytes that are kept, and bytes with unknown contents \<open>junk\<close> beyond them.\<close>

definition realloc :: "(nat \<Rightarrow> 'a) \<Rightarrow> nat \<Rightarrow> 'a list \<Rightarrow> 'a list" where
  "realloc junk n m = take n m @ map junk [length m..<n]"

section \<open>Little-endian integers\<close>

lemma length_le_bytes [simp]: "length (le_bytes k n) = k"
  by (induction k arbitrary: n) auto

lemma unat_word_of_nat_u8: "unat (word_of_nat n :: u8) = n mod 256"
  by (simp add: unat_of_nat)

lemma le_val_le_bytes: "le_val (le_bytes k n) = n mod 256 ^ k"
proof (induction k arbitrary: n)
  case (Suc k)
  have "n mod (256 * 256 ^ k) = 256 * (n div 256 mod 256 ^ k) + n mod 256" by (rule mod_mult2_eq)
  then show ?case using Suc by (simp add: unat_word_of_nat_u8)
qed simp

lemma unat_u8_less: "unat (b :: u8) < 256"
  using unsigned_less [of b] by simp

lemma le_val_less: "le_val bs < 256 ^ length bs"
proof (induction bs)
  case (Cons b bs)
  have "unat b < 256" by (rule unat_u8_less)
  then have "unat b + 256 * le_val bs < 256 * Suc (le_val bs)" by simp
  also have "\<dots> \<le> 256 * 256 ^ length bs" using Cons by (intro mult_le_mono2) simp
  finally show ?case by simp
qed simp

lemma int_le_val_less: "int (le_val bs) < 256 ^ length bs"
  using le_val_less [of bs] by (metis of_nat_less_iff of_nat_numeral of_nat_power)

lemma le_bytes_le_val: "le_bytes (length bs) (le_val bs) = bs"
proof (induction bs)
  case (Cons b bs)
  have b: "unat b < 256" by (rule unat_u8_less)
  have "word_of_nat (unat b + 256 * le_val bs) = (b :: u8)"
  proof -
    have "(256 :: u8) = 0" by simp
    then have "256 * x = 0" for x :: u8 by (simp only: mult_zero_left)
    then show ?thesis by simp
  qed
  then show ?case using Cons b by simp
qed simp

lemma length_store_sint [simp]: "length (store_sint k v) = k"
  by (simp add: store_sint_def)

lemma load_store_sint:
  assumes "sint_range k v"
  shows "load_sint (store_sint k v) = v"
proof -
  have p: "(0 :: int) < 256 ^ k" by simp
  have l: "le_val (store_sint k v) = nat (v mod 256 ^ k)"
    using p by (simp add: store_sint_def le_val_le_bytes nat_mod_distrib flip: nat_power_eq)
  show ?thesis
  proof (cases "0 \<le> v")
    case True
    then have "v mod 256 ^ k = v" using assms by (simp add: sint_range_def)
    then show ?thesis using True assms l by (simp add: load_sint_def sint_range_def)
  next
    case False
    have "v mod 256 ^ k = (v + 256 ^ k) mod 256 ^ k" by simp
    also have "\<dots> = v + 256 ^ k" using False assms p by (intro mod_pos_pos_trivial) (auto simp: sint_range_def)
    finally have "v mod 256 ^ k = v + 256 ^ k" .
    then show ?thesis using False assms l by (simp add: load_sint_def sint_range_def)
  qed
qed

lemma load_sint_range: "bs \<noteq> [] \<Longrightarrow> sint_range (length bs) (load_sint bs)"
proof -
  define n p where "n = int (le_val bs)" and "p = (256 :: int) ^ length bs"
  have "0 \<le> n" "n < p" using int_le_val_less [of bs] by (simp_all add: n_def p_def)
  then show ?thesis unfolding load_sint_def sint_range_def n_def [symmetric] p_def [symmetric] by auto
qed

lemma store_load_sint:
  assumes "bs \<noteq> []"
  shows "store_sint (length bs) (load_sint bs) = bs"
proof -
  have "load_sint bs mod 256 ^ length bs = int (le_val bs)"
    using int_le_val_less [of bs] by (auto simp: load_sint_def)
  then show ?thesis by (simp add: store_sint_def le_bytes_le_val)
qed

end
