(* ===== verification/Intset.thy ===== *)
theory Intset
  imports Bytes "HOL-Library.Monad_Syntax"
begin

text \<open>
  The integer set of \<^verbatim>\<open>intset.c\<close>: a sorted array of integers in a block of bytes, each element in
  2, 4 or 8 bytes. The whole array is widened when an element does not fit. Positions and
  lengths are natural numbers, values are integers in the 64-bit range; the truncations that
  stores, sizes and byte counts undergo are written out. An access outside the block is the
  result \<^const>\<open>None\<close>.
\<close>

section \<open>The model\<close>

record intset =
  is_encoding :: nat
  is_length :: nat
  contents :: "u8 list"

definition i_intsetValueEncoding :: "int \<Rightarrow> nat" where
  "i_intsetValueEncoding v =
     (if v < -2147483648 \<or> v > 2147483647 then 8
      else if v < -32768 \<or> v > 32767 then 4
      else 2)"

definition i_intsetGetEncoded :: "intset \<Rightarrow> nat \<Rightarrow> nat \<Rightarrow> int option" where
  "i_intsetGetEncoded is pos enc =
     (if enc = 8 then map_option load_sint (load_at (8 * pos) 8 (contents is))
      else if enc = 4 then map_option load_sint (load_at (4 * pos) 4 (contents is))
      else map_option load_sint (load_at (2 * pos) 2 (contents is)))"

definition i_intsetGet :: "intset \<Rightarrow> nat \<Rightarrow> int option" where
  "i_intsetGet is pos = i_intsetGetEncoded is pos (is_encoding is)"

definition i_intsetSet :: "intset \<Rightarrow> nat \<Rightarrow> int \<Rightarrow> intset option" where
  "i_intsetSet is pos v = map_option (\<lambda>c. is\<lparr>contents := c\<rparr>)
     (if is_encoding is = 8 then store_at (8 * pos) (store_sint 8 v) (contents is)
      else if is_encoding is = 4 then store_at (4 * pos) (store_sint 4 v) (contents is)
      else store_at (2 * pos) (store_sint 2 v) (contents is))"

definition intsetNew :: intset where
  "intsetNew = \<lparr>is_encoding = 2, is_length = 0, contents = []\<rparr>"

definition intsetResize :: "(nat \<Rightarrow> u8) \<Rightarrow> intset \<Rightarrow> nat \<Rightarrow> intset" where
  "intsetResize junk is len =
     is\<lparr>contents := realloc junk ((len * is_encoding is) mod 2 ^ 32) (contents is)\<rparr>"

text \<open>
  The binary search; \<open>lo\<close> and \<open>hi\<close> are the C variables \<^verbatim>\<open>min\<close> and \<^verbatim>\<open>max\<close>. The loop returns
  \<open>lo\<close>, \<open>mid\<close> and \<open>cur\<close>; with \<open>0 \<le> lo \<le> hi < 2 ^ 31\<close> the unsigned addition in the computation of
  \<open>mid\<close> does not wrap.
\<close>

function search_loop :: "intset \<Rightarrow> int \<Rightarrow> int \<Rightarrow> int \<Rightarrow> int \<Rightarrow> int \<Rightarrow> (int \<times> int \<times> int) option" where
  "search_loop is v lo hi mid cur =
     (if hi \<ge> lo then
        let mid = (lo + hi) div 2
        in case i_intsetGet is (nat mid) of
             None \<Rightarrow> None
           | Some cur \<Rightarrow>
               if v > cur then search_loop is v (mid + 1) hi mid cur
               else if v < cur then search_loop is v lo (mid - 1) mid cur
               else Some (lo, mid, cur)
      else Some (lo, mid, cur))"
  by pat_completeness auto
termination
  by (relation "measure (\<lambda>(is, v, lo, hi, mid, cur). nat (hi - lo + 1))") auto

declare search_loop.simps [simp del]

definition intsetSearch :: "intset \<Rightarrow> int \<Rightarrow> (bool \<times> nat) option" where
  "intsetSearch is v =
     (if is_length is = 0 then Some (False, 0)
      else do {
        cur \<leftarrow> i_intsetGet is (is_length is - 1);
        if v > cur then Some (False, is_length is)
        else do {
          cur \<leftarrow> i_intsetGet is 0;
          if v < cur then Some (False, 0)
          else do {
            (lo, mid, cur) \<leftarrow> search_loop is v 0 (int (is_length is) - 1) (-1) (-1);
            if v = cur then Some (True, nat mid) else Some (False, nat lo)
          }
        }
      })"

fun upgrade_loop :: "intset \<Rightarrow> nat \<Rightarrow> nat \<Rightarrow> nat \<Rightarrow> intset option" where
  "upgrade_loop is curenc prepend 0 = Some is"
| "upgrade_loop is curenc prepend (Suc n) = do {
     v \<leftarrow> i_intsetGetEncoded is n curenc;
     is \<leftarrow> i_intsetSet is (n + prepend) v;
     upgrade_loop is curenc prepend n
   }"

definition intsetUpgradeAndAdd :: "(nat \<Rightarrow> u8) \<Rightarrow> intset \<Rightarrow> int \<Rightarrow> intset option" where
  "intsetUpgradeAndAdd junk is v = do {
     let curenc = is_encoding is;
     let newenc = i_intsetValueEncoding v;
     let prepend = (if v < 0 then 1 else 0);
     let is = is\<lparr>is_encoding := newenc\<rparr>;
     let is = intsetResize junk is (is_length is + 1);
     is \<leftarrow> upgrade_loop is curenc prepend (is_length is);
     is \<leftarrow> (if prepend \<noteq> 0 then i_intsetSet is 0 v else i_intsetSet is (is_length is) v);
     Some (is\<lparr>is_length := is_length is + 1\<rparr>)
   }"

definition intsetMoveTail :: "intset \<Rightarrow> nat \<Rightarrow> nat \<Rightarrow> intset option" where
  "intsetMoveTail is from to =
     (let n = nat ((int (is_length is) - int from) mod 2 ^ 32)
      in map_option (\<lambda>c. is\<lparr>contents := c\<rparr>)
        (if is_encoding is = 8 then memmove (8 * to) (8 * from) (n * 8 mod 2 ^ 32) (contents is)
         else if is_encoding is = 4 then memmove (4 * to) (4 * from) (n * 4 mod 2 ^ 32) (contents is)
         else memmove (2 * to) (2 * from) (n * 2 mod 2 ^ 32) (contents is)))"

definition intsetAdd :: "(nat \<Rightarrow> u8) \<Rightarrow> intset \<Rightarrow> int \<Rightarrow> (intset \<times> bool) option" where
  "intsetAdd junk is v =
     (if i_intsetValueEncoding v > is_encoding is
      then map_option (\<lambda>is. (is, True)) (intsetUpgradeAndAdd junk is v)
      else do {
        (found, pos) \<leftarrow> intsetSearch is v;
        if found then Some (is, False)
        else do {
          let is = intsetResize junk is (is_length is + 1);
          is \<leftarrow> (if pos < is_length is then intsetMoveTail is pos (pos + 1) else Some is);
          is \<leftarrow> i_intsetSet is pos v;
          Some (is\<lparr>is_length := is_length is + 1\<rparr>, True)
        }
      })"

definition intsetRemove :: "(nat \<Rightarrow> u8) \<Rightarrow> intset \<Rightarrow> int \<Rightarrow> (intset \<times> bool) option" where
  "intsetRemove junk is v =
     (if i_intsetValueEncoding v \<le> is_encoding is then do {
        (found, pos) \<leftarrow> intsetSearch is v;
        if found then do {
          let len = is_length is;
          is \<leftarrow> (if pos < len - 1 then intsetMoveTail is (pos + 1) pos else Some is);
          let is = intsetResize junk is (len - 1);
          Some (is\<lparr>is_length := len - 1\<rparr>, True)
        } else Some (is, False)
      } else Some (is, False))"

definition intsetFind :: "intset \<Rightarrow> int \<Rightarrow> bool option" where
  "intsetFind is v =
     (if i_intsetValueEncoding v \<le> is_encoding is then map_option fst (intsetSearch is v)
      else Some False)"

text \<open>\<^verbatim>\<open>intsetRandom\<close> with the value of \<open>rand()\<close> as an argument; the assertion fails on an empty set.\<close>

definition intsetRandom :: "nat \<Rightarrow> intset \<Rightarrow> int option" where
  "intsetRandom rnd is = (if is_length is = 0 then None else i_intsetGet is (rnd mod is_length is))"

text \<open>The outer option of \<^verbatim>\<open>intsetGet\<close> is failure, the inner one its return value 0 or 1.\<close>

definition intsetGet :: "intset \<Rightarrow> nat \<Rightarrow> int option option" where
  "intsetGet is pos = (if pos < is_length is then map_option Some (i_intsetGet is pos) else Some None)"

definition intsetLen :: "intset \<Rightarrow> nat" where
  "intsetLen is = is_length is"

definition intsetBlobLen :: "intset \<Rightarrow> nat" where
  "intsetBlobLen is = 8 + is_length is * is_encoding is"

fun validate_loop :: "intset \<Rightarrow> nat \<Rightarrow> int \<Rightarrow> nat \<Rightarrow> bool option" where
  "validate_loop is i prev 0 = Some True"
| "validate_loop is i prev (Suc n) = do {
     cur \<leftarrow> i_intsetGet is i;
     if cur \<le> prev then Some False else validate_loop is (i + 1) cur n
   }"

definition intsetValidateIntegrity :: "u8 list \<Rightarrow> bool \<Rightarrow> bool option" where
  "intsetValidateIntegrity p deep =
     (let size = length p;
          encoding = le_val (take 4 p);
          count = le_val (take 4 (drop 4 p));
          is = \<lparr>is_encoding = encoding, is_length = count, contents = drop 8 p\<rparr>
      in if size < 8 then Some False
         else if encoding \<noteq> 8 \<and> encoding \<noteq> 4 \<and> encoding \<noteq> 2 then Some False
         else if 8 + count * encoding \<noteq> size then Some False
         else if count = 0 then Some False
         else if \<not> deep then Some True
         else do {
           prev \<leftarrow> i_intsetGet is 0;
           validate_loop is 1 prev (count - 1)
         })"

end
