(* ===== verification/Intset_Correct.thy ===== *)
theory Intset_Correct
  imports Intset
begin

text \<open>
  The integer set stands for the strictly increasing list \<open>elems\<close> of its elements. Searching is
  membership, adding and removing are insertion and deletion in that list, and the integrity
  check accepts exactly the blocks of bytes that hold a non-empty integer set.
\<close>

section \<open>Arrays of integers in bytes\<close>

definition arr :: "nat \<Rightarrow> int list \<Rightarrow> u8 list" where
  "arr k xs = concat (map (store_sint k) xs)"

lemma arr_simps [simp]: "arr k [] = []" "arr k (x # xs) = store_sint k x @ arr k xs"
  "arr k (xs @ ys) = arr k xs @ arr k ys"
  by (simp_all add: arr_def)

lemma length_arr [simp]: "length (arr k xs) = k * length xs"
  by (induction xs) auto

lemma take_arr: "take (k * i) (arr k xs) = arr k (take i xs)"
proof (induction xs arbitrary: i)
  case (Cons x xs)
  then show ?case by (cases i) auto
qed simp

lemma drop_arr: "drop (k * i) (arr k xs) = arr k (drop i xs)"
proof (induction xs arbitrary: i)
  case (Cons x xs)
  then show ?case by (cases i) auto
qed simp

lemma load_arr:
  assumes "i < length xs"
  shows "load_at (k * i) k (arr k xs) = Some (store_sint k (xs ! i))"
proof -
  have "k * i + k = k * (i + 1)" by simp
  also have "\<dots> \<le> k * length xs" using assms by (intro mult_le_mono2) simp
  finally have "k * i + k \<le> length (arr k xs)" by simp
  moreover have "drop i xs = xs ! i # drop (Suc i) xs" using assms by (simp add: Cons_nth_drop_Suc)
  ultimately show ?thesis by (simp add: load_at_def drop_arr)
qed

lemma store_arr:
  assumes "i < length xs"
  shows "store_at (k * i) (store_sint k v) (arr k xs) = Some (arr k (xs[i := v]))"
proof -
  have e: "k * i + k = k * Suc i" by simp
  have "k * Suc i \<le> k * length xs" using assms by (intro mult_le_mono2) simp
  then have "k * i + k \<le> length (arr k xs)" by (simp add: e)
  moreover have "take (k * i) (arr k xs) @ store_sint k v @ drop (k * i + k) (arr k xs) = arr k (xs[i := v])"
    using assms unfolding e take_arr drop_arr by (simp add: upd_conv_take_nth_drop)
  ultimately show ?thesis by (simp add: store_at_def)
qed

lemma load_arr_list:
  assumes "from + n \<le> length xs"
  shows "load_at (k * from) (n * k) (arr k xs) = Some (arr k (take n (drop from xs)))"
proof -
  have e: "k * from + n * k = k * (from + n)" "n * k = k * n" by (simp_all add: algebra_simps)
  have "k * (from + n) \<le> k * length xs" using assms by (intro mult_le_mono2)
  then have "k * from + n * k \<le> length (arr k xs)" unfolding e(1) length_arr .
  then show ?thesis unfolding load_at_def e(2) drop_arr take_arr by simp
qed

lemma store_arr_list:
  assumes "to + length ys \<le> length xs"
  shows "store_at (k * to) (arr k ys) (arr k xs) = Some (arr k (take to xs @ ys @ drop (to + length ys) xs))"
proof -
  have e: "k * to + k * length ys = k * (to + length ys)" by (simp add: algebra_simps)
  have "k * (to + length ys) \<le> k * length xs" using assms by (intro mult_le_mono2)
  then have "k * to + length (arr k ys) \<le> length (arr k xs)" unfolding length_arr e .
  then show ?thesis unfolding store_at_def length_arr e drop_arr take_arr by simp
qed

lemma memmove_arr:
  assumes "from + n \<le> length xs" "to + n \<le> length xs"
  shows "memmove (k * to) (k * from) (n * k) (arr k xs) =
    Some (arr k (take to xs @ take n (drop from xs) @ drop (to + n) xs))"
  using load_arr_list [OF assms(1), of k] store_arr_list [of to "take n (drop from xs)" xs k] assms
  by (simp add: memmove_def min_absorb2 del: arr_simps)

text \<open>Every block of bytes of the right size is such an array.\<close>

fun dec_arr :: "nat \<Rightarrow> nat \<Rightarrow> u8 list \<Rightarrow> int list" where
  "dec_arr k 0 bs = []"
| "dec_arr k (Suc n) bs = load_sint (take k bs) # dec_arr k n (drop k bs)"

lemma length_dec_arr [simp]: "length (dec_arr k n bs) = n"
  by (induction n arbitrary: bs) auto

lemma arr_dec_arr:
  assumes "0 < k" "length bs = k * n"
  shows "arr k (dec_arr k n bs) = bs"
  using assms(2)
proof (induction n arbitrary: bs)
  case (Suc n)
  have "take k bs \<noteq> []" "length (take k bs) = k" using Suc.prems assms(1) by auto
  then have "store_sint k (load_sint (take k bs)) = take k bs" using store_load_sint [of "take k bs"] by simp
  moreover have "arr k (dec_arr k n (drop k bs)) = drop k bs" using Suc by simp
  ultimately show ?case by simp
qed simp

lemma dec_arr_range:
  assumes "0 < k" "length bs = k * n" "x \<in> set (dec_arr k n bs)"
  shows "sint_range k x"
  using assms(2,3)
proof (induction n arbitrary: bs)
  case (Suc n)
  have "take k bs \<noteq> []" "length (take k bs) = k" using Suc.prems assms(1) by auto
  then show ?case using Suc.prems Suc.IH [of "drop k bs"] load_sint_range [of "take k bs"] by auto
qed simp

lemma dec_arr_arr:
  assumes "\<forall>x \<in> set xs. sint_range k x"
  shows "dec_arr k (length xs) (arr k xs) = xs"
  using assms by (induction xs) (auto simp: load_store_sint)

section \<open>The invariant\<close>

definition elems :: "intset \<Rightarrow> int list" where
  "elems is = dec_arr (is_encoding is) (is_length is) (contents is)"

definition intset_inv :: "intset \<Rightarrow> bool" where
  "intset_inv is \<longleftrightarrow>
     is_encoding is \<in> {2, 4, 8} \<and> length (contents is) = is_encoding is * is_length is \<and>
     sorted_wrt (<) (elems is)"

lemma inv_arr:
  assumes "intset_inv is"
  shows "contents is = arr (is_encoding is) (elems is)" "\<forall>x \<in> set (elems is). sint_range (is_encoding is) x"
    "length (elems is) = is_length is"
proof -
  have k: "0 < is_encoding is" "length (contents is) = is_encoding is * is_length is"
    using assms by (auto simp: intset_inv_def)
  show "contents is = arr (is_encoding is) (elems is)" using arr_dec_arr [OF k] by (simp add: elems_def)
  show "\<forall>x \<in> set (elems is). sint_range (is_encoding is) x" using dec_arr_range [OF k] by (simp add: elems_def)
  show "length (elems is) = is_length is" by (simp add: elems_def)
qed

lemma inv_intro:
  assumes "is_encoding is \<in> {2, 4, 8}" "is_length is = length xs" "contents is = arr (is_encoding is) xs"
    "\<forall>x \<in> set xs. sint_range (is_encoding is) x" "sorted_wrt (<) xs"
  shows "intset_inv is \<and> elems is = xs"
  using assms dec_arr_arr [OF assms(4)] by (simp add: intset_inv_def elems_def)

text \<open>What the accessors do on an array of at least the length needed.\<close>

lemma get_arr:
  assumes "k \<in> {2, 4, 8}" "contents is = arr k xs" "\<forall>x \<in> set xs. sint_range k x" "i < length xs"
  shows "i_intsetGetEncoded is i k = Some (xs ! i)"
  using assms load_arr [OF assms(4), of k] by (auto simp: i_intsetGetEncoded_def load_store_sint)

lemma set_arr:
  assumes "is_encoding is \<in> {2, 4, 8}" "contents is = arr (is_encoding is) xs" "i < length xs"
  shows "i_intsetSet is i v = Some (is\<lparr>contents := arr (is_encoding is) (xs[i := v])\<rparr>)"
  using assms store_arr [OF assms(3), of "is_encoding is" v] by (auto simp: i_intsetSet_def)

lemma inv_get:
  assumes "intset_inv is" "i < is_length is"
  shows "i_intsetGet is i = Some (elems is ! i)"
  using get_arr [of "is_encoding is" "is" "elems is" i] inv_arr [OF assms(1)] assms
  by (simp add: i_intsetGet_def intset_inv_def)

section \<open>Searching\<close>

text \<open>The position of \<open>v\<close> in a sorted list: the number of smaller elements.\<close>

definition ins_pos :: "int \<Rightarrow> int list \<Rightarrow> nat" where
  "ins_pos v xs = length (takeWhile (\<lambda>x. x < v) xs)"

lemma ins_pos_eq:
  assumes "sorted_wrt (<) xs" "i \<le> length xs" "i = 0 \<or> xs ! (i - 1) < v" "i = length xs \<or> v \<le> xs ! i"
  shows "ins_pos v xs = i"
proof -
  have "takeWhile (\<lambda>x. x < v) (take i xs @ drop i xs) = take i xs @ takeWhile (\<lambda>x. x < v) (drop i xs)"
  proof (rule takeWhile_append2)
    fix x assume "x \<in> set (take i xs)"
    then obtain j where j: "j < i" "x = xs ! j" using assms(2) by (auto simp: in_set_conv_nth)
    then have "x \<le> xs ! (i - 1)"
      using assms(1,2) by (cases "j = i - 1") (auto simp: sorted_wrt_iff_nth_less intro: less_imp_le)
    then show "x < v" using assms(3) j by auto
  qed
  moreover have "takeWhile (\<lambda>x. x < v) (drop i xs) = []"
    using assms(2,4) by (cases "i = length xs") (auto simp: Cons_nth_drop_Suc [symmetric])
  ultimately show ?thesis using assms(2) by (simp add: ins_pos_def)
qed

lemma ins_pos_notin:
  fixes xs :: "int list"
  assumes "sorted_wrt (<) xs" "i \<le> length xs" "i = 0 \<or> xs ! (i - 1) < v" "i = length xs \<or> v < xs ! i"
  shows "v \<notin> set xs"
proof
  assume "v \<in> set xs"
  then obtain j where j: "j < length xs" "xs ! j = v" by (auto simp: in_set_conv_nth)
  consider "j < i - 1" | "j = i - 1" "i \<noteq> 0" | "j = i" | "i < j" by linarith
  then show False
  proof cases
    case 1
    then have "i - 1 < length xs" using assms(2) by linarith
    then have "xs ! j < xs ! (i - 1)" using 1 sorted_wrt_nth_less [OF assms(1)] by blast
    moreover have "xs ! (i - 1) < v" using 1 assms(3) by auto
    ultimately show False using j(2) by simp
  next
    case 4
    then have "xs ! i < xs ! j" using j(1) sorted_wrt_nth_less [OF assms(1)] by blast
    moreover have "v < xs ! i" using 4 j(1) assms(4) by auto
    ultimately show False using j(2) by simp
  qed (use assms j in auto)
qed

lemma search_loop_correct:
  assumes inv: "intset_inv is" and "0 \<le> lo" "hi < int (is_length is)" "lo \<le> hi + 1"
    and "lo = 0 \<or> elems is ! nat (lo - 1) < v" "hi + 1 = int (is_length is) \<or> v < elems is ! nat (hi + 1)"
    and "hi < lo \<Longrightarrow> cur \<noteq> v"
  shows "\<exists>lo' mid' cur'. search_loop is v lo hi mid cur = Some (lo', mid', cur') \<and>
    (if cur' = v then 0 \<le> mid' \<and> mid' < int (is_length is) \<and> elems is ! nat mid' = v
     else nat lo' = ins_pos v (elems is) \<and> v \<notin> set (elems is))"
  using assms(2-)
proof (induction "nat (hi - lo + 1)" arbitrary: lo hi mid cur rule: less_induct)
  case less
  let ?m = "(lo + hi) div 2"
  have srt: "sorted_wrt (<) (elems is)" using inv by (simp add: intset_inv_def)
  show ?case
  proof (cases "hi \<ge> lo")
    case False
    then have e: "hi + 1 = lo" using less.prems by simp
    have len: "nat lo \<le> length (elems is)" using less.prems inv_arr(3) [OF inv] by simp
    have a: "nat lo = 0 \<or> elems is ! (nat lo - 1) < v" using less.prems(1,4) by (cases "lo = 0") (auto simp: nat_diff_distrib)
    have b: "nat lo = length (elems is) \<or> v < elems is ! nat lo"
      using less.prems(5) e inv_arr(3) [OF inv] by auto
    have "nat lo = ins_pos v (elems is)" using ins_pos_eq [OF srt len a] b by auto
    then show ?thesis
      using False less.prems(6) ins_pos_notin [OF srt len a b] by (subst search_loop.simps) auto
  next
    case True
    have m: "lo \<le> ?m" "?m \<le> hi" using True by auto
    have g: "i_intsetGet is (nat ?m) = Some (elems is ! nat ?m)"
      using m less.prems(1,2) by (intro inv_get [OF inv]) auto
    let ?c = "elems is ! nat ?m"
    consider (gt) "v > ?c" | (lt) "v < ?c" | (eq) "v = ?c" by linarith
    then show ?thesis
    proof cases
      case gt
      have "search_loop is v lo hi mid cur = search_loop is v (?m + 1) hi ?m ?c"
        by (simp only: search_loop.simps [of "is" v lo hi mid cur] Let_def g True gt option.case if_True)
      moreover have "nat (hi - (?m + 1) + 1) < nat (hi - lo + 1)" using m by linarith
      ultimately show ?thesis
        using less.prems(1,2,5) m gt by (simp only:) (intro less.hyps; auto)
    next
      case lt
      have "search_loop is v lo hi mid cur = search_loop is v lo (?m - 1) ?m ?c"
        by (simp only: search_loop.simps [of "is" v lo hi mid cur] Let_def g True lt less_not_sym [OF lt]
            option.case if_True if_False)
      moreover have "nat (?m - 1 - lo + 1) < nat (hi - lo + 1)" using m by linarith
      ultimately show ?thesis
        using less.prems(1,2,4) m lt by (simp only:) (intro less.hyps; auto)
    next
      case eq
      have "search_loop is v lo hi mid cur = Some (lo, ?m, ?c)"
        by (simp only: search_loop.simps [of "is" v lo hi mid cur] Let_def g True eq [symmetric] less_irrefl
            option.case if_True if_False)
      then show ?thesis using less.prems m eq by auto
    qed
  qed
qed

lemma intsetSearch_correct:
  assumes inv: "intset_inv is"
  shows "\<exists>pos. intsetSearch is v = Some (v \<in> set (elems is), pos) \<and>
    (if v \<in> set (elems is) then pos < is_length is \<and> elems is ! pos = v else pos = ins_pos v (elems is))"
proof (cases "is_length is = 0")
  case True
  then have "elems is = []" by (simp add: elems_def)
  then show ?thesis using True by (simp add: intsetSearch_def ins_pos_def)
next
  case False
  have srt: "sorted_wrt (<) (elems is)" using inv by (simp add: intset_inv_def)
  note len = inv_arr(3) [OF inv]
  have g: "i_intsetGet is (is_length is - 1) = Some (elems is ! (is_length is - 1))"
    "i_intsetGet is 0 = Some (elems is ! 0)" using False by (simp_all add: inv_get [OF inv])
  consider (hi) "v > elems is ! (is_length is - 1)"
    | (lo) "\<not> v > elems is ! (is_length is - 1)" "v < elems is ! 0"
    | (mid) "\<not> v > elems is ! (is_length is - 1)" "\<not> v < elems is ! 0" by blast
  then show ?thesis
  proof cases
    case hi
    then show ?thesis
      using False g ins_pos_notin [OF srt, of "is_length is" v] ins_pos_eq [OF srt, of "is_length is" v] len
      by (simp add: intsetSearch_def)
  next
    case lo
    then show ?thesis
      using False g ins_pos_notin [OF srt, of 0 v] ins_pos_eq [OF srt, of 0 v] len by (simp add: intsetSearch_def)
  next
    case mid
    obtain lo' mid' cur' where l: "search_loop is v 0 (int (is_length is) - 1) (-1) (-1) = Some (lo', mid', cur')"
      "if cur' = v then 0 \<le> mid' \<and> mid' < int (is_length is) \<and> elems is ! nat mid' = v
       else nat lo' = ins_pos v (elems is) \<and> v \<notin> set (elems is)"
      using search_loop_correct [OF inv, of 0 "int (is_length is) - 1" v "-1" "-1"] False by auto
    show ?thesis
    proof (cases "cur' = v")
      case True
      then have "nat mid' < is_length is" "elems is ! nat mid' = v" using l(2) by auto
      then show ?thesis using True mid g False l(1) len nth_mem [of "nat mid'" "elems is"] by (simp add: intsetSearch_def)
    next
      case c: False
      then show ?thesis using mid g False l by (simp add: intsetSearch_def)
    qed
  qed
qed

section \<open>Insertion and deletion in the list\<close>

definition ins_elem :: "int \<Rightarrow> int list \<Rightarrow> int list" where
  "ins_elem v xs = take (ins_pos v xs) xs @ v # drop (ins_pos v xs) xs"

lemma take_ins_pos: "take (ins_pos v xs) xs = takeWhile (\<lambda>x. x < v) xs"
  unfolding ins_pos_def by (rule takeWhile_eq_take [symmetric])

lemma drop_ins_pos: "drop (ins_pos v xs) xs = dropWhile (\<lambda>x. x < v) xs"
  unfolding ins_pos_def by (rule dropWhile_eq_drop [symmetric])

lemma ins_pos_le: "ins_pos v xs \<le> length xs"
  by (simp add: ins_pos_def length_takeWhile_le)

lemma set_ins_elem: "set (ins_elem v xs) = insert v (set xs)"
proof -
  have "set (take (ins_pos v xs) xs) \<union> set (drop (ins_pos v xs) xs) = set xs"
    by (metis append_take_drop_id set_append)
  then show ?thesis by (auto simp: ins_elem_def)
qed

lemma length_ins_elem: "length (ins_elem v xs) = Suc (length xs)"
  by (simp add: ins_elem_def ins_pos_le min_absorb2)

lemma sorted_wrt_insert:
  fixes v :: int
  assumes "sorted_wrt (<) (as @ bs)" "\<forall>x \<in> set as. x < v" "\<forall>x \<in> set bs. v < x"
  shows "sorted_wrt (<) (as @ v # bs)"
  using assms by (auto simp: sorted_wrt_append)

lemma sorted_ins_elem:
  assumes "sorted_wrt (<) xs" "v \<notin> set xs"
  shows "sorted_wrt (<) (ins_elem v xs)"
  unfolding ins_elem_def
proof (rule sorted_wrt_insert)
  let ?bs = "drop (ins_pos v xs) xs"
  show "sorted_wrt (<) (take (ins_pos v xs) xs @ ?bs)" using assms(1) by simp
  then have s: "sorted_wrt (<) ?bs" unfolding sorted_wrt_append by blast
  show "\<forall>x \<in> set (take (ins_pos v xs) xs). x < v" unfolding take_ins_pos by (auto dest: set_takeWhileD)
  show "\<forall>y \<in> set ?bs. v < y"
  proof (cases ?bs)
    case (Cons b bs)
    have "\<not> b < v" using hd_dropWhile [of "\<lambda>x. x < v" xs] Cons unfolding drop_ins_pos by auto
    moreover have "b \<in> set xs" using Cons by (metis in_set_dropD list.set_intros(1))
    ultimately have "v < b" using assms(2) by (metis linorder_neqE_linordered_idom)
    then show ?thesis using s Cons by auto
  qed simp
qed

definition del_at :: "nat \<Rightarrow> int list \<Rightarrow> int list" where
  "del_at i xs = take i xs @ drop (Suc i) xs"

lemma del_at_props:
  assumes "sorted_wrt (<) xs" "i < length xs"
  shows "sorted_wrt (<) (del_at i xs)" "set (del_at i xs) = set xs - {xs ! i}"
    "length (del_at i xs) = length xs - 1"
proof -
  have xs: "xs = take i xs @ xs ! i # drop (Suc i) xs" using assms(2) by (simp add: id_take_nth_drop)
  then have s: "sorted_wrt (<) (take i xs @ xs ! i # drop (Suc i) xs)" using assms(1) by simp
  then show "sorted_wrt (<) (del_at i xs)" unfolding del_at_def by (simp add: sorted_wrt_append)
  have "set xs = insert (xs ! i) (set (del_at i xs))" by (subst xs) (simp add: del_at_def)
  moreover have "xs ! i \<notin> set (del_at i xs)" using s by (auto simp: del_at_def sorted_wrt_append)
  ultimately show "set (del_at i xs) = set xs - {xs ! i}" by auto
  show "length (del_at i xs) = length xs - 1" using assms(2) by (simp add: del_at_def)
qed

section \<open>Encodings\<close>

lemma valueEncoding_cases: "i_intsetValueEncoding v \<in> {2, 4, 8}"
  by (simp add: i_intsetValueEncoding_def)

lemma valueEncoding_range:
  "sint_range 8 v \<Longrightarrow> k \<in> {2, 4, 8} \<Longrightarrow> i_intsetValueEncoding v \<le> k \<longleftrightarrow> sint_range k v"
  by (auto simp: i_intsetValueEncoding_def sint_range_def)

lemma sint_range_mono: "sint_range k v \<Longrightarrow> k \<in> {2, 4, 8} \<Longrightarrow> n \<in> {2, 4, 8} \<Longrightarrow> k \<le> n \<Longrightarrow> sint_range n v"
  by (auto simp: sint_range_def)

lemma out_of_range:
  assumes "k \<in> {2, 4, 8}" "\<not> sint_range k v" "sint_range k x"
  shows "if v < 0 then v < x else x < v"
  using assms by (auto simp: sint_range_def)

section \<open>Upgrading\<close>

lemma load_at_take: "off + k \<le> j \<Longrightarrow> j \<le> length m \<Longrightarrow> load_at off k (take j m) = load_at off k m"
  by (simp add: load_at_def drop_take min_absorb1)

lemma get_prefix:
  assumes "c \<in> {2, 4, 8}" "take (c * Suc l) (contents is) = arr c ys" "length ys = Suc l"
    "\<forall>x \<in> set ys. sint_range c x"
  shows "i_intsetGetEncoded is l c = Some (ys ! l)"
proof -
  have "c * Suc l \<le> length (contents is)"
    using arg_cong [OF assms(2), of length] assms(3) by simp
  then have "load_at (c * l) c (contents is) = load_at (c * l) c (arr c ys)"
    using load_at_take [of "c * l" c "c * Suc l" "contents is"] assms(2) by simp
  then show ?thesis
    using load_arr [of l ys c] assms by (auto simp: i_intsetGetEncoded_def load_store_sint)
qed

lemma set_at:
  assumes "is_encoding is \<in> {2, 4, 8}" "is_encoding is * Suc i \<le> length (contents is)"
  shows "i_intsetSet is i v = Some (is\<lparr>contents := take (is_encoding is * i) (contents is) @
    store_sint (is_encoding is) v @ drop (is_encoding is * Suc i) (contents is)\<rparr>)"
  using assms by (auto simp: i_intsetSet_def store_at_def add.commute)

text \<open>
  The loop that widens the elements in place, from the last one down: below the position reached
  the old array is still intact, above it the new one is complete.
\<close>

lemma upgrade_loop_correct:
  assumes "c \<in> {2, 4, 8}" "n \<in> {2, 4, 8}" "c \<le> n" "pre \<le> 1" "l \<le> length xs" "\<forall>x \<in> set xs. sint_range c x"
    and "is_encoding is = n" "length (contents is) = n * Suc (length xs)"
    and "take (c * l) (contents is) = arr c (take l xs)"
    and "drop (n * (l + pre)) (contents is) = arr n (drop l xs) @ rest"
  shows "\<exists>m. upgrade_loop is c pre l = Some (is\<lparr>contents := m\<rparr>) \<and> length m = length (contents is) \<and>
    drop (n * pre) m = arr n xs @ rest"
  using assms(5,7-)
proof (induction l arbitrary: "is")
  case 0
  then show ?case by (intro exI [of _ "contents is"]) simp
next
  case (Suc l)
  let ?m = "contents is"
  let ?m' = "take (n * (l + pre)) ?m @ store_sint n (xs ! l) @ drop (n * Suc (l + pre)) ?m"
  have g: "i_intsetGetEncoded is l c = Some (xs ! l)"
    using get_prefix [OF assms(1) Suc.prems(4)] Suc.prems(1) assms(6) by (auto dest: in_set_takeD)
  have le: "n * Suc (l + pre) \<le> length ?m"
    unfolding Suc.prems(3) using Suc.prems(1) assms(4) by (intro mult_le_mono2) simp
  have s: "i_intsetSet is (l + pre) (xs ! l) = Some (is\<lparr>contents := ?m'\<rparr>)"
    using set_at [of "is" "l + pre" "xs ! l"] Suc.prems(2) assms(2) le by simp
  have l1: "n * (l + pre) + n \<le> length ?m" using le by simp
  have len: "length ?m' = length ?m" using l1 by simp
  have cl: "c * l \<le> n * (l + pre)" using assms(3) by (intro mult_le_mono) auto
  have "take (c * l) ?m' = take (c * l) ?m"
    using cl l1 by (simp add: min_absorb1)
  also have "\<dots> = take (c * l) (take (c * Suc l) ?m)" by (simp add: min_absorb1)
  also have "\<dots> = arr c (take l xs)" unfolding Suc.prems(4) take_arr by simp
  finally have t: "take (c * l) ?m' = arr c (take l xs)" .
  have "drop (n * (l + pre)) ?m' = store_sint n (xs ! l) @ drop (n * (Suc l + pre)) ?m" using l1 by simp
  also have "\<dots> = arr n (xs ! l # drop (Suc l) xs) @ rest" unfolding Suc.prems(5) by simp
  also have "xs ! l # drop (Suc l) xs = drop l xs" using Suc.prems(1) by (simp add: Cons_nth_drop_Suc)
  finally have d: "drop (n * (l + pre)) ?m' = arr n (drop l xs) @ rest" .
  have "\<exists>m. upgrade_loop (is\<lparr>contents := ?m'\<rparr>) c pre l = Some (is\<lparr>contents := ?m'\<rparr>\<lparr>contents := m\<rparr>) \<and>
      length m = length (contents (is\<lparr>contents := ?m'\<rparr>)) \<and> drop (n * pre) m = arr n xs @ rest"
    by (rule Suc.IH) (use Suc.prems t d len in \<open>simp_all del: append_assoc\<close>)
  then show ?case using g s len by (simp del: append_assoc) 
qed

section \<open>Adding\<close>

definition intset_room :: "intset \<Rightarrow> bool" where
  "intset_room is \<longleftrightarrow> is_length is < 2 ^ 29 - 1"

lemma resize_arr:
  assumes "intset_inv is" "intset_room is" "k \<in> {2, 4, 8}" "is_encoding is \<le> k"
  shows "\<exists>rest. realloc junk ((Suc (is_length is) * k) mod 2 ^ 32) (contents is) = contents is @ rest \<and>
    length (contents is @ rest) = k * Suc (is_length is)"
proof -
  have "Suc (is_length is) * k \<le> (2 ^ 29 - 1) * 8"
    using assms(2,3) by (intro mult_le_mono) (auto simp: intset_room_def)
  then have m: "(Suc (is_length is) * k) mod 2 ^ 32 = k * Suc (is_length is)" by simp
  have "is_encoding is * is_length is \<le> k * Suc (is_length is)" using assms(4) by (intro mult_le_mono) auto
  then have "length (contents is) \<le> k * Suc (is_length is)" using assms(1) by (simp add: intset_inv_def)
  then show ?thesis unfolding m realloc_def by simp
qed

lemma ins_elem_out:
  assumes "sorted_wrt (<) xs" "\<forall>x \<in> set xs. if v < 0 then v < x else x < v"
  shows "ins_elem v xs = (if v < 0 then v # xs else xs @ [v])" "v \<notin> set xs"
proof -
  show "v \<notin> set xs" using assms(2) by (auto split: if_splits)
  have "ins_pos v xs = (if v < 0 then 0 else length xs)"
  proof (cases "v < 0")
    case True
    then have "xs = [] \<or> v \<le> xs ! 0" using assms(2) by (cases xs) auto
    then show ?thesis
      using True ins_pos_eq [OF assms(1), of 0 v] by (cases "xs = []") (auto simp: ins_pos_def)
  next
    case False
    then have "xs = [] \<or> xs ! (length xs - 1) < v" using assms(2) by (cases xs rule: rev_cases) auto
    then show ?thesis
      using False ins_pos_eq [OF assms(1), of "length xs" v] by (cases "xs = []") (auto simp: ins_pos_def)
  qed
  then show "ins_elem v xs = (if v < 0 then v # xs else xs @ [v])" by (simp add: ins_elem_def)
qed

lemma intsetUpgradeAndAdd_correct:
  assumes inv: "intset_inv is" and room: "intset_room is" and v: "sint_range 8 v"
    and up: "i_intsetValueEncoding v > is_encoding is"
  shows "\<exists>is'. intsetUpgradeAndAdd junk is v = Some is' \<and> intset_inv is' \<and>
    elems is' = ins_elem v (elems is) \<and> v \<notin> set (elems is)"
proof -
  let ?xs = "elems is" and ?c = "is_encoding is" and ?n = "i_intsetValueEncoding v"
  let ?pre = "if v < 0 then 1 else 0 :: nat"
  have c: "?c \<in> {2, 4, 8}" and srt: "sorted_wrt (<) ?xs" using inv by (simp_all add: intset_inv_def)
  note n = valueEncoding_cases [of v]
  note ar = inv_arr [OF inv]
  have nr: "\<not> sint_range ?c v" using valueEncoding_range [OF v c] up by simp
  have rn: "sint_range ?n v" using valueEncoding_range [OF v n] by simp
  have rxs: "\<forall>x \<in> set ?xs. sint_range ?n x" using ar(2) sint_range_mono [OF _ c n] up by simp
  have out: "\<forall>x \<in> set ?xs. if v < 0 then v < x else x < v" using out_of_range [OF c nr] ar(2) by blast
  obtain rest where r: "realloc junk ((Suc (is_length is) * ?n) mod 2 ^ 32) (contents is) = contents is @ rest"
    "length (contents is @ rest) = ?n * Suc (is_length is)"
    using resize_arr [OF inv room n] up by auto
  let ?is1 = "is\<lparr>is_encoding := ?n, contents := contents is @ rest\<rparr>"
  let ?tl = "drop (?n * (is_length is + ?pre)) (contents is @ rest)"
  have "\<exists>m. upgrade_loop ?is1 ?c ?pre (length ?xs) = Some (?is1\<lparr>contents := m\<rparr>) \<and>
      length m = length (contents ?is1) \<and> drop (?n * ?pre) m = arr ?n ?xs @ ?tl"
    by (rule upgrade_loop_correct [OF c n]) (use up ar r(2) in \<open>simp_all\<close>)
  then obtain m where m: "upgrade_loop ?is1 ?c ?pre (is_length is) = Some (?is1\<lparr>contents := m\<rparr>)"
    "length m = ?n * Suc (is_length is)" "drop (?n * ?pre) m = arr ?n ?xs @ ?tl" using r(2) ar(3) by auto
  let ?is2 = "?is1\<lparr>contents := arr ?n (ins_elem v ?xs), is_length := Suc (is_length is)\<rparr>"
  have "intsetUpgradeAndAdd junk is v = Some ?is2"
  proof (cases "v < 0")
    case True
    have tl: "?tl = []" using True r(2) by simp
    have "i_intsetSet (?is1\<lparr>contents := m\<rparr>) 0 v = Some (?is1\<lparr>contents := store_sint ?n v @ drop ?n m\<rparr>)"
      using set_at [of "?is1\<lparr>contents := m\<rparr>" 0 v] n m(2) by simp
    moreover have "store_sint ?n v @ drop ?n m = arr ?n (ins_elem v ?xs)"
      using m(3) tl True ins_elem_out(1) [OF srt out] by simp
    ultimately show ?thesis
      using True m(1) r(1) by (simp add: intsetUpgradeAndAdd_def intsetResize_def Let_def)
  next
    case False
    have "take (?n * is_length is) m = arr ?n ?xs" using m(3) False ar(3) by simp
    then have "i_intsetSet (?is1\<lparr>contents := m\<rparr>) (is_length is) v =
        Some (?is1\<lparr>contents := arr ?n ?xs @ store_sint ?n v\<rparr>)"
      using set_at [of "?is1\<lparr>contents := m\<rparr>" "is_length is" v] n m(2) by simp
    then show ?thesis
      using False m(1) r(1) ins_elem_out(1) [OF srt out]
      by (simp add: intsetUpgradeAndAdd_def intsetResize_def Let_def)
  qed
  moreover have "intset_inv ?is2 \<and> elems ?is2 = ins_elem v ?xs"
  proof (rule inv_intro)
    show "\<forall>x \<in> set (ins_elem v ?xs). sint_range (is_encoding ?is2) x" using rxs rn by (simp add: set_ins_elem)
    show "sorted_wrt (<) (ins_elem v ?xs)" by (rule sorted_ins_elem [OF srt ins_elem_out(2) [OF srt out]])
  qed (use n ar(3) in \<open>simp_all add: length_ins_elem\<close>)
  ultimately show ?thesis using ins_elem_out(2) [OF srt out] by blast
qed

lemma moveTail_arr:
  assumes "is_encoding is \<in> {2, 4, 8}" "contents is = arr (is_encoding is) xs" "from \<le> is_length is"
    "is_length is < 2 ^ 29" "is_length is \<le> length xs" "to + (is_length is - from) \<le> length xs"
  shows "intsetMoveTail is from to = Some (is\<lparr>contents := arr (is_encoding is)
    (take to xs @ take (is_length is - from) (drop from xs) @ drop (to + (is_length is - from)) xs)\<rparr>)"
proof -
  let ?n = "is_length is - from"
  have n: "nat ((int (is_length is) - int from) mod 2 ^ 32) = ?n"
  proof -
    have "int (is_length is) - int from = int ?n" using assms(3) by simp
    moreover have "int ?n mod 2 ^ 32 = int ?n" using assms(4) by (intro mod_pos_pos_trivial) auto
    ultimately show ?thesis by (metis nat_int)
  qed
  have sz: "?n * k mod 2 ^ 32 = ?n * k" if "k \<le> 8" for k
  proof -
    have "?n * k \<le> (2 ^ 29 - 1) * 8" using that assms(4) by (intro mult_le_mono) auto
    then show ?thesis by simp
  qed
  have mv: "memmove (k * to) (k * from) (?n * k) (arr k xs) =
      Some (arr k (take to xs @ take ?n (drop from xs) @ drop (to + ?n) xs))" for k
    using assms(3,5,6) by (intro memmove_arr) auto
  have "intsetMoveTail is from to = map_option (\<lambda>c. is\<lparr>contents := c\<rparr>)
      (memmove (is_encoding is * to) (is_encoding is * from) (?n * is_encoding is) (contents is))"
    using assms(1) sz [of 2] sz [of 4] sz [of 8] unfolding intsetMoveTail_def Let_def n by auto
  then show ?thesis by (simp only: assms(2) mv option.map)
qed

lemma intsetAdd_correct:
  assumes inv: "intset_inv is" and room: "intset_room is" and v: "sint_range 8 v"
  shows "\<exists>is'. intsetAdd junk is v = Some (is', v \<notin> set (elems is)) \<and> intset_inv is' \<and>
    elems is' = (if v \<in> set (elems is) then elems is else ins_elem v (elems is))"
proof (cases "i_intsetValueEncoding v > is_encoding is")
  case True
  then show ?thesis using intsetUpgradeAndAdd_correct [OF inv room v True, of junk] by (auto simp: intsetAdd_def)
next
  case False
  let ?xs = "elems is" and ?k = "is_encoding is"
  have k: "?k \<in> {2, 4, 8}" and srt: "sorted_wrt (<) ?xs" using inv by (simp_all add: intset_inv_def)
  note ar = inv_arr [OF inv]
  have rv: "sint_range ?k v" using valueEncoding_range [OF v k] False by simp
  obtain pos where s: "intsetSearch is v = Some (v \<in> set ?xs, pos)" "v \<notin> set ?xs \<Longrightarrow> pos = ins_pos v ?xs"
    using intsetSearch_correct [OF inv, of v] by auto
  show ?thesis
  proof (cases "v \<in> set ?xs")
    case True
    then show ?thesis using s(1) False inv by (simp add: intsetAdd_def)
  next
    case nin: False
    let ?p = "ins_pos v ?xs"
    have p: "?p \<le> is_length is" using ins_pos_le [of v ?xs] ar(3) by simp
    obtain rest where r: "realloc junk ((Suc (is_length is) * ?k) mod 2 ^ 32) (contents is) = contents is @ rest"
      "length (contents is @ rest) = ?k * Suc (is_length is)"
      using resize_arr [OF inv room k] by auto
    obtain w where w: "contents is @ rest = arr ?k (?xs @ [w])"
    proof -
      have "length rest = ?k * 1" using r(2) ar(1,3) by simp
      then have "arr ?k (dec_arr ?k 1 rest) = rest" using k by (intro arr_dec_arr) auto
      then show ?thesis using that [of "load_sint (take ?k rest)"] ar(1) by simp
    qed
    let ?is1 = "is\<lparr>contents := arr ?k (?xs @ [w])\<rparr>"
    let ?ys = "take ?p ?xs @ (if ?p < is_length is then ?xs ! ?p else w) # drop ?p ?xs"
    have mv: "(if ?p < is_length ?is1 then intsetMoveTail ?is1 ?p (?p + 1) else Some ?is1) =
        Some (is\<lparr>contents := arr ?k ?ys\<rparr>)"
    proof (cases "?p < is_length is")
      case True
      have "intsetMoveTail ?is1 ?p (?p + 1) = Some (?is1\<lparr>contents := arr (is_encoding ?is1)
          (take (?p + 1) (?xs @ [w]) @ take (is_length ?is1 - ?p) (drop ?p (?xs @ [w])) @
           drop (?p + 1 + (is_length ?is1 - ?p)) (?xs @ [w]))\<rparr>)"
        by (rule moveTail_arr) (use k True ar(3) room in \<open>auto simp: intset_room_def\<close>)
      moreover have "take (?p + 1) (?xs @ [w]) @ take (is_length is - ?p) (drop ?p (?xs @ [w])) @
          drop (?p + 1 + (is_length is - ?p)) (?xs @ [w]) = ?ys"
        using True ar(3) by (simp add: take_Suc_conv_app_nth)
      ultimately show ?thesis using True by (simp del: arr_simps)
    next
      case np: False
      then have "?p = length ?xs" using p ar(3) by simp
      then show ?thesis using np by simp
    qed
    have "?ys[?p := v] = ins_elem v ?xs" using p ar(3) by (simp add: ins_elem_def list_update_append)
    moreover have "?p < length ?ys" using p ar(3) by simp
    ultimately have st: "i_intsetSet (is\<lparr>contents := arr ?k ?ys\<rparr>) ?p v = Some (is\<lparr>contents := arr ?k (ins_elem v ?xs)\<rparr>)"
      using set_arr [of "is\<lparr>contents := arr ?k ?ys\<rparr>" ?ys ?p v] k by (simp del: arr_simps)
    let ?is2 = "is\<lparr>contents := arr ?k (ins_elem v ?xs), is_length := Suc (is_length is)\<rparr>"
    have "intsetAdd junk is v = Some (?is2, True)"
      using False s nin r(1) w mv st by (simp add: intsetAdd_def intsetResize_def del: arr_simps)
    moreover have "intset_inv ?is2 \<and> elems ?is2 = ins_elem v ?xs"
      by (rule inv_intro)
        (use k ar(2,3) rv sorted_ins_elem [OF srt nin] in \<open>simp_all add: length_ins_elem set_ins_elem\<close>)
    ultimately show ?thesis using nin by simp
  qed
qed

section \<open>Removing and the other operations\<close>

lemma realloc_arr_take: "n * k < 2 ^ 32 \<Longrightarrow> n \<le> length xs \<Longrightarrow> realloc junk ((n * k) mod 2 ^ 32) (arr k xs) = arr k (take n xs)"
proof -
  assume n: "n * k < 2 ^ 32" "n \<le> length xs"
  have "k * n \<le> k * length xs" using n(2) by (rule mult_le_mono2)
  moreover have "(n * k) mod 2 ^ 32 = k * n" using n(1) by (simp add: mult.commute)
  ultimately show ?thesis unfolding realloc_def by (simp add: take_arr)
qed

lemma intsetRemove_correct:
  assumes inv: "intset_inv is" and room: "intset_room is" and v: "sint_range 8 v"
  shows "\<exists>is'. intsetRemove junk is v = Some (is', v \<in> set (elems is)) \<and> intset_inv is' \<and>
    set (elems is') = set (elems is) - {v} \<and> intset_room is'"
proof (cases "i_intsetValueEncoding v \<le> is_encoding is")
  case False
  have k: "is_encoding is \<in> {2, 4, 8}" using inv by (simp add: intset_inv_def)
  have "v \<notin> set (elems is)" using False inv_arr(2) [OF inv] valueEncoding_range [OF v k] by blast
  then show ?thesis using False inv room by (simp add: intsetRemove_def)
next
  case True
  let ?xs = "elems is" and ?k = "is_encoding is" and ?n = "is_length is"
  have k: "?k \<in> {2, 4, 8}" and srt: "sorted_wrt (<) ?xs" using inv by (simp_all add: intset_inv_def)
  note ar = inv_arr [OF inv]
  obtain pos where s: "intsetSearch is v = Some (v \<in> set ?xs, pos)"
    "v \<in> set ?xs \<Longrightarrow> pos < ?n \<and> ?xs ! pos = v"
    using intsetSearch_correct [OF inv, of v] by auto
  show ?thesis
  proof (cases "v \<in> set ?xs")
    case False
    then show ?thesis using s(1) True inv room by (simp add: intsetRemove_def)
  next
    case mem: True
    then have pos: "pos < ?n" "?xs ! pos = v" using s(2) by auto
    let ?ys = "take pos ?xs @ drop (Suc pos) ?xs @ [last ?xs]"
    have mv: "(if pos < ?n - 1 then intsetMoveTail is (pos + 1) pos else Some is) = Some (is\<lparr>contents := arr ?k ?ys\<rparr>)"
    proof (cases "pos < ?n - 1")
      case lt: True
      have "intsetMoveTail is (pos + 1) pos = Some (is\<lparr>contents := arr ?k
          (take pos ?xs @ take (?n - (pos + 1)) (drop (pos + 1) ?xs) @ drop (pos + (?n - (pos + 1))) ?xs)\<rparr>)"
        by (rule moveTail_arr) (use k lt ar(1,3) room in \<open>auto simp: intset_room_def\<close>)
      moreover have "drop (pos + (?n - (pos + 1))) ?xs = [last ?xs]"
        using pos(1) ar(3) by (cases ?xs rule: rev_cases) auto
      ultimately show ?thesis using lt ar(3) by (simp del: arr_simps)
    next
      case ge: False
      then have "pos = length ?xs - 1" "?xs \<noteq> []" using pos(1) ar(3) by auto
      then have "?ys = ?xs" using append_butlast_last_id [of ?xs] by (simp add: butlast_conv_take)
      then show ?thesis using ge ar(1) by (simp del: arr_simps)
    qed
    have "(?n - 1) * ?k \<le> (2 ^ 29 - 1) * 8" using room k by (intro mult_le_mono) (auto simp: intset_room_def)
    then have "realloc junk (((?n - 1) * ?k) mod 2 ^ 32) (arr ?k ?ys) = arr ?k (take (?n - 1) ?ys)"
      using pos(1) ar(3) by (intro realloc_arr_take) auto
    moreover have "take (?n - 1) ?ys = del_at pos ?xs" using pos(1) ar(3) by (simp add: del_at_def)
    ultimately have rs: "realloc junk (((?n - 1) * ?k) mod 2 ^ 32) (arr ?k ?ys) = arr ?k (del_at pos ?xs)"
      by (simp only:)
    let ?is2 = "is\<lparr>contents := arr ?k (del_at pos ?xs), is_length := ?n - 1\<rparr>"
    have "intsetRemove junk is v = Some (?is2, True)"
      using True s(1) mem mv rs by (simp add: intsetRemove_def intsetResize_def Let_def del: arr_simps)
    moreover have p: "pos < length ?xs" using pos(1) ar(3) by simp
    have "intset_inv ?is2 \<and> elems ?is2 = del_at pos ?xs"
    proof (rule inv_intro)
      show "sorted_wrt (<) (del_at pos ?xs)" by (rule del_at_props(1) [OF srt p])
      show "\<forall>x \<in> set (del_at pos ?xs). sint_range (is_encoding ?is2) x"
        using ar(2) del_at_props(2) [OF srt p] by simp
    qed (use k ar(3) del_at_props(3) [OF srt p] in simp_all)
    ultimately show ?thesis
      using mem del_at_props(2) [OF srt p] pos(2) room by (simp add: intset_room_def)
  qed
qed

lemma intsetFind_correct:
  assumes "intset_inv is" "sint_range 8 v"
  shows "intsetFind is v = Some (v \<in> set (elems is))"
proof (cases "i_intsetValueEncoding v \<le> is_encoding is")
  case True
  then show ?thesis using intsetSearch_correct [OF assms(1), of v] by (auto simp: intsetFind_def)
next
  case False
  have k: "is_encoding is \<in> {2, 4, 8}" using assms(1) by (simp add: intset_inv_def)
  have "v \<notin> set (elems is)" using False inv_arr(2) [OF assms(1)] valueEncoding_range [OF assms(2) k] by blast
  then show ?thesis using False by (simp add: intsetFind_def)
qed

lemma intsetNew_correct: "intset_inv intsetNew" "elems intsetNew = []"
  by (simp_all add: intsetNew_def intset_inv_def elems_def)

section \<open>Validation\<close>

definition intset_blob :: "intset \<Rightarrow> u8 list" where
  "intset_blob is = le_bytes 4 (is_encoding is) @ le_bytes 4 (is_length is) @ contents is"

lemma validate_loop_correct:
  assumes "is_encoding is \<in> {2, 4, 8}" "length (contents is) = is_encoding is * is_length is"
    "i + n = is_length is" "0 < i"
  shows "validate_loop is i (elems is ! (i - 1)) n = Some (sorted_wrt (<) (drop (i - 1) (elems is)))"
  using assms(3,4)
proof (induction n arbitrary: i)
  case 0
  then have "drop (i - 1) (elems is) = [elems is ! (i - 1)]"
    using Cons_nth_drop_Suc [of "i - 1" "elems is"] by (simp add: elems_def)
  then show ?case by simp
next
  case (Suc n)
  have k: "0 < is_encoding is" using assms(1) by auto
  have len: "length (elems is) = is_length is" by (simp add: elems_def)
  have ar: "contents is = arr (is_encoding is) (elems is)" "\<forall>x \<in> set (elems is). sint_range (is_encoding is) x"
    using arr_dec_arr [OF k assms(2)] dec_arr_range [OF k assms(2)] by (simp_all add: elems_def)
  have g: "i_intsetGet is i = Some (elems is ! i)"
    unfolding i_intsetGet_def using get_arr [OF assms(1) ar, of i] Suc.prems len by simp
  have d: "drop (i - 1) (elems is) = elems is ! (i - 1) # drop i (elems is)"
    "drop i (elems is) = elems is ! i # drop (Suc i) (elems is)"
    using Suc.prems len Cons_nth_drop_Suc [of "i - 1" "elems is"] Cons_nth_drop_Suc [of i "elems is"] by auto
  have "sorted_wrt (<) (a # b # cs) \<longleftrightarrow> a < b \<and> sorted_wrt (<) (b # cs)" for a b :: int and cs by auto
  then have "sorted_wrt (<) (drop (i - 1) (elems is)) \<longleftrightarrow> elems is ! (i - 1) < elems is ! i \<and> sorted_wrt (<) (drop i (elems is))"
    using d by metis
  then show ?case using Suc.IH [of "Suc i"] Suc.prems g by (auto simp: not_le)
qed

definition parse_blob :: "u8 list \<Rightarrow> intset" where
  "parse_blob p = \<lparr>is_encoding = le_val (take 4 p), is_length = le_val (take 4 (drop 4 p)), contents = drop 8 p\<rparr>"

lemma blob_parse: "8 \<le> length p \<Longrightarrow> intset_blob (parse_blob p) = p"
proof -
  assume l: "8 \<le> length p"
  then have "le_bytes 4 (le_val (take 4 p)) = take 4 p" "le_bytes 4 (le_val (take 4 (drop 4 p))) = take 4 (drop 4 p)"
    using le_bytes_le_val [of "take 4 p"] le_bytes_le_val [of "take 4 (drop 4 p)"] by (simp_all add: min_absorb2)
  moreover have "p = take 4 p @ take 4 (drop 4 p) @ drop 8 p"
    by (metis append_take_drop_id drop_drop numeral_Bit0)
  ultimately show ?thesis by (simp add: intset_blob_def parse_blob_def)
qed

lemma parse_blob_blob:
  "is_encoding is < 2 ^ 32 \<Longrightarrow> is_length is < 2 ^ 32 \<Longrightarrow> parse_blob (intset_blob is) = is"
  by (simp add: intset_blob_def parse_blob_def le_val_le_bytes)

lemma intsetValidateIntegrity_parse:
  "intsetValidateIntegrity p deep =
     (let is = parse_blob p
      in if length p < 8 \<or> is_encoding is \<notin> {2, 4, 8} \<or> 8 + is_length is * is_encoding is \<noteq> length p \<or> is_length is = 0
         then Some False
         else if \<not> deep then Some True
         else Option.bind (i_intsetGet is 0) (\<lambda>prev. validate_loop is 1 prev (is_length is - 1)))"
  by (simp add: intsetValidateIntegrity_def parse_blob_def Let_def)

lemma intsetValidateIntegrity_deep:
  "intsetValidateIntegrity p True =
   Some (8 \<le> length p \<and> intset_inv (parse_blob p) \<and> is_length (parse_blob p) \<noteq> 0)"
proof -
  let ?is = "parse_blob p"
  have len: "length (contents ?is) = length p - 8" by (simp add: parse_blob_def)
  show ?thesis
  proof (cases "length p < 8 \<or> is_encoding ?is \<notin> {2, 4, 8} \<or> 8 + is_length ?is * is_encoding ?is \<noteq> length p \<or> is_length ?is = 0")
    case True
    then have "\<not> (8 \<le> length p \<and> intset_inv ?is \<and> is_length ?is \<noteq> 0)"
      using len by (auto simp: intset_inv_def mult.commute)
    then show ?thesis using True unfolding intsetValidateIntegrity_parse Let_def by (simp only: if_True)
  next
    case False
    have k: "0 < is_encoding ?is" and c: "length (contents ?is) = is_encoding ?is * is_length ?is"
      using False len by (auto simp: mult.commute)
    have e: "is_encoding ?is \<in> {2, 4, 8}" using False by blast
    have "i_intsetGet ?is 0 = Some (elems ?is ! 0)"
      unfolding i_intsetGet_def
      by (rule get_arr [where xs = "elems ?is"])
        (use False arr_dec_arr [OF k c] dec_arr_range [OF k c] in \<open>auto simp: elems_def\<close>)
    moreover have "validate_loop ?is 1 (elems ?is ! 0) (is_length ?is - 1) = Some (sorted_wrt (<) (elems ?is))"
      using validate_loop_correct [OF e c, of 1 "is_length ?is - 1"] False by simp
    moreover have "(8 \<le> length p \<and> intset_inv ?is \<and> is_length ?is \<noteq> 0) = sorted_wrt (<) (elems ?is)"
      using False e c by (simp add: intset_inv_def)
    ultimately show ?thesis
      using False unfolding intsetValidateIntegrity_parse Let_def by (simp only: if_False simp_thms) simp
  qed
qed

lemma intsetValidateIntegrity_iff:
  "intsetValidateIntegrity p True =
   Some (\<exists>is. intset_inv is \<and> is_length is \<noteq> 0 \<and> is_length is < 2 ^ 32 \<and> p = intset_blob is)"
proof -
  have "le_val (take 4 (drop 4 p)) < 2 ^ 32" if "8 \<le> length p"
    using le_val_less [of "take 4 (drop 4 p)"] that by (simp add: min_absorb2)
  then have "8 \<le> length p \<and> intset_inv (parse_blob p) \<and> is_length (parse_blob p) \<noteq> 0 \<Longrightarrow>
      \<exists>is. intset_inv is \<and> is_length is \<noteq> 0 \<and> is_length is < 2 ^ 32 \<and> p = intset_blob is"
    using blob_parse [of p] by (intro exI [of _ "parse_blob p"]) (auto simp: parse_blob_def)
  moreover have "8 \<le> length p \<and> intset_inv (parse_blob p) \<and> is_length (parse_blob p) \<noteq> 0"
    if "intset_inv is" "is_length is \<noteq> 0" "is_length is < 2 ^ 32" "p = intset_blob is" for "is"
    using that parse_blob_blob [of "is"] by (auto simp: intset_inv_def intset_blob_def)
  ultimately show ?thesis unfolding intsetValidateIntegrity_deep by blast
qed

end
