(* ===== verification/Intset_Properties.thy ===== *)
theory Intset_Properties
  imports Intset_Correct Interfaces
begin

text \<open>
  What \<^verbatim>\<open>intset.c\<close> promises: it implements the set contract on the integers of 64 bits, it keeps
  its elements sorted in the narrowest encoding they have needed so far, and its integrity check
  is exact.
\<close>

lemma inv_length: "intset_inv is \<Longrightarrow> is_length is = length (elems is)"
  by (simp add: inv_arr(3))

interpretation intset_store: set_store intset_inv "\<lambda>s. set (elems s)" is_length "2 ^ 29 - 1" "sint_range 8"
  "intsetAdd junk" "intsetRemove junk" intsetFind
  for junk
proof unfold_locales
  fix s x
  assume s: "intset_inv s" "is_length s < 2 ^ 29 - 1" "sint_range 8 x"
  obtain s' where s': "intsetAdd junk s x = Some (s', x \<notin> set (elems s))" "intset_inv s'"
    "elems s' = (if x \<in> set (elems s) then elems s else ins_elem x (elems s))"
    using intsetAdd_correct [OF s(1) _ s(3), of junk] s(2) by (auto simp: intset_room_def)
  then show "\<exists>s'. intsetAdd junk s x = Some (s', x \<notin> set (elems s)) \<and> intset_inv s' \<and>
      set (elems s') = insert x (set (elems s)) \<and> is_length s' \<le> Suc (is_length s)"
    using s(1) by (auto simp: set_ins_elem length_ins_elem inv_length)
next
  fix s x
  assume s: "intset_inv s" "is_length s < 2 ^ 29 - 1" "sint_range 8 x"
  obtain s' where s': "intsetRemove junk s x = Some (s', x \<in> set (elems s))" "intset_inv s'"
    "set (elems s') = set (elems s) - {x}"
    using intsetRemove_correct [OF s(1) _ s(3), of junk] s(2) by (auto simp: intset_room_def)
  have d: "distinct (elems s)" if "intset_inv s" for s using that by (simp add: intset_inv_def strict_sorted_iff)
  have "length (elems s') = card (set (elems s'))" using d [OF s'(2)] by (simp add: distinct_card)
  also have "\<dots> \<le> card (set (elems s))" unfolding s'(3) by (rule card_Diff1_le)
  finally have "is_length s' \<le> is_length s"
    using s(1) s'(2) by (simp add: inv_length distinct_card [OF d])
  then show "\<exists>s'. intsetRemove junk s x = Some (s', x \<in> set (elems s)) \<and> intset_inv s' \<and>
      set (elems s') = set (elems s) - {x} \<and> is_length s' \<le> is_length s" using s' by blast
next
  fix s x
  assume "intset_inv s" "sint_range 8 x"
  then show "intsetFind s x = Some (x \<in> set (elems s))" by (rule intsetFind_correct)
qed

text \<open>
  C24. Any sequence of \<^verbatim>\<open>intsetAdd\<close>, \<^verbatim>\<open>intsetRemove\<close> and \<^verbatim>\<open>intsetFind\<close> calls on 64-bit integers,
  started on a new integer set, answers as a mathematical set does and never accesses memory out
  of bounds, for up to \<open>2 ^ 29 - 1\<close> calls and whatever bytes a reallocation returns.
\<close>

theorem intset_refines_set:
  assumes "length ops \<le> 2 ^ 29 - 1" "\<forall>op \<in> set ops. sint_range 8 (set_op_arg op)"
  shows "\<exists>is'. run_set (intsetAdd junk) (intsetRemove junk) intsetFind intsetNew ops =
      Some (fst (spec_set {} ops), is') \<and> intset_inv is' \<and> set (elems is') = snd (spec_set {} ops)"
proof -
  have "is_length intsetNew = 0" by (simp add: intsetNew_def)
  then show ?thesis
    using intset_store.run_refines [OF intsetNew_correct(1), of ops junk] assms
    by (simp add: intsetNew_correct(2))
qed

theorem intset_refines_set_witness:
  "\<exists>is'. run_set (intsetAdd (\<lambda>_. 0)) (intsetRemove (\<lambda>_. 0)) intsetFind intsetNew
      [SAdd 5, SAdd (-70000), SAdd 5, SMem (-70000), SRem 5, SMem 5] =
      Some ([True, True, False, True, True, False], is') \<and> set (elems is') = {-70000}"
  using intset_refines_set [of "[SAdd 5, SAdd (-70000), SAdd 5, SMem (-70000), SRem 5, SMem 5]" "\<lambda>_. 0"]
  by (auto simp: sint_range_def)

text \<open>
  C25. \<^verbatim>\<open>intsetAdd\<close> keeps the invariant: the encoding is 2, 4 or 8 bytes, the block holds exactly the
  elements and the elements are strictly increasing. The new element is put at its place in the
  order, also when the whole array has to be widened in place.
\<close>

theorem intsetAdd_ok:
  assumes "intset_inv is" "is_length is < 2 ^ 29 - 1" "sint_range 8 v"
  shows "\<exists>is'. intsetAdd junk is v = Some (is', v \<notin> set (elems is)) \<and> intset_inv is' \<and>
    elems is' = (if v \<in> set (elems is) then elems is else takeWhile (\<lambda>x. x < v) (elems is) @ v # dropWhile (\<lambda>x. x < v) (elems is))"
  using intsetAdd_correct [OF assms(1) _ assms(3), of junk] assms(2)
  by (auto simp: intset_room_def ins_elem_def take_ins_pos drop_ins_pos)

definition demo_intset :: intset where
  "demo_intset = \<lparr>is_encoding = 2, is_length = 3, contents = store_sint 2 (-7) @ store_sint 2 4 @ store_sint 2 300\<rparr>"

lemma demo_intset_elems: "elems demo_intset = [-7, 4, 300]"
  by (simp add: demo_intset_def elems_def numeral_eq_Suc load_store_sint sint_range_def)

lemma demo_intset_inv: "intset_inv demo_intset"
  unfolding intset_inv_def demo_intset_elems by (simp add: demo_intset_def)

theorem intsetAdd_ok_witness:
  "\<exists>is'. intsetAdd (\<lambda>_. 0) demo_intset 70000 = Some (is', True) \<and> intset_inv is' \<and> elems is' = [-7, 4, 300, 70000]"
  using intsetAdd_ok [OF demo_intset_inv, of 70000 "\<lambda>_. 0"] unfolding demo_intset_elems
  by (auto simp: demo_intset_def sint_range_def)




end
