(* ===== verification/Sds.thy ===== *)
theory Sds
  imports Bytes Util_Num "HOL-Library.Monad_Syntax"
begin

text \<open>
  The dynamic strings of \<^verbatim>\<open>sds.c\<close> and \<^verbatim>\<open>sds.h\<close>. A string is its header, the fields of the
  \<^verbatim>\<open>sdshdr\<close> struct its type selects, and the block of bytes that follows the header up to the end
  of the allocation. Header fields are truncated to their width when they are stored. Failed
  assertions and accesses outside the block are the result \<^const>\<open>None\<close>. The allocator is an
  argument: the usable size it returns for a request, the contents of fresh memory and whether
  a \<^verbatim>\<open>try\<close> allocation succeeds.
\<close>

section \<open>Headers\<close>

datatype sdstype = SDS_TYPE_5 | SDS_TYPE_8 | SDS_TYPE_16 | SDS_TYPE_32 | SDS_TYPE_64

text \<open>The types in the order of their numbers.\<close>

fun type_num :: "sdstype \<Rightarrow> nat" where
  "type_num SDS_TYPE_5 = 0"
| "type_num SDS_TYPE_8 = 1"
| "type_num SDS_TYPE_16 = 2"
| "type_num SDS_TYPE_32 = 3"
| "type_num SDS_TYPE_64 = 4"

text \<open>The width in bits of the length and allocation fields.\<close>

fun type_bits :: "sdstype \<Rightarrow> nat" where
  "type_bits SDS_TYPE_5 = 5"
| "type_bits SDS_TYPE_8 = 8"
| "type_bits SDS_TYPE_16 = 16"
| "type_bits SDS_TYPE_32 = 32"
| "type_bits SDS_TYPE_64 = 64"

record sds =
  hdr_type :: sdstype
  hdr_len :: nat
  hdr_alloc :: nat
  buf :: "char list"

record allocator =
  al_usable :: "nat \<Rightarrow> nat"
  al_junk :: "nat \<Rightarrow> char"
  al_try :: "nat \<Rightarrow> bool"

fun sdsHdrSize :: "sdstype \<Rightarrow> nat" where
  "sdsHdrSize SDS_TYPE_5 = 1"
| "sdsHdrSize SDS_TYPE_8 = 3"
| "sdsHdrSize SDS_TYPE_16 = 5"
| "sdsHdrSize SDS_TYPE_32 = 9"
| "sdsHdrSize SDS_TYPE_64 = 17"

definition sdsReqType :: "nat \<Rightarrow> sdstype" where
  "sdsReqType string_size =
     (if string_size < 2 ^ 5 then SDS_TYPE_5
      else if string_size < 2 ^ 8 then SDS_TYPE_8
      else if string_size < 2 ^ 16 then SDS_TYPE_16
      else if string_size < 2 ^ 32 then SDS_TYPE_32
      else SDS_TYPE_64)"

fun sdsTypeMaxSize :: "sdstype \<Rightarrow> nat" where
  "sdsTypeMaxSize SDS_TYPE_5 = 2 ^ 5 - 1"
| "sdsTypeMaxSize SDS_TYPE_8 = 2 ^ 8 - 1"
| "sdsTypeMaxSize SDS_TYPE_16 = 2 ^ 16 - 1"
| "sdsTypeMaxSize SDS_TYPE_32 = 2 ^ 32 - 1"
| "sdsTypeMaxSize SDS_TYPE_64 = 2 ^ 64 - 1"

definition sdslen :: "sds \<Rightarrow> nat" where
  "sdslen s = hdr_len s"

definition sdsavail :: "sds \<Rightarrow> nat" where
  "sdsavail s = (if hdr_type s = SDS_TYPE_5 then 0 else hdr_alloc s - hdr_len s)"

definition sdssetlen :: "sds \<Rightarrow> nat \<Rightarrow> sds" where
  "sdssetlen s newlen = s\<lparr>hdr_len := newlen mod 2 ^ type_bits (hdr_type s)\<rparr>"

definition sdsinclen :: "sds \<Rightarrow> nat \<Rightarrow> sds" where
  "sdsinclen s inc = s\<lparr>hdr_len := (hdr_len s + inc) mod 2 ^ type_bits (hdr_type s)\<rparr>"

definition sdsalloc :: "sds \<Rightarrow> nat" where
  "sdsalloc s = (if hdr_type s = SDS_TYPE_5 then hdr_len s else hdr_alloc s)"

definition sdssetalloc :: "sds \<Rightarrow> nat \<Rightarrow> sds" where
  "sdssetalloc s newlen =
     (if hdr_type s = SDS_TYPE_5 then s
      else s\<lparr>hdr_alloc := newlen mod 2 ^ type_bits (hdr_type s)\<rparr>)"

text \<open>Reading and writing the block.\<close>

definition sds_write :: "sds \<Rightarrow> nat \<Rightarrow> char list \<Rightarrow> sds option" where
  "sds_write s off bs = map_option (\<lambda>b. s\<lparr>buf := b\<rparr>) (store_at off bs (buf s))"

text \<open>The contents: the first \<^verbatim>\<open>len\<close> bytes.\<close>

definition text_of :: "sds \<Rightarrow> char list" where
  "text_of s = take (hdr_len s) (buf s)"

text \<open>\<open>strlen\<close> of the buffer: the number of bytes before the first NUL.\<close>

definition strlen :: "char list \<Rightarrow> nat" where
  "strlen b = length (takeWhile (\<lambda>c. c \<noteq> NUL) b)"

section \<open>Creation\<close>

datatype sds_init = Init_null | Sds_noinit | Init "char list"

definition i_sdsnewlen :: "allocator \<Rightarrow> sds_init \<Rightarrow> nat \<Rightarrow> bool \<Rightarrow> sds option option" where
  "i_sdsnewlen al init initlen trymalloc =
     (let type = sdsReqType initlen;
          type = (if type = SDS_TYPE_5 \<and> initlen = 0 then SDS_TYPE_8 else type);
          hdrlen = sdsHdrSize type;
          usable = al_usable al (hdrlen + initlen + 1)
      in if \<not> (initlen + hdrlen + 1) mod 2 ^ 64 > initlen then None
         else if trymalloc \<and> \<not> al_try al (hdrlen + initlen + 1) then Some None
         else do {
           let b = map (al_junk al) [0..<usable - hdrlen];
           b \<leftarrow> (if init = Init_null then store_at 0 (replicate (initlen + 1) NUL) b else Some b);
           let usable = usable - hdrlen - 1;
           let usable = min usable (sdsTypeMaxSize type);
           b \<leftarrow> (case init of
                    Init t \<Rightarrow> if initlen \<noteq> 0 then do { bs \<leftarrow> load_at 0 initlen t; store_at 0 bs b } else Some b
                  | _ \<Rightarrow> Some b);
           b \<leftarrow> store_at initlen [NUL] b;
           let alloc = (if type = SDS_TYPE_5 then initlen else usable);
           Some (Some \<lparr>hdr_type = type, hdr_len = initlen mod 2 ^ type_bits type,
                       hdr_alloc = alloc mod 2 ^ type_bits type, buf = b\<rparr>)
         })"

definition sdsnewlen :: "allocator \<Rightarrow> sds_init \<Rightarrow> nat \<Rightarrow> sds option" where
  "sdsnewlen al init initlen = Option.bind (i_sdsnewlen al init initlen False) (\<lambda>s. s)"

definition sdstrynewlen :: "allocator \<Rightarrow> sds_init \<Rightarrow> nat \<Rightarrow> sds option option" where
  "sdstrynewlen al init initlen = i_sdsnewlen al init initlen True"

definition sdsempty :: "allocator \<Rightarrow> sds option" where
  "sdsempty al = sdsnewlen al (Init []) 0"

text \<open>\<open>None\<close> is the NULL pointer; a C string is given by its characters without the terminator.\<close>

definition sdsnew :: "allocator \<Rightarrow> char list option \<Rightarrow> sds option" where
  "sdsnew al init =
     (case init of None \<Rightarrow> sdsnewlen al Init_null 0 | Some t \<Rightarrow> sdsnewlen al (Init t) (strlen t))"

definition sdsdup :: "allocator \<Rightarrow> sds \<Rightarrow> sds option" where
  "sdsdup al s = sdsnewlen al (Init (buf s)) (sdslen s)"

definition sdsupdatelen :: "sds \<Rightarrow> sds" where
  "sdsupdatelen s = sdssetlen s (strlen (buf s))"

definition sdsclear :: "sds \<Rightarrow> sds option" where
  "sdsclear s = sds_write (sdssetlen s 0) 0 [NUL]"

section \<open>Space\<close>

abbreviation (input) SDS_MAX_PREALLOC :: nat where "SDS_MAX_PREALLOC \<equiv> 1048576"

definition sdsMakeRoomFor :: "allocator \<Rightarrow> sds \<Rightarrow> nat \<Rightarrow> sds option" where
  "sdsMakeRoomFor al s addlen =
     (let oldtype = hdr_type s in
      if sdsavail s \<ge> addlen then Some s
      else let len = sdslen s;
               newlen = (len + addlen) mod 2 ^ 64
      in if \<not> newlen > len then None
      else let newlen = (if newlen < SDS_MAX_PREALLOC then newlen * 2
                         else (newlen + SDS_MAX_PREALLOC) mod 2 ^ 64);
               type = sdsReqType newlen;
               type = (if type = SDS_TYPE_5 then SDS_TYPE_8 else type);
               hdrlen = sdsHdrSize type
      in if \<not> (hdrlen + newlen + 1) mod 2 ^ 64 > len then None
      else do {
        let usable = al_usable al (hdrlen + newlen + 1);
        s \<leftarrow> (if oldtype = type
              then Some (s\<lparr>buf := realloc (al_junk al) (usable - hdrlen) (buf s)\<rparr>)
              else do {
                bs \<leftarrow> load_at 0 (len + 1) (buf s);
                b \<leftarrow> store_at 0 bs (map (al_junk al) [0..<usable - hdrlen]);
                Some (sdssetlen (s\<lparr>hdr_type := type, buf := b\<rparr>) len)
              });
        let usable = usable - hdrlen - 1;
        let usable = min usable (sdsTypeMaxSize type);
        Some (sdssetalloc s usable)
      })"

definition sdsRemoveFreeSpace :: "allocator \<Rightarrow> sds \<Rightarrow> sds option" where
  "sdsRemoveFreeSpace al s =
     (let oldtype = hdr_type s;
          oldhdrlen = sdsHdrSize oldtype;
          len = sdslen s
      in if sdsavail s = 0 then Some s
      else let type = sdsReqType len;
               hdrlen = sdsHdrSize type
      in do {
        s \<leftarrow> (if oldtype = type \<or> type_num type > type_num SDS_TYPE_8
              then Some (s\<lparr>buf := realloc (al_junk al) (len + 1) (buf s)\<rparr>)
              else do {
                bs \<leftarrow> load_at 0 (len + 1) (buf s);
                b \<leftarrow> store_at 0 bs (map (al_junk al) [0..<len + 1]);
                Some (sdssetlen (s\<lparr>hdr_type := type, buf := b\<rparr>) len)
              });
        Some (sdssetalloc s len)
      })"

definition sdsAllocSize :: "sds \<Rightarrow> nat" where
  "sdsAllocSize s = sdsHdrSize (hdr_type s) + sdsalloc s + 1"

text \<open>
  \<^verbatim>\<open>sdsIncrLen\<close> with the conversions of the increment in its assertions: to \<^verbatim>\<open>unsigned int\<close> for a
  decrement, and for both signs with the 32-bit header.
\<close>

definition sdsIncrLen :: "sds \<Rightarrow> int \<Rightarrow> sds option" where
  "sdsIncrLen s incr =
     (let len = int (hdr_len s);
          avail = int (hdr_alloc s) - len;
          ok = (case hdr_type s of
                  SDS_TYPE_5 \<Rightarrow> incr > 0 \<and> len + incr < 32 \<or> incr < 0 \<and> len \<ge> (- incr) mod 2 ^ 32
                | SDS_TYPE_32 \<Rightarrow> incr \<ge> 0 \<and> avail \<ge> incr mod 2 ^ 32 \<or> incr < 0 \<and> len \<ge> (- incr) mod 2 ^ 32
                | SDS_TYPE_64 \<Rightarrow> incr \<ge> 0 \<and> avail \<ge> incr \<or> incr < 0 \<and> len \<ge> - incr
                | _ \<Rightarrow> incr \<ge> 0 \<and> avail \<ge> incr \<or> incr < 0 \<and> len \<ge> (- incr) mod 2 ^ 32)
      in if \<not> ok then None
         else let newlen = nat ((len + incr) mod 2 ^ type_bits (hdr_type s))
              in sds_write (s\<lparr>hdr_len := newlen\<rparr>) newlen [NUL])"

definition sdsgrowzero :: "allocator \<Rightarrow> sds \<Rightarrow> nat \<Rightarrow> sds option" where
  "sdsgrowzero al s len =
     (let curlen = sdslen s
      in if len \<le> curlen then Some s
         else do {
           s \<leftarrow> sdsMakeRoomFor al s (len - curlen);
           s \<leftarrow> sds_write s curlen (replicate (len - curlen + 1) NUL);
           Some (sdssetlen s len)
         })"

section \<open>Appending and copying\<close>

text \<open>The source \<open>t\<close> is a block of which the first \<open>len\<close> bytes are read.\<close>

definition sdscatlen :: "allocator \<Rightarrow> sds \<Rightarrow> char list \<Rightarrow> nat \<Rightarrow> sds option" where
  "sdscatlen al s t len = do {
     let curlen = sdslen s;
     s \<leftarrow> sdsMakeRoomFor al s len;
     bs \<leftarrow> load_at 0 len t;
     s \<leftarrow> sds_write s curlen bs;
     let s = sdssetlen s (curlen + len);
     sds_write s (curlen + len) [NUL]
   }"

definition sdscat :: "allocator \<Rightarrow> sds \<Rightarrow> char list \<Rightarrow> sds option" where
  "sdscat al s t = sdscatlen al s t (strlen t)"

definition sdscatsds :: "allocator \<Rightarrow> sds \<Rightarrow> sds \<Rightarrow> sds option" where
  "sdscatsds al s t = sdscatlen al s (buf t) (sdslen t)"

definition sdscpylen :: "allocator \<Rightarrow> sds \<Rightarrow> char list \<Rightarrow> nat \<Rightarrow> sds option" where
  "sdscpylen al s t len = do {
     s \<leftarrow> (if sdsalloc s < len then sdsMakeRoomFor al s (len - sdslen s) else Some s);
     bs \<leftarrow> load_at 0 len t;
     s \<leftarrow> sds_write s 0 bs;
     s \<leftarrow> sds_write s len [NUL];
     Some (sdssetlen s len)
   }"

definition sdscpy :: "allocator \<Rightarrow> sds \<Rightarrow> char list \<Rightarrow> sds option" where
  "sdscpy al s t = sdscpylen al s t (strlen t)"

end
