(* ===== verification/Sds_Correct.thy ===== *)
theory Sds_Correct
  imports Sds
begin

text \<open>
  Every operation on a dynamic string keeps its invariant: the length is at most the space, the
  space is at most what the header can count and the block holds, and a NUL follows the contents.
  Appending and copying have the contents their names say, through every change of header type.
\<close>

section \<open>The invariant\<close>

definition alloc_ok :: "allocator \<Rightarrow> bool" where
  "alloc_ok al \<longleftrightarrow> (\<forall>n. n \<le> al_usable al n)"

text \<open>While a string is being extended its terminator may be missing.\<close>

definition sds_space :: "sds \<Rightarrow> bool" where
  "sds_space s \<longleftrightarrow>
     hdr_len s \<le> sdsalloc s \<and> sdsalloc s \<le> sdsTypeMaxSize (hdr_type s) \<and> sdsalloc s < length (buf s)"

definition sds_ok :: "sds \<Rightarrow> bool" where
  "sds_ok s \<longleftrightarrow>
     hdr_len s \<le> sdsalloc s \<and> sdsalloc s \<le> sdsTypeMaxSize (hdr_type s) \<and>
     sdsalloc s < length (buf s) \<and> buf s ! hdr_len s = NUL"

lemma sds_ok_space: "sds_ok s \<longleftrightarrow> sds_space s \<and> buf s ! hdr_len s = NUL"
  by (auto simp: sds_ok_def sds_space_def)

lemma type_max: "n \<le> sdsTypeMaxSize t \<longleftrightarrow> n < 2 ^ type_bits t"
  by (cases t) auto

lemma mod_type [simp]: "n \<le> sdsTypeMaxSize t \<Longrightarrow> n mod 2 ^ type_bits t = n"
  using type_max [of n t] by simp

lemma ReqType_max: "n < 2 ^ 64 \<Longrightarrow> n \<le> sdsTypeMaxSize (sdsReqType n)"
  by (simp add: sdsReqType_def)

lemma type_ne5: "n \<le> sdsTypeMaxSize t \<Longrightarrow> n \<le> sdsTypeMaxSize (if t = SDS_TYPE_5 then SDS_TYPE_8 else t)"
  by (cases t) auto

lemma HdrSize_le: "sdsHdrSize t \<le> 17"
  by (cases t) auto

lemma sds_ok_len: "sds_ok s \<Longrightarrow> hdr_len s < length (buf s)"
  by (simp add: sds_ok_def)

lemma length_text_of: "sds_ok s \<Longrightarrow> length (text_of s) = sdslen s"
  by (simp add: sds_ok_def text_of_def sdslen_def min_absorb2)

lemma store_at_Some:
  "off + length bs \<le> length m \<Longrightarrow> store_at off bs m = Some (take off m @ bs @ drop (off + length bs) m)"
  by (simp add: store_at_def)

lemma load_at_Some: "off + n \<le> length m \<Longrightarrow> load_at off n m = Some (take n (drop off m))"
  by (simp add: load_at_def)

text \<open>Setting the length, once the terminator is in place.\<close>

lemma sds_setlen_space:
  assumes "sds_space s" "n \<le> sdsalloc s" "length b = length (buf s)" "b ! n = NUL"
  shows "sds_ok (sdssetlen (s\<lparr>buf := b\<rparr>) n) \<and> text_of (sdssetlen (s\<lparr>buf := b\<rparr>) n) = take n b \<and>
    sdslen (sdssetlen (s\<lparr>buf := b\<rparr>) n) = n"
proof -
  have "n \<le> sdsTypeMaxSize (hdr_type s)" using assms(1,2) by (simp add: sds_space_def)
  then show ?thesis
    using assms by (auto simp: sds_ok_def sds_space_def sdssetlen_def sdsalloc_def text_of_def sdslen_def split: if_splits)
qed

lemmas sds_setlen_ok = sds_setlen_space [OF conjunct1 [OF sds_ok_space [THEN iffD1]]]

section \<open>Creation\<close>

lemma i_sdsnewlen_correct:
  assumes "alloc_ok al" "initlen < 2 ^ 63" "\<And>t. init = Init t \<Longrightarrow> initlen \<le> length t" "try \<Longrightarrow> \<forall>n. al_try al n"
  shows "\<exists>s. i_sdsnewlen al init initlen try = Some (Some s) \<and> sds_ok s \<and> sdslen s = initlen \<and>
    (\<forall>t. init = Init t \<longrightarrow> text_of s = take initlen t) \<and> (init = Init_null \<longrightarrow> text_of s = replicate initlen NUL)"
proof -
  define type where "type = (if sdsReqType initlen = SDS_TYPE_5 \<and> initlen = 0 then SDS_TYPE_8 else sdsReqType initlen)"
  define hdrlen where "hdrlen = sdsHdrSize type"
  define usable where "usable = al_usable al (hdrlen + initlen + 1)"
  define junk where "junk = map (al_junk al) [0..<usable - hdrlen]"
  have mx: "initlen \<le> sdsTypeMaxSize type" using ReqType_max [of initlen] assms(2) by (simp add: type_def)
  have u: "hdrlen + initlen + 1 \<le> usable" using assms(1) by (simp add: alloc_ok_def usable_def)
  have as: "(initlen + hdrlen + 1) mod 2 ^ 64 > initlen"
    using assms(2) HdrSize_le [of type] by (simp add: hdrlen_def)
  have lj: "length junk = usable - hdrlen" by (simp add: junk_def)
  let ?b = "case init of Init t \<Rightarrow> take initlen t | Init_null \<Rightarrow> replicate initlen NUL | Sds_noinit \<Rightarrow> take initlen junk"
  have lb: "length ?b = initlen" using assms(3) u lj by (auto split: sds_init.splits)
  let ?buf = "?b @ NUL # drop (Suc initlen) junk"
  let ?s = "\<lparr>hdr_type = type, hdr_len = initlen mod 2 ^ type_bits type,
    hdr_alloc = (if type = SDS_TYPE_5 then initlen else min (usable - hdrlen - 1) (sdsTypeMaxSize type)) mod 2 ^ type_bits type,
    buf = ?buf\<rparr>"
  have r: "i_sdsnewlen al init initlen try = Some (Some ?s)"
  proof (cases init)
    case Init_null
    have "store_at 0 (replicate (initlen + 1) NUL) junk = Some (replicate (initlen + 1) NUL @ drop (initlen + 1) junk)"
      using u lj by (simp add: store_at_def)
    moreover have "store_at initlen [NUL] (replicate (initlen + 1) NUL @ drop (initlen + 1) junk) = Some ?buf"
      using Init_null u lj by (simp add: store_at_def replicate_append_same [symmetric] del: replicate_Suc)
    ultimately show ?thesis
      using as assms(4) Init_null
      unfolding i_sdsnewlen_def Let_def type_def [symmetric] hdrlen_def [symmetric] usable_def [symmetric] junk_def [symmetric]
      by auto
  next
    case Sds_noinit
    have "store_at initlen [NUL] junk = Some ?buf" using Sds_noinit u lj by (simp add: store_at_def)
    then show ?thesis
      using as assms(4) Sds_noinit
      unfolding i_sdsnewlen_def Let_def type_def [symmetric] hdrlen_def [symmetric] usable_def [symmetric] junk_def [symmetric]
      by auto
  next
    case (Init t)
    have "load_at 0 initlen t = Some (take initlen t)" using assms(3) Init by (simp add: load_at_def)
    moreover have "store_at 0 (take initlen t) junk = Some (take initlen t @ drop initlen junk)"
      using u lj assms(3) [OF Init] by (simp add: store_at_def min_absorb2)
    moreover have "store_at initlen [NUL] (take initlen t @ drop initlen junk) = Some ?buf"
      using Init u lj assms(3) [OF Init] by (simp add: store_at_def min_absorb2)
    moreover have "store_at 0 [NUL] junk = Some (NUL # drop 1 junk)" if "initlen = 0"
      using u lj that by (simp add: store_at_def)
    ultimately show ?thesis
      using as assms(4) Init
      unfolding i_sdsnewlen_def Let_def type_def [symmetric] hdrlen_def [symmetric] usable_def [symmetric] junk_def [symmetric]
      by (cases "initlen = 0") auto
  qed
  have "sds_ok ?s"
    using mx lb u lj by (cases "type = SDS_TYPE_5") (simp_all add: sds_ok_def sdsalloc_def nth_append, linarith+)
  moreover have "sdslen ?s = initlen" "text_of ?s = ?b" using mx lb by (simp_all add: sdslen_def text_of_def)
  ultimately show ?thesis using r by (auto split: sds_init.splits)
qed

corollary sdsnewlen_correct:
  assumes "alloc_ok al" "n < 2 ^ 63" "n \<le> length t"
  shows "\<exists>s. sdsnewlen al (Init t) n = Some s \<and> sds_ok s \<and> text_of s = take n t"
  using i_sdsnewlen_correct [of al n "Init t" False] assms by (auto simp: sdsnewlen_def)

lemma sdsempty_correct: "alloc_ok al \<Longrightarrow> \<exists>s. sdsempty al = Some s \<and> sds_ok s \<and> text_of s = []"
  using sdsnewlen_correct [of al 0 "[]"] by (simp add: sdsempty_def)

lemma sdsdup_correct:
  assumes "alloc_ok al" "sds_ok s" "sdslen s < 2 ^ 63"
  shows "\<exists>r. sdsdup al s = Some r \<and> sds_ok r \<and> text_of r = text_of s"
  using sdsnewlen_correct [of al "sdslen s" "buf s"] assms
  by (auto simp: sdsdup_def text_of_def sdslen_def sds_ok_def)

section \<open>Space\<close>

lemma take_realloc: "k \<le> n \<Longrightarrow> k \<le> length m \<Longrightarrow> take k (realloc j n m) = take k m"
  by (simp add: realloc_def min_absorb1)

lemma nth_realloc: "k < n \<Longrightarrow> k < length m \<Longrightarrow> realloc j n m ! k = m ! k"
  by (simp add: realloc_def nth_append)

text \<open>A block that starts with the string and its terminator, under a header wide enough.\<close>

lemma sds_moved:
  assumes "sds_space s" "len = hdr_len s" "len \<le> a" "a \<le> sdsTypeMaxSize t" "t = SDS_TYPE_5 \<Longrightarrow> a = len"
    and "a < length b" "take len b = take len (buf s)" "b ! len = buf s ! len"
    and "hdr_type r = t" "hdr_len r = len" "t = SDS_TYPE_5 \<or> hdr_alloc r = a" "buf r = b"
  shows "sds_space r \<and> text_of r = text_of s \<and> sdslen r = sdslen s \<and> sdsalloc r = a \<and> (sds_ok s \<longrightarrow> sds_ok r)"
  using assms by (auto simp: sds_ok_def sds_space_def sdsalloc_def text_of_def sdslen_def)

lemma alloc_avail: "sds_space s \<Longrightarrow> sdsalloc s = sdslen s + sdsavail s"
  by (auto simp: sds_space_def sdsalloc_def sdsavail_def sdslen_def split: if_splits)

lemma sdsMakeRoomFor_space:
  assumes "sds_space s" "alloc_ok al" "sdslen s + addlen < 2 ^ 63"
  shows "\<exists>r. sdsMakeRoomFor al s addlen = Some r \<and> sds_space r \<and> text_of r = text_of s \<and>
    sdslen r = sdslen s \<and> sdslen s + addlen \<le> sdsalloc r \<and> (sds_ok s \<longrightarrow> sds_ok r)"
proof (cases "sdsavail s \<ge> addlen")
  case True
  then show ?thesis using assms alloc_avail [OF assms(1)] by (simp add: sdsMakeRoomFor_def Let_def)
next
  case False
  define len where "len = hdr_len s"
  define newlen where "newlen = (if len + addlen < SDS_MAX_PREALLOC then (len + addlen) * 2 else len + addlen + SDS_MAX_PREALLOC)"
  define type where "type = (if sdsReqType newlen = SDS_TYPE_5 then SDS_TYPE_8 else sdsReqType newlen)"
  define hdrlen where "hdrlen = sdsHdrSize type"
  define usable where "usable = al_usable al (hdrlen + newlen + 1)"
  have b: "len + addlen < 2 ^ 63" using assms(3) by (simp add: len_def sdslen_def)
  have n: "len + addlen \<le> newlen" "newlen < 2 ^ 63 + SDS_MAX_PREALLOC" using b by (auto simp: newlen_def)
  have a: "addlen > 0" using False by simp
  have t: "newlen \<le> sdsTypeMaxSize type" "type \<noteq> SDS_TYPE_5"
    using type_ne5 [OF ReqType_max [of newlen]] n by (simp_all add: type_def)
  have h: "hdrlen \<le> 17" by (simp add: hdrlen_def HdrSize_le)
  have u: "hdrlen + newlen + 1 \<le> usable" using assms(2) by (simp add: usable_def alloc_ok_def)
  define al' where "al' = min (usable - hdrlen - 1) (sdsTypeMaxSize type)"
  have a': "newlen \<le> al'" "al' \<le> sdsTypeMaxSize type" "al' < usable - hdrlen" "len \<le> al'"
    using u t n by (auto simp: al'_def)
  have lb: "len < length (buf s)" using assms(1) by (auto simp: sds_space_def len_def)
  define b1 where "b1 = realloc (al_junk al) (usable - hdrlen) (buf s)"
  define b2 where "b2 = take (len + 1) (buf s) @ drop (len + 1) (map (al_junk al) [0..<usable - hdrlen])"
  define r where "r = (if hdr_type s = type then s\<lparr>buf := b1, hdr_alloc := al'\<rparr>
     else s\<lparr>hdr_type := type, buf := b2, hdr_alloc := al'\<rparr>)"
  have s2: "store_at 0 (take (len + 1) (buf s)) (map (al_junk al) [0..<usable - hdrlen]) = Some b2"
    using u n lb a by (simp add: store_at_def b2_def min_absorb2)
  have sets: "sdssetalloc (s\<lparr>buf := b1\<rparr>) al' = s\<lparr>buf := b1, hdr_alloc := al'\<rparr>" if "hdr_type s = type"
    using that t a' by (simp add: sdssetalloc_def)
  have sets2: "sdssetalloc (sdssetlen (s\<lparr>hdr_type := type, buf := b2\<rparr>) len) al' = s\<lparr>hdr_type := type, buf := b2, hdr_alloc := al'\<rparr>"
    using t a' n by (simp add: sdssetalloc_def sdssetlen_def len_def)
  have ld: "load_at 0 (len + 1) (buf s) = Some (take (len + 1) (buf s))" using lb by (simp add: load_at_def)
  have "sdsMakeRoomFor al s addlen = Some r"
  proof -
    have m1: "(len + addlen) mod 2 ^ 64 = len + addlen" using b by simp
    have m2: "(if len + addlen < SDS_MAX_PREALLOC then (len + addlen) * 2 else (len + addlen + SDS_MAX_PREALLOC) mod 2 ^ 64) = newlen"
      using b by (simp add: newlen_def)
    have m3: "(hdrlen + newlen + 1) mod 2 ^ 64 = hdrlen + newlen + 1" using n h by simp
    show ?thesis
      unfolding sdsMakeRoomFor_def Let_def sdslen_def len_def [symmetric] m1 m2 type_def [symmetric]
        hdrlen_def [symmetric] usable_def [symmetric] m3 ld b1_def [symmetric] al'_def [symmetric]
      using False a n s2 sets sets2 by (simp add: r_def)
  qed
  moreover have "sds_space r \<and> text_of r = text_of s \<and> sdslen r = sdslen s \<and> sdsalloc r = al' \<and> (sds_ok s \<longrightarrow> sds_ok r)"
  proof (rule sds_moved [OF assms(1) len_def a'(4,2)])
    show "take len (if hdr_type s = type then b1 else b2) = take len (buf s)"
      using a' lb by (simp add: b1_def b2_def take_realloc)
    show "(if hdr_type s = type then b1 else b2) ! len = buf s ! len"
      using a' lb by (simp add: b1_def b2_def nth_realloc nth_append)
    show "al' < length (if hdr_type s = type then b1 else b2)"
      using a' lb by (simp add: b1_def b2_def realloc_def) arith
  qed (use t in \<open>auto simp: r_def len_def\<close>)
  ultimately show ?thesis using a' n by (auto simp: len_def sdslen_def)
qed

corollary sdsMakeRoomFor_correct:
  assumes "sds_ok s" "alloc_ok al" "sdslen s + addlen < 2 ^ 63"
  shows "\<exists>r. sdsMakeRoomFor al s addlen = Some r \<and> sds_ok r \<and> text_of r = text_of s \<and>
    sdslen r = sdslen s \<and> sdslen s + addlen \<le> sdsalloc r"
  using sdsMakeRoomFor_space [OF _ assms(2,3)] assms(1) sds_ok_space by blast

lemma sdsRemoveFreeSpace_correct:
  assumes "sds_ok s"
  shows "\<exists>r. sdsRemoveFreeSpace al s = Some r \<and> sds_ok r \<and> text_of r = text_of s \<and> sdsavail r = 0 \<and>
    sdsAllocSize r \<le> sdsAllocSize s"
proof (cases "sdsavail s = 0")
  case True
  then show ?thesis using assms by (simp add: sdsRemoveFreeSpace_def Let_def)
next
  case False
  define len where "len = hdr_len s"
  define type where "type = sdsReqType len"
  have lb: "len < length (buf s)" "buf s ! len = NUL" "len \<le> sdsTypeMaxSize (hdr_type s)"
    using assms by (auto simp: sds_ok_def len_def)
  have n5: "hdr_type s \<noteq> SDS_TYPE_5" using False by (auto simp: sdsavail_def)
  have t: "len \<le> sdsTypeMaxSize type" using lb(3) ReqType_max [of len] by (cases "hdr_type s") (auto simp: type_def)
  define b1 where "b1 = realloc (al_junk al) (len + 1) (buf s)"
  define b2 where "b2 = take (len + 1) (buf s)"
  define c where "c \<longleftrightarrow> hdr_type s = type \<or> type_num type > type_num SDS_TYPE_8"
  define r where "r = (if c then sdssetalloc (s\<lparr>buf := b1\<rparr>) len
     else sdssetalloc (sdssetlen (s\<lparr>hdr_type := type, buf := b2\<rparr>) len) len)"
  have ld: "load_at 0 (len + 1) (buf s) = Some b2" using lb by (simp add: load_at_def b2_def)
  have st: "store_at 0 b2 (map (al_junk al) [0..<len + 1]) = Some b2" using lb by (simp add: store_at_def b2_def min_absorb2)
  have "sdsRemoveFreeSpace al s = Some r"
    unfolding sdsRemoveFreeSpace_def Let_def sdslen_def len_def [symmetric] type_def [symmetric] ld
      c_def [symmetric] b1_def [symmetric]
    using False st by (simp add: r_def)
  moreover have ok: "sds_space r \<and> text_of r = text_of s \<and> sdslen r = sdslen s \<and> sdsalloc r = len \<and> (sds_ok s \<longrightarrow> sds_ok r)"
  proof (rule sds_moved [OF _ len_def])
    show "sds_space s" using assms by (simp add: sds_ok_space)
    show "take len (if c then b1 else b2) = take len (buf s)"
      using lb by (simp add: b1_def b2_def take_realloc)
    show "(if c then b1 else b2) ! len = buf s ! len" using lb by (simp add: b1_def b2_def nth_realloc nth_append)
    show "len < length (if c then b1 else b2)" using lb by (simp add: b1_def b2_def realloc_def)
    show "len \<le> sdsTypeMaxSize (if c then hdr_type s else type)" using t lb by simp
  qed (use t lb n5 in \<open>auto simp: r_def len_def sdssetalloc_def sdssetlen_def\<close>)
  moreover have "sds_ok r" "sdsavail r = 0" using alloc_avail [of r] ok assms by (simp_all add: len_def sdslen_def)
  moreover have "sdsHdrSize (hdr_type r) \<le> sdsHdrSize (hdr_type s)"
    using lb(3) n5 by (cases "hdr_type s")
      (auto simp: r_def c_def type_def sdsReqType_def sdssetalloc_def sdssetlen_def split: if_splits)
  moreover have "len \<le> sdsalloc s" using assms by (simp add: sds_ok_def len_def)
  ultimately show ?thesis by (auto simp: sdsAllocSize_def intro: add_le_mono)
qed

section \<open>Lengths\<close>

lemma sds_write_Some:
  "off + length bs \<le> length (buf s) \<Longrightarrow>
   sds_write s off bs = Some (s\<lparr>buf := take off (buf s) @ bs @ drop (off + length bs) (buf s)\<rparr>)"
  by (simp add: sds_write_def store_at_def)

lemma sdssetlen_simps [simp]:
  "buf (sdssetlen s n) = buf s" "hdr_type (sdssetlen s n) = hdr_type s"
  "hdr_alloc (sdssetlen s n) = hdr_alloc s" "(sdssetlen s n)\<lparr>buf := b\<rparr> = sdssetlen (s\<lparr>buf := b\<rparr>) n"
  by (simp_all add: sdssetlen_def)

lemma sdsclear_correct: "sds_ok s \<Longrightarrow> \<exists>r. sdsclear s = Some r \<and> sds_ok r \<and> text_of r = []"
  using sds_setlen_ok [of s 0 "NUL # drop 1 (buf s)"] sds_ok_len [of s]
  by (auto simp: sdsclear_def sds_write_Some)

lemma sdsupdatelen_correct:
  assumes "sds_ok s"
  shows "sds_ok (sdsupdatelen s) \<and> text_of (sdsupdatelen s) = takeWhile (\<lambda>c. c \<noteq> NUL) (text_of s)"
proof -
  define n where "n = strlen (buf s)"
  have l: "hdr_len s < length (buf s)" "buf s ! hdr_len s = NUL" using assms by (auto simp: sds_ok_def)
  have n: "n \<le> hdr_len s"
    using l unfolding n_def strlen_def
    by (metis (mono_tags, lifting) leI nth_mem set_takeWhileD takeWhile_nth)
  have z: "buf s ! n = NUL" using n l nth_length_takeWhile [of "\<lambda>c. c \<noteq> NUL" "buf s"] by (simp add: n_def strlen_def)
  have "takeWhile (\<lambda>c. c \<noteq> NUL) (take (hdr_len s) (buf s)) = take n (take (hdr_len s) (buf s))"
  proof (rule takeWhile_eq_take_P_nth)
    show "take (hdr_len s) (buf s) ! i \<noteq> NUL" if "i < n" for i
      using that n nth_mem [of i "takeWhile (\<lambda>c. c \<noteq> NUL) (buf s)"] takeWhile_nth [of i "\<lambda>c. c \<noteq> NUL" "buf s"]
      by (auto simp: n_def strlen_def dest: set_takeWhileD)
  qed (use n z l in auto)
  also have "\<dots> = take n (buf s)" using n by (simp add: min_absorb1)
  finally show ?thesis
    using sds_setlen_ok [of s n "buf s"] assms n z by (auto simp: sdsupdatelen_def n_def [symmetric] sds_ok_def text_of_def)
qed

text \<open>\<^verbatim>\<open>sdsIncrLen\<close> after the caller has written into the free space, or to drop the end.\<close>

lemma sdsIncrLen_space:
  assumes "sds_space s" "hdr_type s \<noteq> SDS_TYPE_5" "- int (sdslen s) \<le> incr" "incr \<le> int (sdsavail s)"
  shows "\<exists>r. sdsIncrLen s incr = Some r \<and> sds_ok r \<and> text_of r = take (nat (int (sdslen s) + incr)) (buf s)"
proof -
  define n where "n = nat (int (hdr_len s) + incr)"
  have n: "int n = int (hdr_len s) + incr" "n \<le> sdsalloc s" "n \<le> sdsTypeMaxSize (hdr_type s)"
    using assms alloc_avail [OF assms(1)] by (auto simp: n_def sdslen_def sds_space_def)
  have bits: "n < 2 ^ type_bits (hdr_type s)" using n type_max by blast
  have nn: "nat ((int (hdr_len s) + incr) mod 2 ^ type_bits (hdr_type s)) = n"
  proof -
    have "(int (hdr_len s) + incr) mod 2 ^ type_bits (hdr_type s) = int (n mod 2 ^ type_bits (hdr_type s))"
      unfolding n(1) [symmetric] by (simp add: zmod_int)
    then show ?thesis using bits by simp
  qed
  have al: "hdr_alloc s \<le> sdsTypeMaxSize (hdr_type s)" "hdr_len s \<le> hdr_alloc s" "sdsavail s = hdr_alloc s - hdr_len s"
    using assms(1,2) by (simp_all add: sds_space_def sdsalloc_def sdsavail_def)
  have b: "n < length (buf s)" using n assms(1) by (simp add: sds_space_def)
  let ?b = "take n (buf s) @ [NUL] @ drop (n + 1) (buf s)"
  have m32: "- incr mod 4294967296 = - incr" if "incr < 0" "hdr_type s \<noteq> SDS_TYPE_64"
    using that al assms(2,3) by (cases "hdr_type s") (auto simp: sdslen_def)
  have m32': "incr mod 4294967296 = incr" if "incr \<ge> 0" "hdr_type s = SDS_TYPE_32"
    using that al assms(4) by auto
  have "sdsIncrLen s incr = sds_write (s\<lparr>hdr_len := n\<rparr>) n [NUL]"
    unfolding sdsIncrLen_def Let_def nn using assms(2-4) al m32 m32'
    by (cases "hdr_type s"; cases "incr \<ge> 0") (auto simp: sdslen_def)
  also have "\<dots> = Some (sdssetlen (s\<lparr>buf := ?b\<rparr>) n)"
    using b bits by (simp add: sds_write_Some sdssetlen_def)
  finally show ?thesis
    using sds_setlen_space [OF assms(1) n(2), of ?b] b by (auto simp: nth_append sdslen_def n_def [symmetric])
qed

lemmas sdsIncrLen_correct = sdsIncrLen_space [OF conjunct1 [OF sds_ok_space [THEN iffD1]]]

section \<open>Appending and copying\<close>

lemma sdsgrowzero_correct:
  assumes "sds_ok s" "alloc_ok al" "len < 2 ^ 63"
  shows "\<exists>r. sdsgrowzero al s len = Some r \<and> sds_ok r \<and>
    text_of r = text_of s @ replicate (len - sdslen s) NUL"
proof (cases "len \<le> sdslen s")
  case True
  then show ?thesis using assms by (simp add: sdsgrowzero_def)
next
  case False
  then obtain q where q: "sdsMakeRoomFor al s (len - sdslen s) = Some q" "sds_ok q" "text_of q = text_of s"
    "sdslen q = sdslen s" "len \<le> sdsalloc q"
    using sdsMakeRoomFor_correct [OF assms(1,2), of "len - sdslen s"] assms(3) by auto
  have l: "len < length (buf q)" using q(2,5) by (simp add: sds_ok_def)
  have tx: "text_of s = take (sdslen s) (buf q)" using q(3,4) by (simp add: text_of_def sdslen_def)
  have rep: "replicate (len - sdslen s + 1) NUL = replicate (len - sdslen s) NUL @ [NUL]"
    by (simp add: replicate_append_same)
  let ?b = "take (sdslen s) (buf q) @ replicate (len - sdslen s) NUL @ [NUL] @ drop (len + 1) (buf q)"
  have "sds_write q (sdslen s) (replicate (len - sdslen s + 1) NUL) = Some (q\<lparr>buf := ?b\<rparr>)"
    unfolding rep using False l by (simp add: sds_write_Some)
  then have e: "sdsgrowzero al s len = Some (sdssetlen (q\<lparr>buf := ?b\<rparr>) len)"
    using False q(1) by (simp add: sdsgrowzero_def Let_def)
  have "take len ?b = text_of s @ replicate (len - sdslen s) NUL" "?b ! len = NUL" "length ?b = length (buf q)"
    using False l tx by (auto simp: nth_append)
  then show ?thesis using e sds_setlen_ok [OF q(2,5), of ?b] by auto
qed

lemma sdscatlen_correct:
  assumes "sds_ok s" "alloc_ok al" "sdslen s + len < 2 ^ 63" "len \<le> length t"
  shows "\<exists>r. sdscatlen al s t len = Some r \<and> sds_ok r \<and> text_of r = text_of s @ take len t"
proof -
  obtain q where q: "sdsMakeRoomFor al s len = Some q" "sds_ok q" "text_of q = text_of s"
    "sdslen q = sdslen s" "sdslen s + len \<le> sdsalloc q"
    using sdsMakeRoomFor_correct [OF assms(1-3)] by auto
  have l: "sdslen s + len < length (buf q)" using q(2,5) by (simp add: sds_ok_def)
  have tx: "text_of s = take (sdslen s) (buf q)" using q(3,4) by (simp add: text_of_def sdslen_def)
  let ?n = "sdslen s + len"
  let ?b = "take (sdslen s) (buf q) @ take len t @ [NUL] @ drop (?n + 1) (buf q)"
  have w: "sds_write q (sdslen s) (take len t) = Some (q\<lparr>buf := take (sdslen s) (buf q) @ take len t @ drop ?n (buf q)\<rparr>)"
    using l assms(4) by (simp add: sds_write_Some min_absorb2)
  have e: "sdscatlen al s t len = Some (sdssetlen (q\<lparr>buf := ?b\<rparr>) ?n)"
    using q(1) l assms(4) w by (simp add: sdscatlen_def Let_def load_at_Some sds_write_Some min_absorb2)
  have "take ?n ?b = text_of s @ take len t" "?b ! ?n = NUL" "length ?b = length (buf q)"
    using l tx assms(4) by (auto simp: nth_append min_absorb2)
  then show ?thesis using e sds_setlen_ok [OF q(2,5), of ?b] by auto
qed

lemma sdscpylen_correct:
  assumes "sds_ok s" "alloc_ok al" "len < 2 ^ 63" "len \<le> length t"
  shows "\<exists>r. sdscpylen al s t len = Some r \<and> sds_ok r \<and> text_of r = take len t"
proof -
  obtain q where q: "(if sdsalloc s < len then sdsMakeRoomFor al s (len - sdslen s) else Some s) = Some q"
    "sds_ok q" "len \<le> sdsalloc q"
  proof (cases "sdsalloc s < len")
    case True
    have "sdslen s < len" using True assms(1) by (simp add: sds_ok_def sdslen_def)
    then show ?thesis using that True sdsMakeRoomFor_correct [OF assms(1,2), of "len - sdslen s"] assms(3) by auto
  qed (use that assms in auto)
  have l: "len < length (buf q)" using q(2,3) by (simp add: sds_ok_def)
  let ?b = "take len t @ [NUL] @ drop (len + 1) (buf q)"
  have e: "sdscpylen al s t len = Some (sdssetlen (q\<lparr>buf := ?b\<rparr>) len)"
    unfolding sdscpylen_def q(1) using l assms(4) by (simp add: load_at_Some sds_write_Some min_absorb2)
  have "take len ?b = take len t" "?b ! len = NUL" "length ?b = length (buf q)"
    using l assms(4) by (auto simp: nth_append)
  then show ?thesis using e sds_setlen_ok [OF q(2,3), of ?b] by auto
qed

corollary sdscatsds_correct:
  assumes "sds_ok s" "sds_ok t" "alloc_ok al" "sdslen s + sdslen t < 2 ^ 63"
  shows "\<exists>r. sdscatsds al s t = Some r \<and> sds_ok r \<and> text_of r = text_of s @ text_of t"
  using sdscatlen_correct [OF assms(1,3,4), of "buf t"] assms(2)
  by (simp add: sdscatsds_def text_of_def sdslen_def sds_ok_len less_imp_le)

end
