(* ===== verification/Sds_Str.thy ===== *)
theory Sds_Str
  imports Sds_Correct
begin

text \<open>
  The operations of \<^verbatim>\<open>sds.c\<close> that work on the contents of a string: numbers and formats, trimming and
  ranges, comparison, splitting and joining, and the quoted representation with its parser. A C
  string is the list of its characters without the terminator; reading it at its length gives NUL.
\<close>

section \<open>Numbers\<close>

text \<open>The loop that writes the digits of \<open>v\<close> from position \<open>p\<close>, the last digit first.\<close>

function ll2str_digits :: "u64 \<Rightarrow> nat \<Rightarrow> char list \<Rightarrow> (nat \<times> char list) option" where
  "ll2str_digits v p b = do {
     b \<leftarrow> store_at p [digit_char (unat (v mod 10))] b;
     let v = v div 10;
     if v \<noteq> 0 then ll2str_digits v (p + 1) b else Some (p + 1, b)
   }"
  by pat_completeness auto
termination
proof (relation "measure (\<lambda>(v, p, b). unat v)")
  fix v x :: u64 and p b b'
  assume "x = v div 10" "x \<noteq> 0"
  then have "unat x = unat v div 10" "unat x \<noteq> 0" by (simp add: unat_div) (metis \<open>x \<noteq> 0\<close> unat_eq_zero)
  then show "((x, p + 1, b), v, p, b') \<in> measure (\<lambda>(v, p, b). unat v)" by simp
qed simp

text \<open>The loop that exchanges the characters at \<open>s\<close> and \<open>p\<close> while \<open>s < p\<close>.\<close>

function reverse_loop :: "nat \<Rightarrow> nat \<Rightarrow> char list \<Rightarrow> char list" where
  "reverse_loop s p b =
     (if s < p then reverse_loop (s + 1) (p - 1) (b[s := b ! p, p := b ! s]) else b)"
  by pat_completeness auto
termination by (relation "measure (\<lambda>(s, p, b). p - s)") auto

text \<open>
  \<^verbatim>\<open>sdsll2str\<close> on a buffer. The negation of the smallest value wraps around to \<open>2 ^ 63\<close>.
\<close>

definition sdsll2str :: "char list \<Rightarrow> u64 \<Rightarrow> (nat \<times> char list) option" where
  "sdsll2str s val = do {
     let v = (if sint val < 0 then - val else val);
     (p, s) \<leftarrow> ll2str_digits v 0 s;
     (p, s) \<leftarrow> (if sint val < 0 then map_option (\<lambda>s. (p + 1, s)) (store_at p ''-'' s) else Some (p, s));
     s \<leftarrow> store_at p [NUL] s;
     Some (p, reverse_loop 0 (p - 1) s)
   }"

definition sdsull2str :: "char list \<Rightarrow> u64 \<Rightarrow> (nat \<times> char list) option" where
  "sdsull2str s v = do {
     (p, s) \<leftarrow> ll2str_digits v 0 s;
     s \<leftarrow> store_at p [NUL] s;
     Some (p, reverse_loop 0 (p - 1) s)
   }"

abbreviation (input) SDS_LLSTR_SIZE :: nat where "SDS_LLSTR_SIZE \<equiv> 21"

definition llstr_buf :: "allocator \<Rightarrow> char list" where
  "llstr_buf al = map (al_junk al) [0..<SDS_LLSTR_SIZE]"

definition sdsfromlonglong :: "allocator \<Rightarrow> u64 \<Rightarrow> sds option" where
  "sdsfromlonglong al val = do {
     (len, b) \<leftarrow> sdsll2str (llstr_buf al) val;
     sdsnewlen al (Init b) len
   }"

section \<open>Formats\<close>

text \<open>The variable arguments; using one under another type is undefined, here \<^const>\<open>None\<close>.\<close>

datatype fmt_arg =
  Arg_s string | Arg_S sds | Arg_i "32 word" | Arg_I u64 | Arg_u "32 word" | Arg_U u64

text \<open>Appending \<open>l\<close> bytes of \<open>str\<close> at \<open>i\<close>, as each conversion does.\<close>

definition fmt_put :: "allocator \<Rightarrow> sds \<Rightarrow> nat \<Rightarrow> char list \<Rightarrow> nat \<Rightarrow> (sds \<times> nat) option" where
  "fmt_put al s i str l = do {
     s \<leftarrow> (if sdsavail s < l then sdsMakeRoomFor al s l else Some s);
     bs \<leftarrow> load_at 0 l str;
     s \<leftarrow> sds_write s i bs;
     Some (sdsinclen s l, i + l)
   }"

definition fmt_char :: "sds \<Rightarrow> nat \<Rightarrow> char \<Rightarrow> (sds \<times> nat) option" where
  "fmt_char s i c = do {
     s \<leftarrow> sds_write s i [c];
     Some (sdsinclen s 1, i + 1)
   }"

text \<open>The conversions after a percent sign: \<open>c\<close> is the character that follows it.\<close>

definition fmt_conv :: "allocator \<Rightarrow> sds \<Rightarrow> nat \<Rightarrow> char \<Rightarrow> fmt_arg list \<Rightarrow> (sds \<times> nat \<times> fmt_arg list) option" where
  "fmt_conv al s i c ap =
     (if c = CHR ''s'' then
        (case ap of Arg_s str # ap \<Rightarrow> map_option (\<lambda>(s, i). (s, i, ap)) (fmt_put al s i str (length str)) | _ \<Rightarrow> None)
      else if c = CHR ''S'' then
        (case ap of Arg_S str # ap \<Rightarrow> map_option (\<lambda>(s, i). (s, i, ap)) (fmt_put al s i (buf str) (sdslen str)) | _ \<Rightarrow> None)
      else if c = CHR ''i'' \<or> c = CHR ''I'' then do {
        (num, ap) \<leftarrow> (if c = CHR ''i'' then (case ap of Arg_i w # ap \<Rightarrow> Some (scast w, ap) | _ \<Rightarrow> None)
                      else (case ap of Arg_I w # ap \<Rightarrow> Some (w, ap) | _ \<Rightarrow> None));
        (l, b) \<leftarrow> sdsll2str (llstr_buf al) num;
        (s, i) \<leftarrow> fmt_put al s i b l;
        Some (s, i, ap) }
      else if c = CHR ''u'' \<or> c = CHR ''U'' then do {
        (unum, ap) \<leftarrow> (if c = CHR ''u'' then (case ap of Arg_u w # ap \<Rightarrow> Some (ucast w, ap) | _ \<Rightarrow> None)
                       else (case ap of Arg_U w # ap \<Rightarrow> Some (w, ap) | _ \<Rightarrow> None));
        (l, b) \<leftarrow> sdsull2str (llstr_buf al) unum;
        (s, i) \<leftarrow> fmt_put al s i b l;
        Some (s, i, ap) }
      else map_option (\<lambda>(s, i). (s, i, ap)) (fmt_char s i c))"

text \<open>
  The loop over the format. After a percent sign that ends the format the code stores the
  terminator, steps over it and goes on reading behind the string.
\<close>

fun fmt_loop :: "allocator \<Rightarrow> string \<Rightarrow> sds \<Rightarrow> nat \<Rightarrow> fmt_arg list \<Rightarrow> (sds \<times> nat) option" where
  "fmt_loop al [] s i ap = Some (s, i)"
| "fmt_loop al (c # f) s i ap = do {
     s \<leftarrow> (if sdsavail s = 0 then sdsMakeRoomFor al s 1 else Some s);
     if c = CHR ''%'' then
       (case f of
          [] \<Rightarrow> None
        | c' # f' \<Rightarrow> do {
            (s, i, ap) \<leftarrow> fmt_conv al s i c' ap;
            fmt_loop al f' s i ap })
     else do {
       (s, i) \<leftarrow> fmt_char s i c;
       fmt_loop al f s i ap }
   }"

definition sdscatfmt :: "allocator \<Rightarrow> sds \<Rightarrow> string \<Rightarrow> fmt_arg list \<Rightarrow> sds option" where
  "sdscatfmt al s fmt ap = do {
     let initlen = sdslen s;
     s \<leftarrow> sdsMakeRoomFor al s (length fmt * 2);
     (s, i) \<leftarrow> fmt_loop al fmt s initlen ap;
     sds_write s i [NUL]
   }"

section \<open>Trimming, ranges and case\<close>

text \<open>\<open>strchr\<close> also finds the terminator of the set.\<close>

definition strchr :: "string \<Rightarrow> char \<Rightarrow> bool" where
  "strchr cset c \<longleftrightarrow> c \<in> set cset \<or> c = NUL"

text \<open>
  The two scans of \<^verbatim>\<open>sdstrim\<close>. The pointer \<^verbatim>\<open>ep\<close> to the last character is kept as the position
  \<open>e = ep + 1\<close> after it.
\<close>

function trim_left :: "string \<Rightarrow> char list \<Rightarrow> nat \<Rightarrow> nat \<Rightarrow> nat" where
  "trim_left cset b e sp = (if sp < e \<and> strchr cset (b ! sp) then trim_left cset b e (sp + 1) else sp)"
  by pat_completeness auto
termination by (relation "measure (\<lambda>(cset, b, e, sp). e - sp)") auto

fun trim_right :: "string \<Rightarrow> char list \<Rightarrow> nat \<Rightarrow> nat \<Rightarrow> nat" where
  "trim_right cset b sp 0 = 0"
| "trim_right cset b sp (Suc ep) =
     (if ep > sp \<and> strchr cset (b ! ep) then trim_right cset b sp ep else Suc ep)"

definition sdstrim :: "sds \<Rightarrow> string \<Rightarrow> sds option" where
  "sdstrim s cset = do {
     let sp = trim_left cset (buf s) (sdslen s) 0;
     let e = trim_right cset (buf s) sp (sdslen s);
     let len = (if sp \<ge> e then 0 else e - sp);
     s \<leftarrow> (if sp \<noteq> 0 then do { b \<leftarrow> memmove 0 sp len (buf s); Some (s\<lparr>buf := b\<rparr>) } else Some s);
     s \<leftarrow> sds_write s len [NUL];
     Some (sdssetlen s len)
   }"

definition sdssubstr :: "sds \<Rightarrow> nat \<Rightarrow> nat \<Rightarrow> sds option" where
  "sdssubstr s start len = do {
     let oldlen = sdslen s;
     let (start, len) = (if start \<ge> oldlen then (0, 0) else (start, len));
     let len = (if len > oldlen - start then oldlen - start else len);
     s \<leftarrow> (if len \<noteq> 0 then do { b \<leftarrow> memmove 0 start len (buf s); Some (s\<lparr>buf := b\<rparr>) } else Some s);
     s \<leftarrow> sds_write s len [NUL];
     Some (sdssetlen s len)
   }"

text \<open>A negative start passed to the unsigned parameter of \<^verbatim>\<open>sdssubstr\<close> becomes a large one.\<close>

definition sdsrange :: "sds \<Rightarrow> int \<Rightarrow> int \<Rightarrow> sds option" where
  "sdsrange s start endp = do {
     let len = int (sdslen s);
     if len = 0 then Some s
     else do {
       let start = (if start < 0 then len + start else start);
       let endp = (if endp < 0 then len + endp else endp);
       let newlen = (if start > endp then 0 else endp - start + 1);
       sdssubstr s (nat (start mod 2 ^ 64)) (nat (newlen mod 2 ^ 64))
     }
   }"

definition tolower :: "char \<Rightarrow> char" where
  "tolower c = (if 65 \<le> ccode c \<and> ccode c \<le> 90 then char_of (ccode c + 32) else c)"

definition toupper :: "char \<Rightarrow> char" where
  "toupper c = (if 97 \<le> ccode c \<and> ccode c \<le> 122 then char_of (ccode c - 32) else c)"

definition sdstolower :: "sds \<Rightarrow> sds" where
  "sdstolower s = s\<lparr>buf := foldl (\<lambda>b j. b[j := tolower (b ! j)]) (buf s) [0..<sdslen s]\<rparr>"

definition sdstoupper :: "sds \<Rightarrow> sds" where
  "sdstoupper s = s\<lparr>buf := foldl (\<lambda>b j. b[j := toupper (b ! j)]) (buf s) [0..<sdslen s]\<rparr>"

text \<open>The inner loop of \<^verbatim>\<open>sdsmapchars\<close>, from index \<open>i\<close> of the two sets.\<close>

function mapchar :: "string \<Rightarrow> string \<Rightarrow> nat \<Rightarrow> nat \<Rightarrow> char \<Rightarrow> char" where
  "mapchar from to n i c =
     (if i < n then (if c = from ! i then to ! i else mapchar from to n (i + 1) c) else c)"
  by pat_completeness auto
termination by (relation "measure (\<lambda>(from, to, n, i, c). n - i)") auto

definition sdsmapchars :: "sds \<Rightarrow> string \<Rightarrow> string \<Rightarrow> nat \<Rightarrow> sds" where
  "sdsmapchars s from to setlen =
     s\<lparr>buf := foldl (\<lambda>b j. b[j := mapchar from to setlen 0 (b ! j)]) (buf s) [0..<sdslen s]\<rparr>"

text \<open>\<open>memcmp\<close>: the sign of the first difference, as unsigned characters.\<close>

fun memcmp :: "char list \<Rightarrow> char list \<Rightarrow> nat \<Rightarrow> int" where
  "memcmp s t 0 = 0"
| "memcmp s t (Suc n) =
     (if ccode (hd s) < ccode (hd t) then -1
      else if ccode (hd s) > ccode (hd t) then 1
      else memcmp (tl s) (tl t) n)"

definition sdscmp :: "sds \<Rightarrow> sds \<Rightarrow> int" where
  "sdscmp s1 s2 =
     (let l1 = sdslen s1; l2 = sdslen s2;
          minlen = (if l1 < l2 then l1 else l2);
          cmp = memcmp (buf s1) (buf s2) minlen
      in if cmp = 0 then (if l1 > l2 then 1 else if l1 < l2 then -1 else 0) else cmp)"

section \<open>Splitting and joining\<close>

text \<open>
  The loop of \<^verbatim>\<open>sdssplitlen\<close>: \<open>slots\<close> is the size of the array of tokens, which is doubled before
  two more may not fit. Storing outside the array is \<^const>\<open>None\<close>. The caller has checked that the
  separator is not empty.
\<close>

definition put_token :: "nat \<Rightarrow> sds list \<Rightarrow> sds \<Rightarrow> sds list option" where
  "put_token slots tokens t = (if length tokens < slots then Some (tokens @ [t]) else None)"

function split_loop :: "allocator \<Rightarrow> string \<Rightarrow> nat \<Rightarrow> string \<Rightarrow> nat \<Rightarrow> nat \<Rightarrow> nat \<Rightarrow> nat \<Rightarrow> sds list \<Rightarrow> (nat \<times> nat \<times> sds list) option" where
  "split_loop al s len sep seplen j start slots tokens =
     (if 1 \<le> seplen \<and> int j < int len - (int seplen - 1) then do {
        let slots = (if slots < length tokens + 2 then slots * 2 else slots);
        if seplen = 1 \<and> s ! j = sep ! 0 \<or> memcmp (drop j s) sep seplen = 0 then do {
          t \<leftarrow> sdsnewlen al (Init (drop start s)) (j - start);
          tokens \<leftarrow> put_token slots tokens t;
          split_loop al s len sep seplen (j + seplen - 1 + 1) (j + seplen) slots tokens
        }
        else split_loop al s len sep seplen (j + 1) start slots tokens
      }
      else Some (start, slots, tokens))"
  by pat_completeness auto
termination
  by (relation "measure (\<lambda>(al, s, len, sep, seplen, j, start, slots, tokens). len + 1 - j)") auto

text \<open>The result is \<^const>\<open>None\<close> inside \<^const>\<open>Some\<close> for a returned NULL.\<close>

definition sdssplitlen :: "allocator \<Rightarrow> string \<Rightarrow> int \<Rightarrow> string \<Rightarrow> int \<Rightarrow> sds list option option" where
  "sdssplitlen al s len sep seplen =
     (if seplen < 1 \<or> len < 0 then Some None
      else if len = 0 then Some (Some [])
      else do {
        (start, slots, tokens) \<leftarrow> split_loop al s (nat len) sep (nat seplen) 0 0 5 [];
        t \<leftarrow> sdsnewlen al (Init (drop start s)) (nat len - start);
        tokens \<leftarrow> put_token slots tokens t;
        Some (Some tokens)
      })"

fun join_loop :: "allocator \<Rightarrow> string list \<Rightarrow> string \<Rightarrow> sds \<Rightarrow> sds option" where
  "join_loop al [] sep s = Some s"
| "join_loop al (a # argv) sep s = do {
     s \<leftarrow> sdscat al s a;
     s \<leftarrow> (if argv \<noteq> [] then sdscat al s sep else Some s);
     join_loop al argv sep s
   }"

definition sdsjoin :: "allocator \<Rightarrow> string list \<Rightarrow> string \<Rightarrow> sds option" where
  "sdsjoin al argv sep = do { s \<leftarrow> sdsempty al; join_loop al argv sep s }"

fun joinsds_loop :: "allocator \<Rightarrow> sds list \<Rightarrow> string \<Rightarrow> nat \<Rightarrow> sds \<Rightarrow> sds option" where
  "joinsds_loop al [] sep seplen s = Some s"
| "joinsds_loop al (a # argv) sep seplen s = do {
     s \<leftarrow> sdscatsds al s a;
     s \<leftarrow> (if argv \<noteq> [] then sdscatlen al s sep seplen else Some s);
     joinsds_loop al argv sep seplen s
   }"

definition sdsjoinsds :: "allocator \<Rightarrow> sds list \<Rightarrow> string \<Rightarrow> nat \<Rightarrow> sds option" where
  "sdsjoinsds al argv sep seplen = do { s \<leftarrow> sdsempty al; joinsds_loop al argv sep seplen s }"

section \<open>Quoted representation\<close>

definition isprint :: "char \<Rightarrow> bool" where
  "isprint c \<longleftrightarrow> 32 \<le> ccode c \<and> ccode c \<le> 126"

definition isspace :: "char \<Rightarrow> bool" where
  "isspace c \<longleftrightarrow> ccode c = 32 \<or> 9 \<le> ccode c \<and> ccode c \<le> 13"

text \<open>The conversion \<^verbatim>\<open>%02x\<close> of a byte.\<close>

definition hex_char :: "nat \<Rightarrow> char" where
  "hex_char d = char_of (if d < 10 then 48 + d else 87 + d)"

definition hex02 :: "nat \<Rightarrow> string" where
  "hex02 n = [hex_char (n div 16), hex_char (n mod 16)]"

definition catrepr_char :: "allocator \<Rightarrow> sds \<Rightarrow> char \<Rightarrow> sds option" where
  "catrepr_char al s c =
     (if ccode c = 92 \<or> ccode c = 34 then sdscat al s [char_of (92 :: nat), c]
      else if ccode c = 10 then sdscatlen al s [char_of (92 :: nat), CHR ''n''] 2
      else if ccode c = 13 then sdscatlen al s [char_of (92 :: nat), CHR ''r''] 2
      else if ccode c = 9 then sdscatlen al s [char_of (92 :: nat), CHR ''t''] 2
      else if ccode c = 7 then sdscatlen al s [char_of (92 :: nat), CHR ''a''] 2
      else if ccode c = 8 then sdscatlen al s [char_of (92 :: nat), CHR ''b''] 2
      else if isprint c then sdscat al s [c]
      else sdscat al s (char_of (92 :: nat) # CHR ''x'' # hex02 (ccode c)))"

fun catrepr_loop :: "allocator \<Rightarrow> sds \<Rightarrow> string \<Rightarrow> sds option" where
  "catrepr_loop al s [] = Some s"
| "catrepr_loop al s (c # p) = do { s \<leftarrow> catrepr_char al s c; catrepr_loop al s p }"

definition sdscatrepr :: "allocator \<Rightarrow> sds \<Rightarrow> string \<Rightarrow> nat \<Rightarrow> sds option" where
  "sdscatrepr al s p len = do {
     s \<leftarrow> sdscatlen al s [char_of (34 :: nat)] 1;
     bs \<leftarrow> load_at 0 len p;
     s \<leftarrow> catrepr_loop al s bs;
     sdscatlen al s [char_of (34 :: nat)] 1
   }"

definition is_hex_digit :: "char \<Rightarrow> bool" where
  "is_hex_digit c \<longleftrightarrow>
     48 \<le> ccode c \<and> ccode c \<le> 57 \<or> 97 \<le> ccode c \<and> ccode c \<le> 102 \<or> 65 \<le> ccode c \<and> ccode c \<le> 70"

definition hex_digit_to_int :: "char \<Rightarrow> nat" where
  "hex_digit_to_int c =
     (if 48 \<le> ccode c \<and> ccode c \<le> 57 then ccode c - 48
      else if 97 \<le> ccode c \<and> ccode c \<le> 102 then ccode c - 87
      else if 65 \<le> ccode c \<and> ccode c \<le> 70 then ccode c - 55
      else 0)"

text \<open>The character \<open>i\<close> places after the pointer into a C string.\<close>

definition pk :: "string \<Rightarrow> nat \<Rightarrow> char" where
  "pk p i = (if i < length p then p ! i else NUL)"

definition unescape :: "char \<Rightarrow> char" where
  "unescape c =
     (if c = CHR ''n'' then char_of (10 :: nat)
      else if c = CHR ''r'' then char_of (13 :: nat)
      else if c = CHR ''t'' then char_of (9 :: nat)
      else if c = CHR ''b'' then char_of (8 :: nat)
      else if c = CHR ''a'' then char_of (7 :: nat)
      else c)"

text \<open>
  One pass of the loop over a token, in the three modes of the flags \<^verbatim>\<open>inq\<close> and \<^verbatim>\<open>insq\<close>: it stops at
  \<^verbatim>\<open>goto err\<close>, is done with the token and the rest of the line, or goes on.
\<close>

datatype token_state = Tok_err | Tok_done sds string | Tok_more bool bool sds string

definition token_step :: "allocator \<Rightarrow> bool \<Rightarrow> bool \<Rightarrow> sds \<Rightarrow> string \<Rightarrow> token_state option" where
  "token_step al inq insq current p =
     (if inq then
        (if ccode (pk p 0) = 92 \<and> pk p 1 = CHR ''x'' \<and> is_hex_digit (pk p 2) \<and> is_hex_digit (pk p 3) then do {
           let byte = char_of (hex_digit_to_int (pk p 2) * 16 + hex_digit_to_int (pk p 3));
           current \<leftarrow> sdscatlen al current [byte] 1;
           Some (Tok_more inq insq current (drop 4 p)) }
         else if ccode (pk p 0) = 92 \<and> pk p 1 \<noteq> NUL then do {
           current \<leftarrow> sdscatlen al current [unescape (pk p 1)] 1;
           Some (Tok_more inq insq current (drop 2 p)) }
         else if ccode (pk p 0) = 34 then
           (if pk p 1 \<noteq> NUL \<and> \<not> isspace (pk p 1) then Some Tok_err else Some (Tok_done current (drop 1 p)))
         else if pk p 0 = NUL then Some Tok_err
         else do {
           current \<leftarrow> sdscatlen al current p 1;
           Some (Tok_more inq insq current (drop 1 p)) })
      else if insq then
        (if ccode (pk p 0) = 92 \<and> ccode (pk p 1) = 39 then do {
           current \<leftarrow> sdscatlen al current [char_of (39 :: nat)] 1;
           Some (Tok_more inq insq current (drop 2 p)) }
         else if ccode (pk p 0) = 39 then
           (if pk p 1 \<noteq> NUL \<and> \<not> isspace (pk p 1) then Some Tok_err else Some (Tok_done current (drop 1 p)))
         else if pk p 0 = NUL then Some Tok_err
         else do {
           current \<leftarrow> sdscatlen al current p 1;
           Some (Tok_more inq insq current (drop 1 p)) })
      else
        (if ccode (pk p 0) \<in> {32, 10, 13, 9} then Some (Tok_done current (drop 1 p))
         else if pk p 0 = NUL then Some (Tok_done current p)
         else if ccode (pk p 0) = 34 then Some (Tok_more True insq current (drop 1 p))
         else if ccode (pk p 0) = 39 then Some (Tok_more inq True current (drop 1 p))
         else do {
           current \<leftarrow> sdscatlen al current p 1;
           Some (Tok_more inq insq current (drop 1 p)) }))"

lemma pk_Nil [simp]: "pk [] i = NUL"
  by (simp add: pk_def)

lemma pk_Cons: "pk (c # p) i = (if i = 0 then c else pk p (i - 1))"
  by (cases i) (auto simp: pk_def)

lemma ccode_NUL [simp]: "ccode NUL = 0"
  by (simp add: ccode_def)

lemma token_step_more:
  "token_step al inq insq cur p = Some (Tok_more inq' insq' cur' r) \<Longrightarrow> length r < length p"
  by (cases p) (auto simp: token_step_def Let_def split: if_splits Option.bind_splits)

lemma token_step_done:
  "token_step al inq insq cur p = Some (Tok_done cur' r) \<Longrightarrow> pk p 0 \<noteq> NUL \<Longrightarrow> length r < length p"
  by (cases p) (auto simp: token_step_def Let_def split: if_splits Option.bind_splits)

lemma token_step_done_le:
  "token_step al inq insq cur p = Some (Tok_done cur' r) \<Longrightarrow> length r \<le> length p"
  by (auto simp: token_step_def Let_def split: if_splits Option.bind_splits)

function token_loop :: "allocator \<Rightarrow> bool \<Rightarrow> bool \<Rightarrow> sds \<Rightarrow> string \<Rightarrow> (sds \<times> string) option option" where
  "token_loop al inq insq current p = do {
     r \<leftarrow> token_step al inq insq current p;
     case r of
       Tok_err \<Rightarrow> Some None
     | Tok_done current p \<Rightarrow> Some (Some (current, p))
     | Tok_more inq insq current p \<Rightarrow> token_loop al inq insq current p
   }"
  by pat_completeness auto
termination
  by (relation "measure (\<lambda>(al, inq, insq, current, p). length p)") (auto dest: token_step_more)

declare token_loop.simps [simp del]

lemma token_loop_le:
  "token_loop al inq insq cur p = Some (Some (t, r)) \<Longrightarrow> length r \<le> length p"
proof (induction al inq insq cur p rule: token_loop.induct)
  case (1 al inq insq cur p)
  obtain x where x: "token_step al inq insq cur p = Some x"
    "(case x of Tok_err \<Rightarrow> Some None | Tok_done c q \<Rightarrow> Some (Some (c, q)) | Tok_more i j c q \<Rightarrow> token_loop al i j c q) =
     Some (Some (t, r))"
    using "1.prems" by (subst (asm) token_loop.simps) (auto split: Option.bind_splits)
  show ?case
  proof (cases x)
    case (Tok_done c q)
    then show ?thesis using x token_step_done_le by fastforce
  next
    case (Tok_more i j c q)
    then show ?thesis using x "1.IH" [of x i j c q] token_step_more [of al inq insq cur p i j c q] by simp
  qed (use x in simp)
qed

lemma token_loop_shorter:
  "token_loop al inq insq cur p = Some (Some (t, r)) \<Longrightarrow> pk p 0 \<noteq> NUL \<Longrightarrow> length r < length p"
  by (subst (asm) token_loop.simps)
    (auto split: token_state.splits Option.bind_splits
      dest: token_step_done dest!: token_step_more token_loop_le)

function splitargs_loop :: "allocator \<Rightarrow> sds list \<Rightarrow> string \<Rightarrow> sds list option option" where
  "splitargs_loop al vector p =
     (let p = dropWhile isspace p in
      if pk p 0 \<noteq> NUL then do {
        current \<leftarrow> sdsempty al;
        r \<leftarrow> token_loop al False False current p;
        case r of
          None \<Rightarrow> Some None
        | Some (current, p) \<Rightarrow> splitargs_loop al (vector @ [current]) p
      }
      else Some (Some vector))"
  by pat_completeness auto
termination
  by (relation "measure (\<lambda>(al, vector, p). length p)")
    (auto dest!: token_loop_shorter intro: less_le_trans length_dropWhile_le)

definition sdssplitargs :: "allocator \<Rightarrow> string \<Rightarrow> sds list option option" where
  "sdssplitargs al line = splitargs_loop al [] line"

end
