(* ===== verification/Sds_Str_Correct.thy ===== *)
theory Sds_Str_Correct
  imports Sds_Str
begin

text \<open>
  What the operations on the contents of a string compute: decimal numbers, formats, trimming,
  ranges, changes of case and the order of strings.
\<close>

section \<open>Numbers\<close>

declare ll2str_digits.simps [simp del] reverse_loop.simps [simp del]

lemma ll2str_digits_correct:
  "p + length (dec (unat v)) \<le> length b \<Longrightarrow>
   ll2str_digits v p b =
     Some (p + length (dec (unat v)), take p b @ rev (dec (unat v)) @ drop (p + length (dec (unat v))) b)"
proof (induction v p b rule: ll2str_digits.induct)
  case (1 v p b)
  have m: "unat (v mod 10) = unat v mod 10" "unat (v div 10) = unat v div 10"
    by (simp_all add: unat_mod unat_div)
  have p: "p < length b" using 1(2) dec_not_Nil [of "unat v"] by (cases "dec (unat v)") auto
  let ?b = "take p b @ [digit_char (unat v mod 10)] @ drop (p + 1) b"
  have st: "store_at p [digit_char (unat (v mod 10))] b = Some ?b"
    using p m by (simp add: store_at_def)
  show ?case
  proof (cases "v div 10 = 0")
    case True
    then have "unat v < 10" using m(2) by (metis div_eq_0_iff unat_0 zero_neq_numeral)
    then show ?thesis using True st by (simp add: ll2str_digits.simps [of v] Let_def dec_less_10)
  next
    case False
    then have "unat v div 10 \<noteq> 0" using m(2) by (metis unat_eq_zero)
    then have d: "dec (unat v) = dec (unat v div 10) @ [digit_char (unat v mod 10)]"
      by (intro dec_ge_10) simp
    have "ll2str_digits (v div 10) (p + 1) ?b =
      Some (p + 1 + length (dec (unat v div 10)), take (p + 1) ?b @ rev (dec (unat v div 10)) @
        drop (p + 1 + length (dec (unat v div 10))) ?b)"
      using "1.IH" [OF st refl False] "1.prems" d p by (simp add: m)
    then show ?thesis using False st d p by (simp add: ll2str_digits.simps [of v] Let_def add.commute)
  qed
qed

lemma reverse_loop_correct:
  "reverse_loop (length x) (length x + length y - 1) (x @ y @ z) = x @ rev y @ z"
proof (induction "length y" arbitrary: x y z rule: less_induct)
  case less
  show ?case
  proof (cases "length y \<le> 1")
    case True
    then show ?thesis by (cases y) (auto simp: reverse_loop.simps)
  next
    case False
    then obtain a m c where y: "y = a # m @ [c]"
      by (metis append_butlast_last_id length_0_conv list.exhaust_sel list.size(3) One_nat_def
          length_Cons le_refl zero_le_one)
    have u: "(x @ y @ z)[length x := (x @ y @ z) ! (length x + length y - 1),
       length x + length y - 1 := (x @ y @ z) ! length x] = (x @ [c]) @ m @ (a # z)"
      by (simp add: y nth_append list_update_append)
    have "reverse_loop (length x) (length x + length y - 1) (x @ y @ z) =
      reverse_loop (length (x @ [c])) (length (x @ [c]) + length m - 1) ((x @ [c]) @ m @ (a # z))"
      by (subst reverse_loop.simps) (simp only: u, simp add: y)
    also have "\<dots> = (x @ [c]) @ rev m @ (a # z)" by (rule less) (simp add: y)
    finally show ?thesis by (simp add: y)
  qed
qed

corollary reverse_prefix: "reverse_loop 0 (length y - 1) (y @ z) = rev y @ z"
  using reverse_loop_correct [of "[]" y z] by simp

lemma length_dec_le: "n < 10 ^ Suc k \<Longrightarrow> length (dec n) \<le> Suc k"
proof (induction k arbitrary: n)
  case (Suc k)
  then show ?case by (cases "n < 10") (simp_all add: dec_less_10 dec_ge_10 less_mult_imp_div_less)
qed (simp add: dec_less_10)

lemma length_dec_u64: "length (dec (unat (v :: u64))) \<le> 20"
  using length_dec_le [of "unat v" 19] unat_u64_less [of v] by simp

lemma unat_abs: "unat (if sint v < 0 then - v else v) = nat \<bar>sint (v :: u64)\<bar>"
proof -
  have "LLONG_MAX + 1 = - (LLONG_MIN :: u64)" by simp
  then have "(if sint v < 0 then - v else v) = (if sint v < 0 then if v \<noteq> LLONG_MIN then - v else LLONG_MAX + 1 else v)"
    by simp
  then show ?thesis using unat_abs_u64 [of v] by simp
qed

lemma length_dec_int: "length (dec_int (sint (v :: u64))) \<le> 20"
proof -
  have "nat (- sint v) < 10 ^ 19" "nat (sint v) < 10 ^ 19" using sint_u64_range [of v] by auto
  then show ?thesis using length_dec_le [of "nat (- sint v)" 18] length_dec_le [of "nat (sint v)" 18]
    by (simp add: dec_int_def)
qed

lemma sdsull2str_correct:
  assumes "21 \<le> length s"
  shows "sdsull2str s v = Some (length (dec (unat v)), dec (unat v) @ NUL # drop (Suc (length (dec (unat v)))) s)"
  using assms length_dec_u64 [of v] reverse_prefix [of "rev (dec (unat v))"]
  by (simp add: sdsull2str_def ll2str_digits_correct store_at_def)

lemma sdsll2str_correct:
  assumes "21 \<le> length s"
  shows "sdsll2str s v =
    Some (length (dec_int (sint v)), dec_int (sint v) @ NUL # drop (Suc (length (dec_int (sint v)))) s)"
proof -
  let ?v = "if sint v < 0 then - v else v"
  have d: "dec_int (sint v) = (if sint v < 0 then CHR ''-'' # dec (unat ?v) else dec (unat ?v))"
    unfolding unat_abs by (simp add: dec_int_def)
  have l: "length (dec_int (sint v)) \<le> 20" by (rule length_dec_int)
  show ?thesis
  proof (cases "sint v < 0")
    case True
    then show ?thesis
      using assms l d reverse_prefix [of "rev (dec (unat (- v))) @ ''-''"]
      by (simp add: sdsll2str_def Let_def ll2str_digits_correct store_at_def)
  next
    case False
    then show ?thesis
      using assms l d reverse_prefix [of "rev (dec (unat v))"]
      by (simp add: sdsll2str_def Let_def ll2str_digits_correct store_at_def)
  qed
qed

lemma length_llstr_buf [simp]: "length (llstr_buf al) = 21"
  by (simp add: llstr_buf_def)

lemma sdsfromlonglong_correct:
  "alloc_ok al \<Longrightarrow> \<exists>s. sdsfromlonglong al v = Some s \<and> sds_ok s \<and> text_of s = dec_int (sint v)"
  using sdsnewlen_correct [of al "length (dec_int (sint v))"
    "dec_int (sint v) @ NUL # drop (Suc (length (dec_int (sint v)))) (llstr_buf al)"] length_dec_int [of v]
  by (simp add: sdsfromlonglong_def sdsll2str_correct)

section \<open>Formats\<close>

text \<open>The text a conversion stands for, and the arguments it leaves.\<close>

fun conv_spec :: "char \<Rightarrow> fmt_arg list \<Rightarrow> (string \<times> fmt_arg list) option" where
  "conv_spec c ap =
     (if c = CHR ''s'' then (case ap of Arg_s str # ap \<Rightarrow> Some (str, ap) | _ \<Rightarrow> None)
      else if c = CHR ''S'' then (case ap of Arg_S str # ap \<Rightarrow> Some (text_of str, ap) | _ \<Rightarrow> None)
      else if c = CHR ''i'' then (case ap of Arg_i w # ap \<Rightarrow> Some (dec_int (sint w), ap) | _ \<Rightarrow> None)
      else if c = CHR ''I'' then (case ap of Arg_I w # ap \<Rightarrow> Some (dec_int (sint w), ap) | _ \<Rightarrow> None)
      else if c = CHR ''u'' then (case ap of Arg_u w # ap \<Rightarrow> Some (dec (unat w), ap) | _ \<Rightarrow> None)
      else if c = CHR ''U'' then (case ap of Arg_U w # ap \<Rightarrow> Some (dec (unat w), ap) | _ \<Rightarrow> None)
      else Some ([c], ap))"

fun fmt_spec :: "string \<Rightarrow> fmt_arg list \<Rightarrow> string option" where
  "fmt_spec [] ap = Some []"
| "fmt_spec (c # f) ap =
     (if c = CHR ''%'' then
        (case f of
           [] \<Rightarrow> None
         | c' # f' \<Rightarrow> do { (t, ap) \<leftarrow> conv_spec c' ap; r \<leftarrow> fmt_spec f' ap; Some (t @ r) })
      else do { r \<leftarrow> fmt_spec f ap; Some (c # r) })"

fun arg_ok :: "fmt_arg \<Rightarrow> bool" where
  "arg_ok (Arg_S s) = sds_ok s"
| "arg_ok _ = True"

declare conv_spec.simps [simp del]

text \<open>Writing behind the contents and counting what was written.\<close>

lemma append_space:
  assumes "sds_space s" "sdslen s + length bs \<le> sdsalloc s"
  shows "\<exists>r. sds_write s (sdslen s) bs = Some r \<and> sds_space (sdsinclen r (length bs)) \<and>
    text_of (sdsinclen r (length bs)) = text_of s @ bs \<and> sdslen (sdsinclen r (length bs)) = sdslen s + length bs"
proof -
  have m: "sdslen s + length bs \<le> sdsTypeMaxSize (hdr_type s)" "sdslen s + length bs < length (buf s)"
    using assms by (auto simp: sds_space_def)
  have t: "hdr_type s = SDS_TYPE_5 \<Longrightarrow> bs = []" using assms(2) by (simp add: sdsalloc_def sdslen_def)
  show ?thesis
    using m t assms
    by (auto simp: sds_write_Some sdsinclen_def sds_space_def sdsalloc_def text_of_def sdslen_def split: if_splits)
qed

lemma fmt_put_correct:
  assumes "sds_space s" "alloc_ok al" "sdslen s + l < 2 ^ 63" "l \<le> length str"
  shows "\<exists>r. fmt_put al s (sdslen s) str l = Some (r, sdslen r) \<and> sds_space r \<and> text_of r = text_of s @ take l str \<and>
    sdslen r = sdslen s + l"
proof -
  obtain q where q: "(if sdsavail s < l then sdsMakeRoomFor al s l else Some s) = Some q" "sds_space q"
    "text_of q = text_of s" "sdslen q = sdslen s" "sdslen s + l \<le> sdsalloc q"
    using sdsMakeRoomFor_space [OF assms(1-3)] assms(1) alloc_avail [OF assms(1)]
    by (cases "sdsavail s < l") auto
  have l: "length (take l str) = l" using assms(4) by simp
  show ?thesis
    using append_space [of q "take l str"] q l assms(4)
    unfolding fmt_put_def q(1) by (auto simp: load_at_Some)
qed

lemma fmt_char_correct:
  assumes "sds_space s" "sdsavail s \<noteq> 0"
  shows "\<exists>r. fmt_char s (sdslen s) c = Some (r, sdslen r) \<and> sds_space r \<and> text_of r = text_of s @ [c] \<and>
    sdslen r = sdslen s + 1"
  using append_space [of s "[c]"] assms alloc_avail [OF assms(1)] by (auto simp: fmt_char_def)

lemma sint_scast32: "sint (scast (w :: 32 word) :: u64) = sint w"
  by (rule sint_up_scast) (simp add: is_up)

lemma unat_ucast32: "unat (ucast (w :: 32 word) :: u64) = unat w"
proof -
  have "uint (ucast w :: u64) = uint w" by (rule uint_up_ucast) (simp add: is_up)
  then show ?thesis by (simp only: nat_uint_eq [symmetric])
qed

lemma fmt_conv_snd:
  assumes "fmt_conv al s i c ap = Some (s', i', ap')"
  shows "\<exists>t. conv_spec c ap = Some (t, ap')"
proof -
  consider "c = CHR ''s''" | "c = CHR ''S''" | "c = CHR ''i''" | "c = CHR ''I''" | "c = CHR ''u''" | "c = CHR ''U''"
    | "c \<notin> {CHR ''s'', CHR ''S'', CHR ''i'', CHR ''I'', CHR ''u'', CHR ''U''}"
    by auto
  then show ?thesis
    using assms
    by cases (simp_all add: fmt_conv_def conv_spec.simps bind_eq_Some_conv split: list.splits fmt_arg.splits, auto)
qed

lemma fmt_conv_Some:
  assumes "conv_spec c ap = Some (t, ap')" "sds_space s" "alloc_ok al" "\<forall>a\<in>set ap. arg_ok a"
    "sdslen s + length t < 2 ^ 63" "sdsavail s \<noteq> 0"
  shows "\<exists>r. fmt_conv al s (sdslen s) c ap = Some (r, sdslen r, ap') \<and> sds_space r \<and> text_of r = text_of s @ t \<and>
    sdslen r = sdslen s + length t \<and> (\<forall>a\<in>set ap'. arg_ok a)"
proof -
  consider
      (str) u where "c = CHR ''s''" "ap = Arg_s u # ap'" "t = u"
    | (sds) u where "c = CHR ''S''" "ap = Arg_S u # ap'" "t = text_of u"
    | (int) w where "c = CHR ''i''" "ap = Arg_i w # ap'" "t = dec_int (sint w)"
    | (Int) v where "c = CHR ''I''" "ap = Arg_I v # ap'" "t = dec_int (sint v)"
    | (uint) w where "c = CHR ''u''" "ap = Arg_u w # ap'" "t = dec (unat w)"
    | (Uint) v where "c = CHR ''U''" "ap = Arg_U v # ap'" "t = dec (unat v)"
    | (other) "c \<notin> {CHR ''s'', CHR ''S'', CHR ''i'', CHR ''I'', CHR ''u'', CHR ''U''}" "t = [c]" "ap' = ap"
    using assms(1)
    by (simp add: conv_spec.simps split: if_splits list.splits fmt_arg.splits)
  note cons = this
  have num: "\<exists>r. fmt_put al s (sdslen s) (t @ NUL # drop (Suc (length t)) (llstr_buf al)) (length t) = Some (r, sdslen r) \<and>
      sds_space r \<and> text_of r = text_of s @ t \<and> sdslen r = sdslen s + length t"
    using fmt_put_correct [OF assms(2,3), of "length t" "t @ NUL # drop (Suc (length t)) (llstr_buf al)"] assms(5) by simp
  show ?thesis
    using cons
  proof cases
    case str
    then show ?thesis using fmt_put_correct [OF assms(2,3), of "length u" u] assms(4,5) by (auto simp: fmt_conv_def)
  next
    case sds
    then have "sds_ok u" using assms(4) by simp
    then show ?thesis
      using sds fmt_put_correct [OF assms(2,3), of "sdslen u" "buf u"] assms(4,5) length_text_of [of u] sds_ok_len [of u]
      by (auto simp: fmt_conv_def text_of_def sdslen_def)
  next
    case int
    then show ?thesis using num assms(4) by (auto simp: fmt_conv_def sdsll2str_correct sint_scast32)
  next
    case Int
    then show ?thesis using num assms(4) by (auto simp: fmt_conv_def sdsll2str_correct)
  next
    case uint
    then show ?thesis using num assms(4) by (auto simp: fmt_conv_def sdsull2str_correct unat_ucast32)
  next
    case Uint
    then show ?thesis using num assms(4) by (auto simp: fmt_conv_def sdsull2str_correct)
  next
    case other
    then show ?thesis using fmt_char_correct [OF assms(2,6), of c] assms(4) by (auto simp: fmt_conv_def)
  qed
qed

lemma fmt_conv_None: "conv_spec c ap = None \<Longrightarrow> fmt_conv al s i c ap = None"
  by (auto simp: fmt_conv_def conv_spec.simps split: if_splits list.splits fmt_arg.splits)

lemma ensure_one:
  assumes "sds_space s" "alloc_ok al" "sdslen s + 1 < 2 ^ 63"
  obtains q where "(if sdsavail s = 0 then sdsMakeRoomFor al s 1 else Some s) = Some q" "sds_space q"
    "text_of q = text_of s" "sdslen q = sdslen s" "sdsavail q \<noteq> 0"
  using sdsMakeRoomFor_space [OF assms] assms(1) alloc_avail that by (cases "sdsavail s = 0") fastforce+

lemma fmt_loop_Some:
  "fmt_spec f ap = Some out \<Longrightarrow> sds_space s \<Longrightarrow> alloc_ok al \<Longrightarrow> \<forall>a\<in>set ap. arg_ok a \<Longrightarrow>
   sdslen s + length out + 1 < 2 ^ 63 \<Longrightarrow>
   \<exists>r. fmt_loop al f s (sdslen s) ap = Some (r, sdslen r) \<and> sds_space r \<and> text_of r = text_of s @ out"
proof (induction f ap arbitrary: s out rule: fmt_spec.induct)
  case (2 c f ap)
  obtain q where q: "(if sdsavail s = 0 then sdsMakeRoomFor al s 1 else Some s) = Some q" "sds_space q"
    "text_of q = text_of s" "sdslen q = sdslen s" "sdsavail q \<noteq> 0"
    using ensure_one [of s al] "2.prems" by auto
  show ?case
  proof (cases "c = CHR ''%''")
    case True
    then obtain c' f' t ap' o' where f: "f = c' # f'" "conv_spec c' ap = Some (t, ap')" "fmt_spec f' ap' = Some o'" "out = t @ o'"
      using "2.prems"(1) by (auto split: list.splits Option.bind_splits)
    obtain r where r: "fmt_conv al q (sdslen q) c' ap = Some (r, sdslen r, ap')" "sds_space r"
      "text_of r = text_of q @ t" "sdslen r = sdslen q + length t" "\<forall>a\<in>set ap'. arg_ok a"
      using fmt_conv_Some [OF f(2) q(2) "2.prems"(3,4) _ q(5)] "2.prems"(5) q(4) f(4) by auto
    obtain r' where "fmt_loop al f' r (sdslen r) ap' = Some (r', sdslen r')" "sds_space r'" "text_of r' = text_of r @ o'"
      using "2.IH"(1) [OF True f(1) f(2) refl f(3) r(2) "2.prems"(3) r(5)] r(4) "2.prems"(5) f(4) q(4) by auto
    then show ?thesis using q r f True by simp
  next
    case False
    then obtain o' where f: "fmt_spec f ap = Some o'" "out = c # o'"
      using "2.prems"(1) by (auto split: Option.bind_splits)
    obtain r where r: "fmt_char q (sdslen q) c = Some (r, sdslen r)" "sds_space r" "text_of r = text_of q @ [c]"
      "sdslen r = sdslen q + 1"
      using fmt_char_correct [OF q(2,5)] by blast
    obtain r' where "fmt_loop al f r (sdslen r) ap = Some (r', sdslen r')" "sds_space r'" "text_of r' = text_of r @ o'"
      using "2.IH"(2) [OF False f(1) r(2) "2.prems"(3,4)] r(4) "2.prems"(5) f(2) q(4) by auto
    then show ?thesis using q r f False by simp
  qed
qed auto

lemma fmt_loop_None: "fmt_spec f ap = None \<Longrightarrow> fmt_loop al f s i ap = None"
proof (induction f ap arbitrary: s i rule: fmt_spec.induct)
  case (2 c f ap)
  have "(if c = CHR ''%'' then case f of [] \<Rightarrow> None | c' # f' \<Rightarrow>
      do { (s, i, ap) \<leftarrow> fmt_conv al q i c' ap; fmt_loop al f' s i ap }
     else do { (s, i) \<leftarrow> fmt_char q i c; fmt_loop al f s i ap }) = None" for q
  proof (cases "c = CHR ''%''")
    case True
    have "fmt_loop al f' s' i' ap' = None" if h1: "f = c' # f'" and h2: "fmt_conv al q i c' ap = Some (s', i', ap')" for c' f' s' i' ap'
    proof -
      obtain t where t: "conv_spec c' ap = Some (t, ap')" using fmt_conv_snd [OF h2] by blast
      then have "fmt_spec f' ap' = None" using "2.prems" True h1 by (auto split: Option.bind_splits)
      then show ?thesis by (rule "2.IH"(1) [OF True h1 t refl])
    qed
    then show ?thesis using True by (simp split: list.split Option.bind_split)
  next
    case False
    then have "fmt_spec f ap = None" using "2.prems" by (auto split: Option.bind_splits)
    then show ?thesis using False "2.IH"(2) by (simp split: Option.bind_split)
  qed
  then show ?case by (simp split: Option.bind_split)
qed simp

lemma sdscatfmt_correct:
  assumes "sds_ok s" "alloc_ok al" "\<forall>a\<in>set ap. arg_ok a" "fmt_spec fmt ap = Some out"
    "sdslen s + 2 * length fmt + length out + 1 < 2 ^ 63"
  shows "\<exists>r. sdscatfmt al s fmt ap = Some r \<and> sds_ok r \<and> text_of r = text_of s @ out"
proof -
  obtain q where q: "sdsMakeRoomFor al s (length fmt * 2) = Some q" "sds_space q" "text_of q = text_of s" "sdslen q = sdslen s"
    using sdsMakeRoomFor_correct [OF assms(1,2), of "length fmt * 2"] assms(5) sds_ok_space by auto
  obtain r where r: "fmt_loop al fmt q (sdslen q) ap = Some (r, sdslen r)" "sds_space r" "text_of r = text_of q @ out"
    using fmt_loop_Some [OF assms(4) q(2) assms(2,3)] assms(5) q by auto
  have l: "hdr_len r < length (buf r)" using r(2) by (simp add: sds_space_def)
  have "sdscatfmt al s fmt ap = Some (r\<lparr>buf := take (hdr_len r) (buf r) @ NUL # drop (hdr_len r + 1) (buf r)\<rparr>)"
    using q r l by (simp add: sdscatfmt_def Let_def sds_write_Some sdslen_def)
  moreover have "sds_ok (r\<lparr>buf := take (hdr_len r) (buf r) @ NUL # drop (hdr_len r + 1) (buf r)\<rparr>)"
    using r(2) l by (auto simp: sds_ok_def sds_space_def sdsalloc_def nth_append split: if_splits)
  moreover have "text_of (r\<lparr>buf := take (hdr_len r) (buf r) @ NUL # drop (hdr_len r + 1) (buf r)\<rparr>) = text_of r"
    using l by (simp add: text_of_def)
  ultimately show ?thesis using r(3) q(3) by auto
qed

lemma sdscatfmt_undefined: "fmt_spec fmt ap = None \<Longrightarrow> sdscatfmt al s fmt ap = None"
  by (auto simp: sdscatfmt_def Let_def fmt_loop_None split: Option.bind_splits)

section \<open>Trimming and ranges\<close>

declare trim_left.simps [simp del] mapchar.simps [simp del]

text \<open>Moving a part of the contents to the front and cutting the rest off.\<close>

lemma shrink_correct:
  assumes "sds_ok s" "start + len \<le> sdslen s" "c \<or> start = 0 \<or> len = 0"
  shows "\<exists>r. (do {
      s \<leftarrow> (if c then do { b \<leftarrow> memmove 0 start len (buf s); Some (s\<lparr>buf := b\<rparr>) } else Some s);
      s \<leftarrow> sds_write s len [NUL];
      Some (sdssetlen s len) }) = Some r \<and> sds_ok r \<and> text_of r = take len (drop start (text_of s))"
proof -
  have l: "start + len < length (buf s)" "len \<le> sdsalloc s"
    using assms(1,2) by (auto simp: sds_ok_def sdslen_def)
  define b where "b = (if c then take len (drop start (buf s)) @ drop len (buf s) else buf s)"
  have b: "length b = length (buf s)" "take len b = take len (drop start (buf s))"
    using l assms(3) by (auto simp: b_def)
  have "(if c then do { b \<leftarrow> memmove 0 start len (buf s); Some (s\<lparr>buf := b\<rparr>) } else Some s) = Some (s\<lparr>buf := b\<rparr>)"
    using l by (simp add: memmove_def load_at_def store_at_def b_def)
  moreover have "sds_write (s\<lparr>buf := b\<rparr>) len [NUL] = Some (s\<lparr>buf := take len b @ [NUL] @ drop (len + 1) b\<rparr>)"
    using l b by (simp add: sds_write_Some)
  moreover have "take len (drop start (buf s)) = take len (drop start (text_of s))"
    using assms(2) by (simp add: text_of_def sdslen_def take_drop min_absorb1 add.commute)
  moreover have "sds_ok (sdssetlen (s\<lparr>buf := take len b @ [NUL] @ drop (len + 1) b\<rparr>) len) \<and>
      text_of (sdssetlen (s\<lparr>buf := take len b @ [NUL] @ drop (len + 1) b\<rparr>) len) = take len b"
    using sds_setlen_ok [OF assms(1) l(2), of "take len b @ [NUL] @ drop (len + 1) b"] b(1) l
    by (simp add: nth_append)
  ultimately show ?thesis using b(2) by (simp only: bind_simps option.inject ex_simps simp_thms) auto
qed

lemma trim_left_eq:
  "sp \<le> e \<Longrightarrow> e \<le> length b \<Longrightarrow>
   trim_left cset b e sp = sp + length (takeWhile (strchr cset) (take (e - sp) (drop sp b)))"
proof (induction cset b e sp rule: trim_left.induct)
  case (1 cset b e sp)
  show ?case
  proof (cases "sp < e")
    case True
    then have "take (e - sp) (drop sp b) = b ! sp # take (e - Suc sp) (drop (Suc sp) b)"
      using "1.prems" by (metis Cons_nth_drop_Suc Suc_diff_Suc less_le_trans take_Suc_Cons)
    then show ?thesis using 1 True by (simp add: trim_left.simps [of cset b e sp])
  qed (use "1.prems" in \<open>auto simp: trim_left.simps [of cset b e]\<close>)
qed

lemma trim_right_eq:
  "sp < e \<Longrightarrow> e \<le> length b \<Longrightarrow> \<not> strchr cset (b ! sp) \<Longrightarrow>
   sp < trim_right cset b sp e \<and> trim_right cset b sp e \<le> e \<and>
   take (trim_right cset b sp e - sp) (drop sp b) = rev (dropWhile (strchr cset) (rev (take (e - sp) (drop sp b))))"
proof (induction e)
  case (Suc ep)
  have t: "take (Suc ep - sp) (drop sp b) = take (ep - sp) (drop sp b) @ [b ! ep]"
    using Suc.prems by (simp add: Suc_diff_le take_Suc_conv_app_nth)
  show ?case
  proof (cases "ep > sp \<and> strchr cset (b ! ep)")
    case True
    then show ?thesis using Suc t by auto
  next
    case False
    then have "\<not> strchr cset (b ! ep)" using Suc.prems by (cases "ep = sp") auto
    then show ?thesis using Suc.prems t by auto
  qed
qed simp

lemma sdstrim_correct:
  assumes "sds_ok s"
  shows "\<exists>r. sdstrim s cset = Some r \<and> sds_ok r \<and>
    text_of r = rev (dropWhile (strchr cset) (rev (dropWhile (strchr cset) (text_of s))))"
proof -
  let ?P = "strchr cset"
  define n where "n = sdslen s"
  define sp where "sp = trim_left cset (buf s) n 0"
  define e where "e = trim_right cset (buf s) sp n"
  define len where "len = (if sp \<ge> e then 0 else e - sp)"
  have nb: "n < length (buf s)" "text_of s = take n (buf s)" using sds_ok_len [OF assms] by (auto simp: n_def sdslen_def text_of_def)
  have sp: "sp = length (takeWhile ?P (text_of s))"
    using nb trim_left_eq [of 0 n "buf s"] by (simp add: sp_def)
  have dw: "dropWhile ?P (text_of s) = drop sp (text_of s)" by (simp add: sp dropWhile_eq_drop)
  have sn: "sp \<le> n" using sp nb length_takeWhile_le [of ?P "text_of s"] by simp
  have "sp + len \<le> n \<and> take len (drop sp (text_of s)) = rev (dropWhile ?P (rev (drop sp (text_of s))))"
  proof (cases "sp < n")
    case True
    have "\<not> ?P (text_of s ! sp)" using True nb nth_length_takeWhile [of ?P "text_of s"] sp by simp
    then have np: "\<not> ?P (buf s ! sp)" using True nb by simp
    have "sp < e" "e \<le> n" "take (e - sp) (drop sp (buf s)) = rev (dropWhile ?P (rev (take (n - sp) (drop sp (buf s)))))"
      using trim_right_eq [OF True _ np] nb by (simp_all add: e_def)
    then show ?thesis using nb by (simp add: len_def drop_take min_absorb1)
  next
    case False
    then have "e = n" unfolding e_def by (cases n) auto
    then show ?thesis using False sn nb by (simp add: len_def)
  qed
  then have sl: "sp + len \<le> sdslen s" "take len (drop sp (text_of s)) = rev (dropWhile ?P (rev (drop sp (text_of s))))"
    by (simp_all add: n_def)
  have "sp \<noteq> 0 \<or> sp = 0 \<or> len = 0" by auto
  from shrink_correct [OF assms sl(1) this] show ?thesis
    unfolding sdstrim_def Let_def n_def [symmetric] sp_def [symmetric] e_def [symmetric] len_def [symmetric] dw sl(2) .
qed

lemma sdssubstr_correct:
  assumes "sds_ok s"
  shows "\<exists>r. sdssubstr s start len = Some r \<and> sds_ok r \<and> text_of r = take len (drop start (text_of s))"
proof -
  define n where "n = sdslen s"
  have t: "length (text_of s) = n" using length_text_of [OF assms] by (simp add: n_def)
  define st where "st = (if start \<ge> n then 0 else start)"
  define l where "l = (if start \<ge> n then 0 else if len > n - start then n - start else len)"
  have "take l (drop st (text_of s)) = take len (drop start (text_of s))" "st + l \<le> n"
    using t by (auto simp: l_def st_def)
  moreover have "sdssubstr s start len = (do {
      s \<leftarrow> (if l \<noteq> 0 then do { b \<leftarrow> memmove 0 st l (buf s); Some (s\<lparr>buf := b\<rparr>) } else Some s);
      s \<leftarrow> sds_write s l [NUL];
      Some (sdssetlen s l) })"
    unfolding sdssubstr_def Let_def n_def [symmetric] by (simp add: l_def st_def)
  ultimately show ?thesis using shrink_correct [OF assms, of st l "l \<noteq> 0"] unfolding n_def by metis
qed

text \<open>The part of a text between two positions, counted from the end when they are negative.\<close>

definition range_spec :: "string \<Rightarrow> int \<Rightarrow> int \<Rightarrow> string" where
  "range_spec t i j =
     (let n = int (length t);
          i = (if i < 0 then n + i else i);
          j = (if j < 0 then n + j else j)
      in if i < 0 \<or> i > j then [] else take (nat (j - i + 1)) (drop (nat i) t))"

lemma sdsrange_correct:
  assumes "sds_ok s" "sdslen s < 2 ^ 62" "- (2 ^ 62) \<le> i" "i < 2 ^ 62" "- (2 ^ 62) \<le> j" "j < 2 ^ 62"
  shows "\<exists>r. sdsrange s i j = Some r \<and> sds_ok r \<and> text_of r = range_spec (text_of s) i j"
proof (cases "sdslen s = 0")
  case True
  then have "text_of s = []" using length_text_of [OF assms(1)] by simp
  then show ?thesis using True assms(1) by (simp add: sdsrange_def range_spec_def Let_def)
next
  case False
  define n where "n = int (sdslen s)"
  define i' where "i' = (if i < 0 then n + i else i)"
  define j' where "j' = (if j < 0 then n + j else j)"
  define m where "m = (if i' > j' then 0 else j' - i' + 1)"
  have n: "n = int (length (text_of s))" "n \<noteq> 0" using False length_text_of [OF assms(1)] by (simp_all add: n_def)
  have b: "- (2 ^ 62) \<le> i'" "i' < 2 ^ 62" "j' < 2 ^ 62" "0 \<le> m" "m \<le> 2 ^ 63" "n < 2 ^ 62"
    using assms(2-6) by (auto simp: i'_def j'_def m_def n_def)
  have m: "m mod 2 ^ 64 = m" using b by simp
  have i1: "i' mod 2 ^ 64 = i'" if "i' \<ge> 0" using b that by simp
  have i2: "i' mod 2 ^ 64 \<ge> n" if "i' < 0"
  proof -
    have "i' mod 2 ^ 64 = (i' + 2 ^ 64) mod 2 ^ 64" by simp
    also have "\<dots> = i' + 2 ^ 64" using b that by (intro mod_pos_pos_trivial) auto
    finally show ?thesis using b by simp
  qed
  have "take (nat m) (drop (nat (i' mod 2 ^ 64)) (text_of s)) = range_spec (text_of s) i j"
  proof (cases "i' < 0")
    case True
    then have "length (text_of s) \<le> nat (i' mod 2 ^ 64)" using i2 n by linarith
    then show ?thesis using True n by (simp add: range_spec_def Let_def i'_def split: if_splits)
  next
    case False
    then show ?thesis using i1 n unfolding range_spec_def Let_def n(1) [symmetric] i'_def [symmetric] j'_def [symmetric]
      by (auto simp: m_def)
  qed
  moreover have "sdsrange s i j = sdssubstr s (nat (i' mod 2 ^ 64)) (nat m)"
    using n(2) m unfolding sdsrange_def Let_def n_def [symmetric] i'_def [symmetric] j'_def [symmetric] m_def [symmetric]
    by simp
  ultimately show ?thesis using sdssubstr_correct [OF assms(1)] by metis
qed

section \<open>Changing characters\<close>

lemma foldl_map_prefix:
  "n \<le> length b \<Longrightarrow> foldl (\<lambda>b j. b[j := f (b ! j)]) b [0..<n] = map f (take n b) @ drop n b"
proof (induction n)
  case (Suc n)
  then have "drop n b = b ! n # drop (Suc n) b" by (simp add: Cons_nth_drop_Suc)
  then show ?case using Suc by (simp add: take_Suc_conv_app_nth nth_append list_update_append)
qed simp

lemma change_prefix:
  assumes "sds_ok s"
  shows "sds_ok (s\<lparr>buf := foldl (\<lambda>b j. b[j := f (b ! j)]) (buf s) [0..<sdslen s]\<rparr>) \<and>
    text_of (s\<lparr>buf := foldl (\<lambda>b j. b[j := f (b ! j)]) (buf s) [0..<sdslen s]\<rparr>) = map f (text_of s)"
proof -
  have l: "hdr_len s < length (buf s)" using assms by (rule sds_ok_len)
  show ?thesis
    using assms l by (auto simp: foldl_map_prefix sdslen_def sds_ok_def sdsalloc_def text_of_def nth_append split: if_splits)
qed

lemma mapchar_eq:
  "length fr = n \<Longrightarrow> length to = n \<Longrightarrow> i \<le> n \<Longrightarrow>
   mapchar fr to n i c = (case map_of (zip (drop i fr) (drop i to)) c of None \<Rightarrow> c | Some d \<Rightarrow> d)"
proof (induction fr to n i c rule: mapchar.induct)
  case (1 fr to n i c)
  show ?case
  proof (cases "i < n")
    case True
    then have "zip (drop i fr) (drop i to) = (fr ! i, to ! i) # zip (drop (Suc i) fr) (drop (Suc i) to)"
      using "1.prems" by (metis Cons_nth_drop_Suc zip_Cons_Cons)
    then show ?thesis using 1 True by (simp add: mapchar.simps [of fr to n i c])
  qed (use 1 in \<open>simp add: mapchar.simps [of fr to n n c]\<close>)
qed

lemma tolower_toupper: "tolower (toupper c) = tolower c" "toupper (tolower c) = toupper c"
  using ccode_less [of c] by (auto simp: tolower_def toupper_def ccode_char_of)

section \<open>Order\<close>

text \<open>The order of byte strings: the first difference decides, a proper prefix is smaller.\<close>

definition byte_less :: "string \<Rightarrow> string \<Rightarrow> bool" where
  "byte_less xs ys \<longleftrightarrow> (xs, ys) \<in> lexord {(a, b). ccode a < ccode b}"

lemma byte_less_simps [simp]:
  "\<not> byte_less xs []" "byte_less [] (y # ys)"
  "byte_less (x # xs) (y # ys) \<longleftrightarrow> ccode x < ccode y \<or> x = y \<and> byte_less xs ys"
  by (auto simp: byte_less_def)

lemma memcmp_prefix:
  "n \<le> m \<Longrightarrow> n \<le> k \<Longrightarrow> n \<le> length s \<Longrightarrow> n \<le> length t \<Longrightarrow> memcmp (take m s) (take k t) n = memcmp s t n"
proof (induction s t n arbitrary: m k rule: memcmp.induct)
  case (2 s t n)
  obtain a s' b t' where st: "s = a # s'" "t = b # t'" using "2.prems" by (cases s; cases t) auto
  obtain m' k' where mk: "m = Suc m'" "k = Suc k'" using "2.prems" by (cases m; cases k) auto
  show ?case using "2.IH" [of m' k'] "2.prems" by (simp add: st mk)
qed simp

definition cmp_spec :: "string \<Rightarrow> string \<Rightarrow> int" where
  "cmp_spec xs ys = (if byte_less xs ys then -1 else if xs = ys then 0 else 1)"

lemma memcmp_spec:
  "(let c = memcmp xs ys (min (length xs) (length ys))
    in if c = 0 then (if length xs > length ys then 1 else if length xs < length ys then -1 else 0) else c) = cmp_spec xs ys"
proof (induction xs arbitrary: ys)
  case Nil
  then show ?case by (cases ys) (auto simp: cmp_spec_def)
next
  case (Cons x xs)
  show ?case
  proof (cases ys)
    case (Cons y ys')
    have m: "min (length (x # xs)) (length ys) = Suc (min (length xs) (length ys'))" by (simp add: Cons)
    consider "ccode x < ccode y" | "ccode y < ccode x" | "x = y" using ccode_inject linorder_neqE_nat by metis
    then show ?thesis
    proof cases
      case 1
      then show ?thesis unfolding m by (simp add: Cons cmp_spec_def)
    next
      case 2
      then have "x \<noteq> y" by auto
      then show ?thesis unfolding m using 2 by (simp add: Cons cmp_spec_def)
    next
      case 3
      have "memcmp (x # xs) ys (Suc (min (length xs) (length ys'))) = memcmp xs ys' (min (length xs) (length ys'))"
        by (simp add: Cons 3)
      moreover have "cmp_spec (x # xs) ys = cmp_spec xs ys'" by (simp add: Cons 3 cmp_spec_def)
      ultimately show ?thesis unfolding m using Cons.IH [of ys'] by (simp only: Cons length_Cons Suc_less_eq)
    qed
  qed (simp add: cmp_spec_def)
qed

lemma sdscmp_eq:
  assumes "sds_ok s1" "sds_ok s2"
  shows "sdscmp s1 s2 = cmp_spec (text_of s1) (text_of s2)"
proof -
  let ?n = "min (sdslen s1) (sdslen s2)"
  have l: "length (text_of s1) = sdslen s1" "length (text_of s2) = sdslen s2"
    using assms length_text_of by auto
  have "memcmp (text_of s1) (text_of s2) ?n = memcmp (buf s1) (buf s2) ?n"
    using sds_ok_len [OF assms(1)] sds_ok_len [OF assms(2)] by (simp add: memcmp_prefix text_of_def sdslen_def)
  moreover have "(if sdslen s1 < sdslen s2 then sdslen s1 else sdslen s2) = ?n" by auto
  ultimately show ?thesis
    using memcmp_spec [of "text_of s1" "text_of s2"] unfolding sdscmp_def Let_def l by (simp only:)
qed

lemma byte_less_antisym: "byte_less xs ys \<Longrightarrow> \<not> byte_less ys xs"
proof (induction xs arbitrary: ys)
  case (Cons x xs)
  then show ?case by (cases ys) auto
qed simp

lemma byte_less_total: "byte_less xs ys \<or> xs = ys \<or> byte_less ys xs"
proof (induction xs arbitrary: ys)
  case (Cons x xs)
  show ?case
  proof (cases ys)
    case (Cons y ys')
    then show ?thesis using Cons.IH [of ys'] linorder_less_linear [of "ccode x" "ccode y"] by auto
  qed simp
qed (metis byte_less_simps(2) list.exhaust)

end
