(* ===== verification/Sds_Split.thy ===== *)
theory Sds_Split
  imports Sds_Str_Correct
begin

text \<open>
  Splitting, joining and quoting: \<^verbatim>\<open>sdssplitlen\<close> cuts at the separators and \<^verbatim>\<open>sdsjoinsds\<close> puts the
  string together again; \<^verbatim>\<open>sdssplitargs\<close> reads back what \<^verbatim>\<open>sdscatrepr\<close> has quoted.
\<close>

section \<open>Joining\<close>

fun intercalate :: "string \<Rightarrow> string list \<Rightarrow> string" where
  "intercalate sep [] = []"
| "intercalate sep [t] = t"
| "intercalate sep (t # u # ts) = t @ sep @ intercalate sep (u # ts)"

lemma intercalate_Cons: "intercalate sep (t # ts) = t @ (if ts = [] then [] else sep @ intercalate sep ts)"
  by (cases ts) auto

lemma intercalate_snoc:
  "intercalate sep (ts @ [t]) = (if ts = [] then t else intercalate sep ts @ sep @ t)"
  by (induction ts) (auto simp: intercalate_Cons)

lemma joinsds_loop_correct:
  "alloc_ok al \<Longrightarrow> sds_ok s \<Longrightarrow> \<forall>t\<in>set argv. sds_ok t \<Longrightarrow> seplen \<le> length sep \<Longrightarrow>
   sdslen s + length (intercalate (take seplen sep) (map text_of argv)) < 2 ^ 63 \<Longrightarrow>
   \<exists>r. joinsds_loop al argv sep seplen s = Some r \<and> sds_ok r \<and>
     text_of r = text_of s @ intercalate (take seplen sep) (map text_of argv)"
proof (induction argv arbitrary: s)
  case (Cons t argv)
  obtain q where q: "sdscatsds al s t = Some q" "sds_ok q" "text_of q = text_of s @ text_of t"
    using sdscatsds_correct [of s t al] Cons.prems length_text_of [of t] by (auto simp: intercalate_Cons)
  have lq: "sdslen q = sdslen s + length (text_of t)"
    using length_text_of [OF q(2)] length_text_of [OF Cons.prems(2)] q(3) by simp
  show ?case
  proof (cases "argv = []")
    case True
    then show ?thesis using q by simp
  next
    case False
    obtain w where w: "sdscatlen al q sep seplen = Some w" "sds_ok w" "text_of w = text_of q @ take seplen sep"
      using sdscatlen_correct [OF q(2) Cons.prems(1), of seplen sep] Cons.prems lq False by (auto simp: intercalate_Cons)
    have lw: "sdslen w = sdslen q + seplen"
      using length_text_of [OF q(2)] length_text_of [OF w(2)] w(3) Cons.prems(4) by simp
    have "\<exists>r. joinsds_loop al argv sep seplen w = Some r \<and> sds_ok r \<and>
      text_of r = text_of w @ intercalate (take seplen sep) (map text_of argv)"
      using Cons.IH [OF Cons.prems(1) w(2)] Cons.prems lw lq False by (auto simp: intercalate_Cons)
    then show ?thesis using q w False by (auto simp: intercalate_Cons)
  qed
qed auto

lemma sdsjoinsds_correct:
  assumes "alloc_ok al" "\<forall>t\<in>set argv. sds_ok t" "seplen \<le> length sep"
    "length (intercalate (take seplen sep) (map text_of argv)) < 2 ^ 63"
  shows "\<exists>r. sdsjoinsds al argv sep seplen = Some r \<and> sds_ok r \<and>
    text_of r = intercalate (take seplen sep) (map text_of argv)"
proof -
  obtain s where s: "sdsempty al = Some s" "sds_ok s" "text_of s = []" using sdsempty_correct [OF assms(1)] by blast
  then have "sdslen s = 0" using length_text_of [OF s(2)] by simp
  then show ?thesis using joinsds_loop_correct [OF assms(1) s(2) assms(2,3)] assms(4) s by (simp add: sdsjoinsds_def)
qed

lemma strlen_eq: "NUL \<notin> set t \<Longrightarrow> strlen t = length t"
  unfolding strlen_def by (subst takeWhile_eq_all_conv [THEN iffD2]) auto

lemma sdscat_correct:
  assumes "sds_ok s" "alloc_ok al" "NUL \<notin> set t" "sdslen s + length t < 2 ^ 63"
  shows "\<exists>r. sdscat al s t = Some r \<and> sds_ok r \<and> text_of r = text_of s @ t"
  using sdscatlen_correct [OF assms(1,2,4), of t] unfolding sdscat_def strlen_eq [OF assms(3)] by simp

text \<open>Joining C strings is joining the strings of their texts.\<close>

lemma join_loop_correct:
  "alloc_ok al \<Longrightarrow> sds_ok s \<Longrightarrow> \<forall>t\<in>set (sep # argv). NUL \<notin> set t \<Longrightarrow>
   sdslen s + length (intercalate sep argv) < 2 ^ 63 \<Longrightarrow>
   \<exists>r. join_loop al argv sep s = Some r \<and> sds_ok r \<and> text_of r = text_of s @ intercalate sep argv"
proof (induction argv arbitrary: s)
  case (Cons t argv)
  obtain q where q: "sdscat al s t = Some q" "sds_ok q" "text_of q = text_of s @ t"
    using sdscat_correct [of s al t] Cons.prems by (auto simp: intercalate_Cons)
  have lq: "sdslen q = sdslen s + length t"
    using length_text_of [OF q(2)] length_text_of [OF Cons.prems(2)] q(3) by simp
  show ?case
  proof (cases "argv = []")
    case False
    obtain w where w: "sdscat al q sep = Some w" "sds_ok w" "text_of w = text_of q @ sep"
      using sdscat_correct [OF q(2) Cons.prems(1), of sep] Cons.prems lq False by (auto simp: intercalate_Cons)
    have "sdslen w = sdslen q + length sep" using length_text_of [OF q(2)] length_text_of [OF w(2)] w(3) by simp
    then have "\<exists>r. join_loop al argv sep w = Some r \<and> sds_ok r \<and> text_of r = text_of w @ intercalate sep argv"
      using Cons.IH [OF Cons.prems(1) w(2)] Cons.prems lq False by (auto simp: intercalate_Cons)
    then show ?thesis using q w False by (auto simp: intercalate_Cons)
  qed (use q in simp)
qed auto

lemma sdsjoin_correct:
  assumes "alloc_ok al" "\<forall>t\<in>set (sep # argv). NUL \<notin> set t" "length (intercalate sep argv) < 2 ^ 63"
  shows "\<exists>r. sdsjoin al argv sep = Some r \<and> sds_ok r \<and> text_of r = intercalate sep argv"
proof -
  obtain s where s: "sdsempty al = Some s" "sds_ok s" "text_of s = []" using sdsempty_correct [OF assms(1)] by blast
  then have "sdslen s = 0" using length_text_of [OF s(2)] by simp
  then show ?thesis using join_loop_correct [OF assms(1) s(2) assms(2)] assms(3) s by (simp add: sdsjoin_def)
qed

section \<open>Splitting\<close>

declare split_loop.simps [simp del]

text \<open>The separator occurs at position \<open>j\<close>.\<close>

definition occurs_at :: "string \<Rightarrow> string \<Rightarrow> nat \<Rightarrow> bool" where
  "occurs_at sep s j \<longleftrightarrow> j + length sep \<le> length s \<and> take (length sep) (drop j s) = sep"

lemma memcmp_0: "n \<le> length s \<Longrightarrow> n \<le> length t \<Longrightarrow> memcmp s t n = 0 \<longleftrightarrow> take n s = take n t"
proof (induction s t n rule: memcmp.induct)
  case (2 s t n)
  obtain a s' b t' where "s = a # s'" "t = b # t'" using "2.prems" by (cases s; cases t) auto
  then show ?case using 2 ccode_inject [of a b] by (auto simp: linorder_neq_iff)
qed simp

lemma sep_found:
  assumes "sep \<noteq> []" "int j < int (length s) - (int (length sep) - 1)"
  shows "(length sep = Suc 0 \<and> s ! j = sep ! 0 \<or> memcmp (drop j s) sep (length sep) = 0) = occurs_at sep s j"
proof -
  have l: "j + length sep \<le> length s" using assms by (cases sep) auto
  then have "memcmp (drop j s) sep (length sep) = 0 \<longleftrightarrow> occurs_at sep s j"
    by (simp add: memcmp_0 occurs_at_def)
  moreover have "occurs_at sep s j" if "length sep = Suc 0" "s ! j = sep ! 0"
    using that l by (cases sep) (auto simp: occurs_at_def take_Suc hd_drop_conv_nth)
  ultimately show ?thesis by auto
qed

text \<open>
  The invariant of the scan: the tokens and the part not yet split make up the string, and there
  is no separator in a token or between the start and the position.
\<close>

definition no_sep :: "string \<Rightarrow> string \<Rightarrow> bool" where
  "no_sep sep t \<longleftrightarrow> (\<forall>i. \<not> occurs_at sep t i)"

definition split_inv :: "string \<Rightarrow> string \<Rightarrow> nat \<Rightarrow> nat \<Rightarrow> nat \<Rightarrow> sds list \<Rightarrow> bool" where
  "split_inv s sep j start slots tokens \<longleftrightarrow>
     start \<le> j \<and> start \<le> length s \<and> length tokens < slots \<and> (\<forall>t\<in>set tokens. sds_ok t \<and> no_sep sep (text_of t)) \<and>
     concat (map (\<lambda>t. text_of t @ sep) tokens) @ drop start s = s \<and>
     (\<forall>i. start \<le> i \<and> i < j \<longrightarrow> \<not> occurs_at sep s i)"

lemma occurs_at_sub:
  assumes "occurs_at sep (take n (drop start s)) i" "sep \<noteq> []"
  shows "occurs_at sep s (start + i)"
proof -
  have l: "i + length sep \<le> length (take n (drop start s))" and t: "take (length sep) (drop i (take n (drop start s))) = sep"
    using assms by (auto simp: occurs_at_def)
  have "take (length sep) (drop i (take n (drop start s))) = take (length sep) (drop (start + i) s)"
    using l by (simp add: drop_take min_absorb1 le_diff_conv2 add.commute)
  then show ?thesis using l t assms(2) by (cases sep) (auto simp: occurs_at_def)
qed

lemma no_sep_part:
  assumes "\<forall>i. start \<le> i \<and> i < j \<longrightarrow> \<not> occurs_at sep s i" "start + n \<le> j + length sep - 1" "sep \<noteq> []"
  shows "no_sep sep (take n (drop start s))"
proof -
  have "\<not> occurs_at sep (take n (drop start s)) i" for i
  proof
    assume o: "occurs_at sep (take n (drop start s)) i"
    then have "i + length sep \<le> n" by (simp add: occurs_at_def)
    then have "start + i < j" using assms(2,3) by (cases sep) auto
    then show False using assms(1) occurs_at_sub [OF o assms(3)] by auto
  qed
  then show ?thesis by (simp add: no_sep_def)
qed

lemma split_inv_found:
  assumes "split_inv s sep j start slots tokens" "occurs_at sep s j" "sds_ok t" "text_of t = take (j - start) (drop start s)"
    "slots' > length tokens + 1" "sep \<noteq> []"
  shows "split_inv s sep (j + length sep) (j + length sep) slots' (tokens @ [t])"
proof -
  have i: "start \<le> j" "concat (map (\<lambda>t. text_of t @ sep) tokens) @ drop start s = s"
    "\<forall>i. start \<le> i \<and> i < j \<longrightarrow> \<not> occurs_at sep s i" "\<forall>t\<in>set tokens. sds_ok t \<and> no_sep sep (text_of t)"
    using assms(1) by (auto simp: split_inv_def)
  have o: "j + length sep \<le> length s" "take (length sep) (drop j s) = sep" using assms(2) by (auto simp: occurs_at_def)
  have "drop start s = take (j - start) (drop start s) @ drop j s"
    using i(1) append_take_drop_id [of "j - start" "drop start s"] by simp
  moreover have "drop j s = sep @ drop (j + length sep) s"
    using append_take_drop_id [of "length sep" "drop j s"] o(2) by (simp add: add.commute)
  moreover have "no_sep sep (text_of t)"
    unfolding assms(4) using i(1,3) assms(6) by (intro no_sep_part) (auto simp: Suc_le_eq neq_Nil_conv)
  ultimately show ?thesis
    using i assms(3-5) o(1) unfolding split_inv_def by auto
qed

lemma split_loop_correct:
  assumes "sep \<noteq> []" "alloc_ok al" "length s < 2 ^ 63"
  shows "split_inv s sep j start slots tokens \<Longrightarrow> 2 \<le> slots \<Longrightarrow>
    \<exists>start' slots' tokens' j'. split_loop al s (length s) sep (length sep) j start slots tokens = Some (start', slots', tokens') \<and>
      split_inv s sep j' start' slots' tokens' \<and> int (length s) - (int (length sep) - 1) \<le> int j'"
proof (induction "length s + 1 - j" arbitrary: j start slots tokens rule: less_induct)
  case less
  have inv: "split_inv s sep j start slots tokens" by fact
  have s1: "1 \<le> length sep" using assms(1) by (cases sep) auto
  show ?case
  proof (cases "int j < int (length s) - (int (length sep) - 1)")
    case False
    then show ?thesis using inv by (subst split_loop.simps) auto
  next
    case True
    let ?slots = "if slots < length tokens + 2 then slots * 2 else slots"
    have sl: "length tokens + 1 < ?slots" "2 \<le> ?slots" using inv less.prems by (auto simp: split_inv_def)
    show ?thesis
    proof (cases "occurs_at sep s j")
      case found: True
      have js: "start \<le> j" "j \<le> length s" using inv found by (auto simp: split_inv_def occurs_at_def)
      have jl: "j - start \<le> length s" "j - start \<le> length (drop start s)" using js by auto
      obtain t where t: "sdsnewlen al (Init (drop start s)) (j - start) = Some t" "sds_ok t"
        "text_of t = take (j - start) (drop start s)"
        using sdsnewlen_correct [OF assms(2) le_less_trans [OF jl(1) assms(3)] jl(2)] by blast
      have inv': "split_inv s sep (j + length sep) (j + length sep) ?slots (tokens @ [t])"
        by (rule split_inv_found [OF inv found t(2,3) sl(1) assms(1)])
      have jj: "Suc (j + length sep - Suc 0) = j + length sep" using s1 by simp
      have "split_loop al s (length s) sep (length sep) j start slots tokens =
        split_loop al s (length s) sep (length sep) (j + length sep) (j + length sep) ?slots (tokens @ [t])"
        using True s1 t(1) sl found jj
        by (subst split_loop.simps) (simp add: Let_def put_token_def sep_found [OF assms(1) True])
      moreover have "length s + 1 - (j + length sep) < length s + 1 - j" using True s1 by simp
      ultimately show ?thesis using less.hyps [OF _ inv' sl(2)] by presburger
    next
      case nf: False
      have inv': "split_inv s sep (j + 1) start ?slots tokens"
        using inv nf sl by (auto simp: split_inv_def less_Suc_eq)
      have "split_loop al s (length s) sep (length sep) j start slots tokens =
        split_loop al s (length s) sep (length sep) (j + 1) start ?slots tokens"
        using True s1 nf by (subst split_loop.simps) (simp add: Let_def sep_found [OF assms(1) True])
      moreover have "length s + 1 - (j + 1) < length s + 1 - j" using True s1 by simp
      ultimately show ?thesis using less.hyps [OF _ inv' sl(2)] by presburger
    qed
  qed
qed

lemma concat_sep: "concat (map (\<lambda>t. t @ sep) ts) @ u = intercalate sep (ts @ [u])"
  by (induction ts) (auto simp: intercalate_Cons)

lemma sdssplitlen_correct:
  assumes "s \<noteq> []" "sep \<noteq> []" "alloc_ok al" "length s < 2 ^ 63"
  shows "\<exists>ts. sdssplitlen al s (int (length s)) sep (int (length sep)) = Some (Some ts) \<and>
    (\<forall>t\<in>set ts. sds_ok t \<and> no_sep sep (text_of t)) \<and> intercalate sep (map text_of ts) = s"
proof -
  have "split_inv s sep 0 0 5 []" by (simp add: split_inv_def)
  then obtain start slots ts j where l: "split_loop al s (length s) sep (length sep) 0 0 5 [] = Some (start, slots, ts)"
    "split_inv s sep j start slots ts" "int (length s) - (int (length sep) - 1) \<le> int j"
    using split_loop_correct [OF assms(2-4), of 0 0 5 "[]"] by auto
  have st: "start \<le> length s" using l(2) by (simp add: split_inv_def)
  obtain t where t: "sdsnewlen al (Init (drop start s)) (length s - start) = Some t" "sds_ok t" "text_of t = drop start s"
    using sdsnewlen_correct [OF assms(3) le_less_trans, of "length s - start" "length s" "drop start s"] assms(4) by auto
  have ns: "no_sep sep (take (length s - start) (drop start s))"
    using l(2,3) assms(2) st by (intro no_sep_part [of start j]) (auto simp: split_inv_def)
  have "length ts < slots" "concat (map (\<lambda>t. text_of t @ sep) ts) @ drop start s = s"
    "\<forall>t\<in>set ts. sds_ok t \<and> no_sep sep (text_of t)"
    using l(2) by (auto simp: split_inv_def)
  then show ?thesis
    using l(1) t ns assms(1,2) concat_sep [of sep "map text_of ts" "drop start s"]
    by (auto simp: sdssplitlen_def put_token_def comp_def)
qed

section \<open>Quoting\<close>

fun repr_char :: "char \<Rightarrow> string" where
  "repr_char c =
     (if ccode c = 92 \<or> ccode c = 34 then [char_of (92 :: nat), c]
      else if ccode c = 10 then [char_of (92 :: nat), CHR ''n'']
      else if ccode c = 13 then [char_of (92 :: nat), CHR ''r'']
      else if ccode c = 9 then [char_of (92 :: nat), CHR ''t'']
      else if ccode c = 7 then [char_of (92 :: nat), CHR ''a'']
      else if ccode c = 8 then [char_of (92 :: nat), CHR ''b'']
      else if isprint c then [c]
      else char_of (92 :: nat) # CHR ''x'' # hex02 (ccode c))"

definition repr :: "string \<Rightarrow> string" where
  "repr x = char_of (34 :: nat) # concat (map repr_char x) @ [char_of (34 :: nat)]"

declare repr_char.simps [simp del]

lemma length_repr_char: "length (repr_char c) \<le> 4"
  by (simp add: repr_char.simps hex02_def)

lemma length_repr: "length (repr x) \<le> 4 * length x + 2"
proof (induction x)
  case (Cons c x)
  then show ?case using length_repr_char [of c] by (simp add: repr_def)
qed (simp add: repr_def)

lemma ccode_hex_char: "d < 16 \<Longrightarrow> ccode (hex_char d) = (if d < 10 then 48 + d else 87 + d)"
  by (simp add: hex_char_def ccode_char_of)

lemma hex_char_digit: "d < 16 \<Longrightarrow> is_hex_digit (hex_char d) \<and> hex_digit_to_int (hex_char d) = d"
  by (cases "d < 10") (simp_all add: is_hex_digit_def hex_digit_to_int_def ccode_hex_char)

lemma NUL_hex: "d < 16 \<Longrightarrow> hex_char d \<noteq> NUL"
  using ccode_hex_char [of d] by (auto split: if_splits)

lemma ccode_char_of_lit [simp]:
  "ccode (char_of (92 :: nat)) = 92" "ccode (char_of (34 :: nat)) = 34" "ccode (char_of (39 :: nat)) = 39"
  by (simp_all add: ccode_char_of)

lemma catrepr_char_correct:
  assumes "sds_ok s" "alloc_ok al" "sdslen s + 4 < 2 ^ 63"
  shows "\<exists>r. catrepr_char al s c = Some r \<and> sds_ok r \<and> text_of r = text_of s @ repr_char c"
proof -
  have cat: "\<exists>r. sdscat al s t = Some r \<and> sds_ok r \<and> text_of r = text_of s @ t" if "NUL \<notin> set t" "length t \<le> 4" for t
    using sdscat_correct [OF assms(1,2) that(1)] that(2) assms(3) by simp
  have catlen: "\<exists>r. sdscatlen al s [a, b] 2 = Some r \<and> sds_ok r \<and> text_of r = text_of s @ [a, b]" for a b
    using sdscatlen_correct [OF assms(1,2), of 2 "[a, b]"] assms(3) by simp
  have b: "char_of (92 :: nat) \<noteq> (NUL :: char)" using ccode_char_of_lit(1) ccode_NUL by (metis zero_neq_numeral)
  consider "ccode c = 92 \<or> ccode c = 34" | "ccode c \<in> {10, 13, 9, 7, 8}"
    | "ccode c \<notin> {92, 34, 10, 13, 9, 7, 8}" "isprint c" | "ccode c \<notin> {92, 34, 10, 13, 9, 7, 8}" "\<not> isprint c"
    by blast
  then show ?thesis
  proof cases
    case 1
    then have "c \<noteq> NUL" by auto
    then show ?thesis using 1 cat [of "[char_of (92 :: nat), c]"] b by (auto simp: catrepr_char_def repr_char.simps)
  next
    case 2
    then consider "ccode c = 10" | "ccode c = 13" | "ccode c = 9" | "ccode c = 7" | "ccode c = 8" by auto
    then show ?thesis by cases (simp_all add: catrepr_char_def repr_char.simps catlen)
  next
    case 3
    then have "c \<noteq> NUL" by (auto simp: isprint_def)
    then show ?thesis using 3 cat [of "[c]"] by (simp add: catrepr_char_def repr_char.simps)
  next
    case 4
    have "ccode c div 16 < 16" using ccode_less [of c] by linarith
    then have "NUL \<notin> set (char_of (92 :: nat) # CHR ''x'' # hex02 (ccode c))"
      using b NUL_hex [of "ccode c div 16"] NUL_hex [of "ccode c mod 16"] ccode_less [of c] by (auto simp: hex02_def)
    then show ?thesis using 4 cat [of "char_of (92 :: nat) # CHR ''x'' # hex02 (ccode c)"]
      by (simp add: catrepr_char_def repr_char.simps hex02_def)
  qed
qed

lemma catrepr_loop_correct:
  "sds_ok s \<Longrightarrow> alloc_ok al \<Longrightarrow> sdslen s + 4 * length p < 2 ^ 63 \<Longrightarrow>
   \<exists>r. catrepr_loop al s p = Some r \<and> sds_ok r \<and> text_of r = text_of s @ concat (map repr_char p)"
proof (induction p arbitrary: s)
  case (Cons c p)
  obtain q where q: "catrepr_char al s c = Some q" "sds_ok q" "text_of q = text_of s @ repr_char c"
    using catrepr_char_correct [OF Cons.prems(1,2), of c] Cons.prems(3) by auto
  have "sdslen q \<le> sdslen s + 4"
    using length_text_of [OF q(2)] length_text_of [OF Cons.prems(1)] q(3) length_repr_char [of c] by simp
  then show ?case using Cons.IH [OF q(2) Cons.prems(2)] Cons.prems(3) q by auto
qed auto

lemma sdscatrepr_correct:
  assumes "sds_ok s" "alloc_ok al" "sdslen s + 4 * length p + 2 < 2 ^ 63"
  shows "\<exists>r. sdscatrepr al s p (length p) = Some r \<and> sds_ok r \<and> text_of r = text_of s @ repr p"
proof -
  obtain q where q: "sdscatlen al s [char_of (34 :: nat)] 1 = Some q" "sds_ok q" "text_of q = text_of s @ [char_of (34 :: nat)]"
    using sdscatlen_correct [OF assms(1,2), of 1 "[char_of (34 :: nat)]"] assms(3) by auto
  have lq: "sdslen q = sdslen s + 1" using length_text_of [OF q(2)] length_text_of [OF assms(1)] q(3) by simp
  obtain w where w: "catrepr_loop al q p = Some w" "sds_ok w" "text_of w = text_of q @ concat (map repr_char p)"
    using catrepr_loop_correct [OF q(2) assms(2), of p] lq assms(3) by auto
  have "length (concat (map repr_char p)) \<le> 4 * length p" using length_repr [of p] by (simp add: repr_def)
  then have lw: "sdslen w + 1 < 2 ^ 63" using length_text_of [OF q(2)] length_text_of [OF w(2)] w(3) lq assms(3) by simp
  obtain r where "sdscatlen al w [char_of (34 :: nat)] 1 = Some r" "sds_ok r" "text_of r = text_of w @ [char_of (34 :: nat)]"
    using sdscatlen_correct [OF w(2) assms(2) lw, of "[char_of (34 :: nat)]"] by auto
  then show ?thesis using q w by (simp add: sdscatrepr_def load_at_Some repr_def)
qed

section \<open>Parsing what was quoted\<close>

declare splitargs_loop.simps [simp del]

text \<open>One quoted character inside double quotes.\<close>

lemma sdscat1:
  assumes "sds_ok s" "alloc_ok al" "sdslen s + 1 < 2 ^ 63" "t \<noteq> []"
  obtains r where "sdscatlen al s t 1 = Some r" "sds_ok r" "text_of r = text_of s @ [hd t]" "sdslen r = sdslen s + 1"
proof -
  have "1 \<le> length t" using assms(4) by (cases t) auto
  then obtain r where "sdscatlen al s t 1 = Some r" "sds_ok r" "text_of r = text_of s @ take 1 t"
    using sdscatlen_correct [OF assms(1-3)] by blast
  then show thesis using that length_text_of [of r] length_text_of [OF assms(1)] assms(4) by (cases t) auto
qed

lemma token_step_repr:
  assumes "sds_ok cur" "alloc_ok al" "sdslen cur + 1 < 2 ^ 63"
  shows "\<exists>r. token_step al True q cur (repr_char c @ p) = Some (Tok_more True q r p) \<and> sds_ok r \<and>
    text_of r = text_of cur @ [c] \<and> sdslen r = sdslen cur + 1"
proof -
  obtain r where r: "sdscatlen al cur [c] 1 = Some r" "sds_ok r" "text_of r = text_of cur @ [c]" "sdslen r = sdslen cur + 1"
    using sdscat1 [OF assms, of "[c]"] by auto
  obtain r' where r': "sdscatlen al cur (c # p) 1 = Some r'" "sds_ok r'" "text_of r' = text_of cur @ [c]" "sdslen r' = sdslen cur + 1"
    using sdscat1 [OF assms, of "c # p"] by auto
  have esc: "token_step al True q cur (char_of (92 :: nat) # d # p) = Some (Tok_more True q r p)"
    if "unescape d = c" "d \<noteq> NUL" "d \<noteq> CHR ''x''" for d
    using that r by (simp add: token_step_def pk_Cons)
  consider "ccode c = 92 \<or> ccode c = 34" | "ccode c \<in> {10, 13, 9, 7, 8}"
    | "ccode c \<notin> {92, 34, 10, 13, 9, 7, 8}" "isprint c" | "ccode c \<notin> {92, 34, 10, 13, 9, 7, 8}" "\<not> isprint c"
    by blast
  then show ?thesis
  proof cases
    case 1
    then have "unescape c = c" "c \<noteq> NUL" "c \<noteq> CHR ''x''" by (auto simp: unescape_def ccode_def)
    then show ?thesis using 1 esc [of c] r by (simp add: repr_char.simps)
  next
    case 2
    have cd: "c = char_of (ccode c)" by simp
    from 2 consider "ccode c = 10" | "ccode c = 13" | "ccode c = 9" | "ccode c = 7" | "ccode c = 8" by auto
    then show ?thesis
    proof cases
      case 1
      then show ?thesis using esc [of "CHR ''n''"] r cd by (simp add: repr_char.simps unescape_def)
    next
      case 2
      then show ?thesis using esc [of "CHR ''r''"] r cd by (simp add: repr_char.simps unescape_def)
    next
      case 3
      then show ?thesis using esc [of "CHR ''t''"] r cd by (simp add: repr_char.simps unescape_def)
    next
      case 4
      then show ?thesis using esc [of "CHR ''a''"] r cd by (simp add: repr_char.simps unescape_def)
    next
      case 5
      then show ?thesis using esc [of "CHR ''b''"] r cd by (simp add: repr_char.simps unescape_def)
    qed
  next
    case 3
    then have "c \<noteq> NUL" by (auto simp: isprint_def)
    then show ?thesis using 3 r' by (simp add: repr_char.simps token_step_def pk_Cons)
  next
    case 4
    have "ccode c div 16 < 16" using ccode_less [of c] by linarith
    then have "token_step al True q cur (char_of (92 :: nat) # CHR ''x'' # hex02 (ccode c) @ p) = Some (Tok_more True q r p)"
      using r hex_char_digit [of "ccode c div 16"] hex_char_digit [of "ccode c mod 16"]
      by (simp add: token_step_def pk_Cons hex02_def)
    then show ?thesis using 4 r by (simp add: repr_char.simps)
  qed
qed

lemma token_loop_quoted:
  "sds_ok cur \<Longrightarrow> alloc_ok al \<Longrightarrow> sdslen cur + length x < 2 ^ 63 \<Longrightarrow> pk p 0 = NUL \<or> isspace (pk p 0) \<Longrightarrow>
   \<exists>r. token_loop al True q cur (concat (map repr_char x) @ char_of (34 :: nat) # p) = Some (Some (r, p)) \<and> sds_ok r \<and>
     text_of r = text_of cur @ x"
proof (induction x arbitrary: cur)
  case Nil
  then show ?case by (subst token_loop.simps) (auto simp: token_step_def pk_Cons)
next
  case (Cons c x)
  obtain r where r: "token_step al True q cur (repr_char c @ concat (map repr_char x) @ char_of (34 :: nat) # p) =
      Some (Tok_more True q r (concat (map repr_char x) @ char_of (34 :: nat) # p))"
    "sds_ok r" "text_of r = text_of cur @ [c]" "sdslen r = sdslen cur + 1"
    using token_step_repr [OF Cons.prems(1,2), of q c] Cons.prems(3) by fastforce
  show ?case using Cons.IH [OF r(2) Cons.prems(2)] Cons.prems(3,4) r by (subst token_loop.simps) simp
qed

lemma quote_ne_NUL: "char_of (34 :: nat) \<noteq> (NUL :: char)"
  using ccode_char_of_lit(2) ccode_NUL by (metis zero_neq_numeral)

lemma token_loop_repr:
  assumes "sds_ok cur" "alloc_ok al" "sdslen cur + length x < 2 ^ 63" "pk p 0 = NUL \<or> isspace (pk p 0)"
  shows "\<exists>r. token_loop al False False cur (repr x @ p) = Some (Some (r, p)) \<and> sds_ok r \<and> text_of r = text_of cur @ x"
proof -
  have "token_step al False False cur (repr x @ p) =
    Some (Tok_more True False cur (concat (map repr_char x) @ char_of (34 :: nat) # p))"
    using quote_ne_NUL by (simp add: token_step_def pk_Cons repr_def)
  then show ?thesis using token_loop_quoted [OF assms, of False] by (subst token_loop.simps) simp
qed

lemma not_isspace_quote: "\<not> isspace (char_of (34 :: nat))"
  by (simp add: isspace_def ccode_char_of)

lemma splitargs_skip: "isspace c \<Longrightarrow> splitargs_loop al vec (c # p) = splitargs_loop al vec p"
  by (subst (1 2) splitargs_loop.simps) simp

lemma splitargs_repr:
  assumes "alloc_ok al"
  shows "\<forall>x\<in>set xs. length x < 2 ^ 63 \<Longrightarrow>
    \<exists>ts. splitargs_loop al vec (intercalate '' '' (map repr xs)) = Some (Some (vec @ ts)) \<and> (\<forall>t\<in>set ts. sds_ok t) \<and>
      map text_of ts = xs"
proof (induction xs arbitrary: vec)
  case Nil
  then show ?case by (subst splitargs_loop.simps) simp
next
  case (Cons x xs)
  obtain e where e: "sdsempty al = Some e" "sds_ok e" "text_of e = []" using sdsempty_correct [OF assms] by blast
  have le: "sdslen e = 0" using length_text_of [OF e(2)] e(3) by simp
  define p where "p = (if xs = [] then [] else CHR '' '' # intercalate '' '' (map repr xs))"
  have line: "intercalate '' '' (map repr (x # xs)) = repr x @ p" by (simp add: p_def intercalate_Cons)
  have sp: "isspace CHR '' ''" by (simp add: isspace_def ccode_def)
  then have pp: "pk p 0 = NUL \<or> isspace (pk p 0)" by (simp add: p_def pk_Cons)
  obtain r where r: "token_loop al False False e (repr x @ p) = Some (Some (r, p))" "sds_ok r" "text_of r = x"
    using token_loop_repr [OF e(2) assms _ pp, of x] le e(3) Cons.prems by auto
  have dw: "dropWhile isspace (repr x @ p) = repr x @ p" using not_isspace_quote by (simp add: repr_def)
  have pk: "pk (repr x @ p) 0 \<noteq> NUL"
    using quote_ne_NUL by (simp add: pk_Cons repr_def)
  have step: "splitargs_loop al vec (repr x @ p) = splitargs_loop al (vec @ [r]) p"
    using dw pk e(1) r(1) by (subst splitargs_loop.simps) (simp add: Let_def)
  have rest: "splitargs_loop al (vec @ [r]) p = splitargs_loop al (vec @ [r]) (intercalate '' '' (map repr xs))"
    using splitargs_skip [OF sp] by (cases "xs = []") (simp_all add: p_def)
  obtain ts where "splitargs_loop al (vec @ [r]) (intercalate '' '' (map repr xs)) = Some (Some ((vec @ [r]) @ ts))"
    "\<forall>t\<in>set ts. sds_ok t" "map text_of ts = xs"
    using Cons.IH [of "vec @ [r]"] Cons.prems by auto
  then show ?case unfolding line step rest using r by (intro exI [of _ "r # ts"]) auto
qed

end
