(* ===== verification/Sds_Properties.thy ===== *)
theory Sds_Properties
  imports Sds_Split
begin

text \<open>
  The properties of the dynamic strings. The examples use an allocator that returns exactly the
  size it is asked for and a short string with the one-byte header.
\<close>

definition exact_alloc :: allocator where
  "exact_alloc = \<lparr>al_usable = \<lambda>n. n, al_junk = \<lambda>_. CHR ''?'', al_try = \<lambda>_. True\<rparr>"

definition example_sds :: sds where
  "example_sds = \<lparr>hdr_type = SDS_TYPE_5, hdr_len = 5, hdr_alloc = 5, buf = '' a b '' @ [NUL]\<rparr>"

lemma exact_alloc_ok: "alloc_ok exact_alloc"
  by (simp add: alloc_ok_def exact_alloc_def)

lemma example_sds_ok: "sds_ok example_sds"
  by (simp add: sds_ok_def example_sds_def sdsalloc_def)

lemma example_sds_text: "text_of example_sds = '' a b ''" "sdslen example_sds = 5"
  by (simp_all add: text_of_def example_sds_def sdslen_def)

section \<open>Space and appending\<close>

text \<open>
  C31. \<^verbatim>\<open>sdsMakeRoomFor\<close> never fails below the size limit, keeps the contents and the invariant (the
  length within the space, the space within the header type and the block, the terminator in
  place), and leaves room for the bytes asked for, also when the header type changes.
\<close>

theorem sdsMakeRoomFor_ok:
  assumes "sds_ok s" "alloc_ok al" "sdslen s + addlen < 2 ^ 63"
  shows "\<exists>r. sdsMakeRoomFor al s addlen = Some r \<and> sds_ok r \<and> text_of r = text_of s \<and> sdsavail r \<ge> addlen"
proof -
  obtain r where r: "sdsMakeRoomFor al s addlen = Some r" "sds_ok r" "text_of r = text_of s" "sdslen r = sdslen s"
    "sdslen s + addlen \<le> sdsalloc r"
    using sdsMakeRoomFor_correct [OF assms] by blast
  then have "sdsavail r \<ge> addlen" using alloc_avail [of r] by (simp add: sds_ok_space)
  then show ?thesis using r by blast
qed

theorem sdsMakeRoomFor_ok_witness:
  "\<exists>r. sdsMakeRoomFor exact_alloc example_sds 300 = Some r \<and> sds_ok r \<and> text_of r = '' a b '' \<and> sdsavail r \<ge> 300"
  using sdsMakeRoomFor_ok [OF example_sds_ok exact_alloc_ok, of 300] by (simp add: example_sds_text)

text \<open>
  C33. \<^verbatim>\<open>sdsRemoveFreeSpace\<close> keeps the contents and the invariant, leaves no free space and never makes
  the allocation larger.
\<close>

theorem sdsRemoveFreeSpace_ok:
  assumes "sds_ok s"
  shows "\<exists>r. sdsRemoveFreeSpace al s = Some r \<and> sds_ok r \<and> text_of r = text_of s \<and> sdsavail r = 0 \<and>
    sdsAllocSize r \<le> sdsAllocSize s"
  by (rule sdsRemoveFreeSpace_correct [OF assms])

theorem sdsRemoveFreeSpace_ok_witness:
  "\<exists>r. sdsRemoveFreeSpace exact_alloc example_sds = Some r \<and> sds_ok r \<and> text_of r = '' a b '' \<and> sdsavail r = 0 \<and>
    sdsAllocSize r \<le> sdsAllocSize example_sds"
  using sdsRemoveFreeSpace_ok [OF example_sds_ok, of exact_alloc] by (simp add: example_sds_text)

text \<open>
  C32. \<^verbatim>\<open>sdscatlen\<close> appends the bytes, whatever they are, to the contents, and \<^verbatim>\<open>sdscpylen\<close> replaces the
  contents by them.
\<close>

theorem sdscatlen_ok:
  assumes "sds_ok s" "alloc_ok al" "sdslen s + length t < 2 ^ 63"
  shows "(\<exists>r. sdscatlen al s t (length t) = Some r \<and> sds_ok r \<and> text_of r = text_of s @ t) \<and>
    (\<exists>r. sdscpylen al s t (length t) = Some r \<and> sds_ok r \<and> text_of r = t)"
  using sdscatlen_correct [OF assms, of t] sdscpylen_correct [OF assms(1,2), of "length t" t] assms(3) by simp

theorem sdscatlen_ok_witness:
  "(\<exists>r. sdscatlen exact_alloc example_sds ''cd'' (length ''cd'') = Some r \<and> sds_ok r \<and> text_of r = '' a b cd'') \<and>
   (\<exists>r. sdscpylen exact_alloc example_sds ''cd'' (length ''cd'') = Some r \<and> sds_ok r \<and> text_of r = ''cd'')"
  using sdscatlen_ok [OF example_sds_ok exact_alloc_ok, of "''cd''"] by (simp add: example_sds_text)

text \<open>
  C34. \<^verbatim>\<open>sdscatfmt\<close> appends what the format stands for: the strings, numbers in decimal and single
  characters of its conversions. When the format has no meaning, a last percent sign or
  arguments that do not fit, the run is undefined.
\<close>

theorem sdscatfmt_ok:
  assumes "sds_ok s" "alloc_ok al" "\<forall>a\<in>set ap. arg_ok a"
    "sdslen s + 2 * length fmt + (case fmt_spec fmt ap of None \<Rightarrow> 0 | Some out \<Rightarrow> length out) + 1 < 2 ^ 63"
  shows "case fmt_spec fmt ap of
      None \<Rightarrow> sdscatfmt al s fmt ap = None
    | Some out \<Rightarrow> \<exists>r. sdscatfmt al s fmt ap = Some r \<and> sds_ok r \<and> text_of r = text_of s @ out"
  using sdscatfmt_correct [OF assms(1-3)] sdscatfmt_undefined assms(4) by (auto split: option.splits)

theorem sdscatfmt_ok_witness:
  "\<exists>r. sdscatfmt exact_alloc example_sds ''%s=%i%%'' [Arg_s ''x'', Arg_i 42] = Some r \<and> sds_ok r \<and> text_of r = '' a b x=42%''"
proof -
  have "dec 42 = ''42''" by code_simp
  then have f: "fmt_spec ''%s=%i%%'' [Arg_s ''x'', Arg_i 42] = Some ''x=42%''"
    by (simp add: conv_spec.simps dec_int_def)
  show ?thesis
    using sdscatfmt_ok [OF example_sds_ok exact_alloc_ok, of "[Arg_s ''x'', Arg_i 42]" "''%s=%i%%''"]
    by (simp add: example_sds_text f del: fmt_spec.simps)
qed

text \<open>
  The number \<^verbatim>\<open>sdsfromlonglong\<close> writes is the one \<^verbatim>\<open>string2ll\<close> reads, for every 64-bit value.
\<close>

lemma sdsfromlonglong_roundtrip:
  assumes "alloc_ok al"
  shows "\<exists>s. sdsfromlonglong al v = Some s \<and> sds_ok s \<and> string2ll (text_of s) = Some v"
  using sdsfromlonglong_correct [OF assms, of v] string2ll_iff by auto

section \<open>Parts and order\<close>

text \<open>
  C37. \<^verbatim>\<open>sdstrim\<close> removes the longest prefix and suffix of characters of the set, where NUL counts as a
  member of every set.
\<close>

theorem sdstrim_ok:
  assumes "sds_ok s"
  shows "\<exists>r. sdstrim s cset = Some r \<and> sds_ok r \<and>
    text_of r = rev (dropWhile (\<lambda>c. c \<in> set cset \<or> c = NUL) (rev (dropWhile (\<lambda>c. c \<in> set cset \<or> c = NUL) (text_of s))))"
  using sdstrim_correct [OF assms, of cset] unfolding strchr_def by simp

theorem sdstrim_ok_witness: "\<exists>r. sdstrim example_sds '' '' = Some r \<and> sds_ok r \<and> text_of r = ''a b''"
  using sdstrim_ok [OF example_sds_ok, of "'' ''"] by (simp add: example_sds_text)

text \<open>
  \<^verbatim>\<open>sdsrange\<close> keeps the part between the two positions, negative ones counted from the end; a start
  before the beginning gives the empty string.
\<close>

lemma sdsrange_ok:
  assumes "sds_ok s" "sdslen s < 2 ^ 62" "- (2 ^ 62) \<le> i" "i < 2 ^ 62" "- (2 ^ 62) \<le> j" "j < 2 ^ 62"
  shows "\<exists>r. sdsrange s i j = Some r \<and> sds_ok r \<and> text_of r = range_spec (text_of s) i j"
  by (rule sdsrange_correct [OF assms])

text \<open>
  \<^verbatim>\<open>sdscmp\<close> is the lexicographic comparison of the contents as unsigned bytes: zero exactly for equal
  contents, negative exactly when the first is smaller, positive exactly when it is larger.
\<close>

lemma sdscmp_ok:
  assumes "sds_ok s1" "sds_ok s2"
  shows "(sdscmp s1 s2 = 0 \<longleftrightarrow> text_of s1 = text_of s2) \<and> (sdscmp s1 s2 < 0 \<longleftrightarrow> byte_less (text_of s1) (text_of s2)) \<and>
    (sdscmp s1 s2 > 0 \<longleftrightarrow> byte_less (text_of s2) (text_of s1))"
  using byte_less_antisym byte_less_total [of "text_of s1" "text_of s2"]
  by (auto simp: sdscmp_eq [OF assms] cmp_spec_def)

section \<open>Round trips\<close>



text \<open>
  C35. Quoting and parsing: byte strings quoted by \<^verbatim>\<open>sdscatrepr\<close> and joined with spaces are read back by
  \<^verbatim>\<open>sdssplitargs\<close>, whatever bytes they hold.
\<close>

theorem sdscatrepr_splitargs:
  assumes "alloc_ok al" "\<forall>x\<in>set xs. length x < 2 ^ 60" "length (intercalate '' '' (map repr xs)) < 2 ^ 63"
  shows "\<exists>e rs line ts. sdsempty al = Some e \<and>
    list_all2 (\<lambda>x r. sdscatrepr al e x (length x) = Some r) xs rs \<and>
    sdsjoinsds al rs '' '' 1 = Some line \<and> sdssplitargs al (text_of line) = Some (Some ts) \<and> map text_of ts = xs"
proof -
  obtain e where e: "sdsempty al = Some e" "sds_ok e" "text_of e = []" using sdsempty_correct [OF assms(1)] by blast
  have le: "sdslen e = 0" using length_text_of [OF e(2)] e(3) by simp
  have "\<exists>r. sdscatrepr al e x (length x) = Some r \<and> sds_ok r \<and> text_of r = repr x" if "x \<in> set xs" for x
    using sdscatrepr_correct [OF e(2) assms(1), of x] assms(2) that le e(3) by auto
  then obtain f where f: "\<forall>x\<in>set xs. sdscatrepr al e x (length x) = Some (f x) \<and> sds_ok (f x) \<and> text_of (f x) = repr x"
    by metis
  have m: "map text_of (map f xs) = map repr xs" using f by simp
  obtain line where line: "sdsjoinsds al (map f xs) '' '' 1 = Some line" "text_of line = intercalate '' '' (map repr xs)"
    using sdsjoinsds_correct [OF assms(1), of "map f xs" 1 "'' ''"] f assms(3) unfolding m by auto
  have lx: "\<forall>x\<in>set xs. length x < 2 ^ 63" using assms(2) by fastforce
  obtain ts where ts: "sdssplitargs al (text_of line) = Some (Some ts)" "map text_of ts = xs"
    using splitargs_repr [OF assms(1) lx, of "[]"] line(2) by (auto simp: sdssplitargs_def)
  have "list_all2 (\<lambda>x r. sdscatrepr al e x (length x) = Some r) xs (map f xs)"
    using f by (simp add: list_all2_conv_all_nth)
  then show ?thesis using e line ts by blast
qed

theorem sdscatrepr_splitargs_witness:
  "\<exists>e rs line ts. sdsempty exact_alloc = Some e \<and>
    list_all2 (\<lambda>x r. sdscatrepr exact_alloc e x (length x) = Some r) [''a b'', [NUL], ''''] rs \<and>
    sdsjoinsds exact_alloc rs '' '' 1 = Some line \<and> sdssplitargs exact_alloc (text_of line) = Some (Some ts) \<and>
    map text_of ts = [''a b'', [NUL], '''']"
proof (rule sdscatrepr_splitargs [OF exact_alloc_ok])
  show "\<forall>x\<in>set [''a b'', [NUL], '''']. length x < 2 ^ 60" by simp
  show "length (intercalate '' '' (map repr [''a b'', [NUL], ''''])) < 2 ^ 63"
    using length_repr [of "''a b''"] length_repr [of "[NUL]"] length_repr [of "''''"] by simp
qed

end
