(* ===== verification/Adlist.thy ===== *)
theory Adlist
  imports Redis_Prelude "HOL-Library.Monad_Syntax"
begin

text \<open>
  The doubly linked lists of \<^verbatim>\<open>adlist.c\<close> on an explicit memory: a map from addresses to nodes, where
  a freed node is no longer in the map, and the values passed to the free method of a list, in
  the order of the calls. Following a NULL pointer or a pointer to a freed node is \<^const>\<open>None\<close>. The
  allocator is an argument: the address of a new node, or nothing when memory is exhausted.
\<close>

type_synonym addr = nat

record 'v listNode =
  prev :: "addr option"
  nxt :: "addr option"
  val :: 'v

record 'v mem =
  nodes :: "addr \<Rightarrow> 'v listNode option"
  freed :: "'v list"

record 'v adlist =
  head :: "addr option"
  tail :: "addr option"
  dup :: "('v \<Rightarrow> 'v option) option"
  has_free :: bool
  match :: "('v \<Rightarrow> 'v \<Rightarrow> bool) option"
  len :: u64

type_synonym 'v node_alloc = "'v mem \<Rightarrow> addr option"

text \<open>Reading and writing through a pointer.\<close>

definition deref :: "'v mem \<Rightarrow> addr option \<Rightarrow> 'v listNode option" where
  "deref m p = Option.bind p (nodes m)"

definition write_node :: "addr option \<Rightarrow> ('v listNode \<Rightarrow> 'v listNode) \<Rightarrow> 'v mem \<Rightarrow> 'v mem option" where
  "write_node p f m = do {
     a \<leftarrow> p;
     n \<leftarrow> nodes m a;
     Some (m\<lparr>nodes := (nodes m)(a := Some (f n))\<rparr>)
   }"

definition new_node :: "addr \<Rightarrow> 'v listNode \<Rightarrow> 'v mem \<Rightarrow> 'v mem" where
  "new_node a n m = m\<lparr>nodes := (nodes m)(a := Some n)\<rparr>"

text \<open>\<^verbatim>\<open>zfree\<close> of a node, after the free method of the list when it is set.\<close>

definition free_node :: "'v adlist \<Rightarrow> addr \<Rightarrow> 'v mem \<Rightarrow> 'v mem option" where
  "free_node l a m = do {
     n \<leftarrow> nodes m a;
     Some (m\<lparr>nodes := (nodes m)(a := None), freed := (if has_free l then freed m @ [val n] else freed m)\<rparr>)
   }"

section \<open>Creation and release\<close>

definition listCreate :: "bool \<Rightarrow> 'v adlist option" where
  "listCreate ok =
     (if \<not> ok then None
      else Some \<lparr>head = None, tail = None, dup = None, has_free = False, match = None, len = 0\<rparr>)"

fun empty_loop :: "'v adlist \<Rightarrow> nat \<Rightarrow> addr option \<Rightarrow> 'v mem \<Rightarrow> 'v mem option" where
  "empty_loop l 0 current m = Some m"
| "empty_loop l (Suc k) current m = do {
     a \<leftarrow> current;
     n \<leftarrow> nodes m a;
     m \<leftarrow> free_node l a m;
     empty_loop l k (nxt n) m
   }"

definition listEmpty :: "'v mem \<Rightarrow> 'v adlist \<Rightarrow> ('v mem \<times> 'v adlist) option" where
  "listEmpty m l = do {
     m \<leftarrow> empty_loop l (unat (len l)) (head l) m;
     Some (m, l\<lparr>head := None, tail := None, len := 0\<rparr>)
   }"

definition listRelease :: "'v mem \<Rightarrow> 'v adlist \<Rightarrow> 'v mem option" where
  "listRelease m l = map_option fst (listEmpty m l)"

section \<open>Insertion and deletion\<close>

text \<open>The result is \<^const>\<open>None\<close> inside \<^const>\<open>Some\<close> when the allocation fails and NULL is returned.\<close>

definition listAddNodeHead :: "'v node_alloc \<Rightarrow> 'v mem \<Rightarrow> 'v adlist \<Rightarrow> 'v \<Rightarrow> ('v mem \<times> 'v adlist) option option" where
  "listAddNodeHead al m l v =
     (case al m of
        None \<Rightarrow> Some None
      | Some node \<Rightarrow>
          if len l = 0 then
            Some (Some (new_node node \<lparr>prev = None, nxt = None, val = v\<rparr> m,
                        l\<lparr>head := Some node, tail := Some node, len := len l + 1\<rparr>))
          else do {
            let m = new_node node \<lparr>prev = None, nxt = head l, val = v\<rparr> m;
            m \<leftarrow> write_node (head l) (\<lambda>n. n\<lparr>prev := Some node\<rparr>) m;
            Some (Some (m, l\<lparr>head := Some node, len := len l + 1\<rparr>))
          })"

definition listAddNodeTail :: "'v node_alloc \<Rightarrow> 'v mem \<Rightarrow> 'v adlist \<Rightarrow> 'v \<Rightarrow> ('v mem \<times> 'v adlist) option option" where
  "listAddNodeTail al m l v =
     (case al m of
        None \<Rightarrow> Some None
      | Some node \<Rightarrow>
          if len l = 0 then
            Some (Some (new_node node \<lparr>prev = None, nxt = None, val = v\<rparr> m,
                        l\<lparr>head := Some node, tail := Some node, len := len l + 1\<rparr>))
          else do {
            let m = new_node node \<lparr>prev = tail l, nxt = None, val = v\<rparr> m;
            m \<leftarrow> write_node (tail l) (\<lambda>n. n\<lparr>nxt := Some node\<rparr>) m;
            Some (Some (m, l\<lparr>tail := Some node, len := len l + 1\<rparr>))
          })"

definition listInsertNode ::
  "'v node_alloc \<Rightarrow> 'v mem \<Rightarrow> 'v adlist \<Rightarrow> addr \<Rightarrow> 'v \<Rightarrow> bool \<Rightarrow> ('v mem \<times> 'v adlist) option option" where
  "listInsertNode al m l old_node v after =
     (case al m of
        None \<Rightarrow> Some None
      | Some node \<Rightarrow> do {
          old \<leftarrow> nodes m old_node;
          let (np, nn, l) =
            (if after then (Some old_node, nxt old, if tail l = Some old_node then l\<lparr>tail := Some node\<rparr> else l)
             else (prev old, Some old_node, if head l = Some old_node then l\<lparr>head := Some node\<rparr> else l));
          let m = new_node node \<lparr>prev = np, nxt = nn, val = v\<rparr> m;
          m \<leftarrow> (if np \<noteq> None then write_node np (\<lambda>n. n\<lparr>nxt := Some node\<rparr>) m else Some m);
          m \<leftarrow> (if nn \<noteq> None then write_node nn (\<lambda>n. n\<lparr>prev := Some node\<rparr>) m else Some m);
          Some (Some (m, l\<lparr>len := len l + 1\<rparr>))
        })"

definition listDelNode :: "'v mem \<Rightarrow> 'v adlist \<Rightarrow> addr \<Rightarrow> ('v mem \<times> 'v adlist) option" where
  "listDelNode m l node = do {
     n \<leftarrow> nodes m node;
     (m, l) \<leftarrow> (if prev n \<noteq> None then map_option (\<lambda>m. (m, l)) (write_node (prev n) (\<lambda>p. p\<lparr>nxt := nxt n\<rparr>) m)
               else Some (m, l\<lparr>head := nxt n\<rparr>));
     (m, l) \<leftarrow> (if nxt n \<noteq> None then map_option (\<lambda>m. (m, l)) (write_node (nxt n) (\<lambda>p. p\<lparr>prev := prev n\<rparr>) m)
               else Some (m, l\<lparr>tail := prev n\<rparr>));
     m \<leftarrow> free_node l node m;
     Some (m, l\<lparr>len := len l - 1\<rparr>)
   }"

section \<open>Iteration\<close>

datatype direction = AL_START_HEAD | AL_START_TAIL

record listIter =
  it_next :: "addr option"
  it_dir :: direction

definition listGetIterator :: "bool \<Rightarrow> 'v adlist \<Rightarrow> direction \<Rightarrow> listIter option" where
  "listGetIterator ok l d =
     (if \<not> ok then None
      else Some \<lparr>it_next = (if d = AL_START_HEAD then head l else tail l), it_dir = d\<rparr>)"

definition listRewind :: "'v adlist \<Rightarrow> listIter" where
  "listRewind l = \<lparr>it_next = head l, it_dir = AL_START_HEAD\<rparr>"

definition listRewindTail :: "'v adlist \<Rightarrow> listIter" where
  "listRewindTail l = \<lparr>it_next = tail l, it_dir = AL_START_TAIL\<rparr>"

definition listNext :: "'v mem \<Rightarrow> listIter \<Rightarrow> (addr option \<times> listIter) option" where
  "listNext m it =
     (case it_next it of
        None \<Rightarrow> Some (None, it)
      | Some current \<Rightarrow> do {
          n \<leftarrow> nodes m current;
          Some (Some current, it\<lparr>it_next := (if it_dir it = AL_START_HEAD then nxt n else prev n)\<rparr>)
        })"

text \<open>The loops over an iterator may run for ever on a broken list; that is \<^const>\<open>None\<close> as well.\<close>

partial_function (option) dup_loop ::
  "'v node_alloc \<Rightarrow> listIter \<Rightarrow> 'v mem \<Rightarrow> 'v adlist \<Rightarrow> ('v mem \<times> 'v adlist option) option" where
  "dup_loop al it m copy = do {
     (node, it) \<leftarrow> listNext m it;
     (case node of
        None \<Rightarrow> Some (m, Some copy)
      | Some a \<Rightarrow> do {
          n \<leftarrow> nodes m a;
          (case (case dup copy of None \<Rightarrow> Some (val n) | Some f \<Rightarrow> f (val n)) of
             None \<Rightarrow> do { m \<leftarrow> listRelease m copy; Some (m, None) }
           | Some v \<Rightarrow> do {
               r \<leftarrow> listAddNodeTail al m copy v;
               (case r of
                  None \<Rightarrow> do { m \<leftarrow> listRelease m copy; Some (m, None) }
                | Some mc \<Rightarrow> dup_loop al it (fst mc) (snd mc))
             })
        })
   }"

definition listDup :: "bool \<Rightarrow> 'v node_alloc \<Rightarrow> 'v mem \<Rightarrow> 'v adlist \<Rightarrow> ('v mem \<times> 'v adlist option) option" where
  "listDup ok al m orig =
     (case listCreate ok of
        None \<Rightarrow> Some (m, None)
      | Some copy \<Rightarrow>
          dup_loop al (listRewind orig) m (copy\<lparr>dup := dup orig, has_free := has_free orig, match := match orig\<rparr>))"

partial_function (option) search_key_loop ::
  "'v mem \<Rightarrow> 'v adlist \<Rightarrow> 'v \<Rightarrow> listIter \<Rightarrow> addr option option" where
  "search_key_loop m l key it = do {
     (node, it) \<leftarrow> listNext m it;
     (case node of
        None \<Rightarrow> Some None
      | Some a \<Rightarrow> do {
          n \<leftarrow> nodes m a;
          if (case match l of Some f \<Rightarrow> f (val n) key | None \<Rightarrow> key = val n) then Some (Some a)
          else search_key_loop m l key it
        })
   }"

definition listSearchKey :: "'v mem \<Rightarrow> 'v adlist \<Rightarrow> 'v \<Rightarrow> addr option option" where
  "listSearchKey m l key = search_key_loop m l key (listRewind l)"

fun index_loop :: "('v listNode \<Rightarrow> addr option) \<Rightarrow> 'v mem \<Rightarrow> nat \<Rightarrow> addr option \<Rightarrow> addr option option" where
  "index_loop step m 0 n = Some n"
| "index_loop step m (Suc i) n =
     (case n of None \<Rightarrow> Some None | Some a \<Rightarrow> do { x \<leftarrow> nodes m a; index_loop step m i (step x) })"

definition listIndex :: "'v mem \<Rightarrow> 'v adlist \<Rightarrow> int \<Rightarrow> addr option option" where
  "listIndex m l i =
     (if i < 0 then index_loop prev m (nat (- i - 1)) (tail l) else index_loop nxt m (nat i) (head l))"

section \<open>Rotation and joining\<close>

definition listRotateTailToHead :: "'v mem \<Rightarrow> 'v adlist \<Rightarrow> ('v mem \<times> 'v adlist) option" where
  "listRotateTailToHead m l =
     (if len l \<le> 1 then Some (m, l)
      else do {
        let tl = tail l;
        n \<leftarrow> deref m tl;
        let l = l\<lparr>tail := prev n\<rparr>;
        m \<leftarrow> write_node (tail l) (\<lambda>n. n\<lparr>nxt := None\<rparr>) m;
        m \<leftarrow> write_node (head l) (\<lambda>n. n\<lparr>prev := tl\<rparr>) m;
        m \<leftarrow> write_node tl (\<lambda>n. n\<lparr>prev := None\<rparr>) m;
        m \<leftarrow> write_node tl (\<lambda>n. n\<lparr>nxt := head l\<rparr>) m;
        Some (m, l\<lparr>head := tl\<rparr>)
      })"

definition listRotateHeadToTail :: "'v mem \<Rightarrow> 'v adlist \<Rightarrow> ('v mem \<times> 'v adlist) option" where
  "listRotateHeadToTail m l =
     (if len l \<le> 1 then Some (m, l)
      else do {
        let hd = head l;
        n \<leftarrow> deref m hd;
        let l = l\<lparr>head := nxt n\<rparr>;
        m \<leftarrow> write_node (head l) (\<lambda>n. n\<lparr>prev := None\<rparr>) m;
        m \<leftarrow> write_node (tail l) (\<lambda>n. n\<lparr>nxt := hd\<rparr>) m;
        m \<leftarrow> write_node hd (\<lambda>n. n\<lparr>nxt := None\<rparr>) m;
        m \<leftarrow> write_node hd (\<lambda>n. n\<lparr>prev := tail l\<rparr>) m;
        Some (m, l\<lparr>tail := hd\<rparr>)
      })"

definition listJoin :: "'v mem \<Rightarrow> 'v adlist \<Rightarrow> 'v adlist \<Rightarrow> ('v mem \<times> 'v adlist \<times> 'v adlist) option" where
  "listJoin m l r =
     (if len r = 0 then Some (m, l, r)
      else do {
        m \<leftarrow> write_node (head r) (\<lambda>n. n\<lparr>prev := tail l\<rparr>) m;
        (m, l) \<leftarrow> (if tail l \<noteq> None then map_option (\<lambda>m. (m, l)) (write_node (tail l) (\<lambda>n. n\<lparr>nxt := head r\<rparr>) m)
                  else Some (m, l\<lparr>head := head r\<rparr>));
        Some (m, l\<lparr>tail := tail r, len := len l + len r\<rparr>, r\<lparr>head := None, tail := None, len := 0\<rparr>)
      })"

end
