(* ===== verification/Adlist_Correct.thy ===== *)
theory Adlist_Correct
  imports Adlist
begin

text \<open>
  The linked lists represent sequences. The invariant ties a list to the sequence of the addresses
  of its nodes: the links in both directions, the ends and the length agree with it. Every
  operation keeps the invariant and acts on the values as the sequence operation of its name;
  nodes of other lists are left alone.
\<close>

section \<open>Segments\<close>

definition fst_of :: "addr list \<Rightarrow> addr option \<Rightarrow> addr option" where
  "fst_of ps q = (case ps of [] \<Rightarrow> q | p # _ \<Rightarrow> Some p)"

definition lst_of :: "addr option \<Rightarrow> addr list \<Rightarrow> addr option" where
  "lst_of p ps = (if ps = [] then p else Some (last ps))"

lemma fst_of_simps [simp]: "fst_of [] q = q" "fst_of (a # ps) q = Some a" "fst_of (xs @ ys) q = fst_of xs (fst_of ys q)"
  by (auto simp: fst_of_def split: list.split)

lemma lst_of_simps [simp]: "lst_of p [] = p" "lst_of p (a # ps) = lst_of (Some a) ps" "lst_of p (xs @ ys) = lst_of (lst_of p xs) ys"
  by (auto simp: lst_of_def)

text \<open>A chain of nodes whose first node points back to \<open>p\<close> and whose last one points on to \<open>q\<close>.\<close>

fun dlseg :: "(addr \<Rightarrow> 'v listNode option) \<Rightarrow> addr option \<Rightarrow> addr list \<Rightarrow> addr option \<Rightarrow> bool" where
  "dlseg h p [] q = True"
| "dlseg h p (a # as) q =
     ((\<exists>v. h a = Some \<lparr>prev = p, nxt = fst_of as q, val = v\<rparr>) \<and> dlseg h (Some a) as q)"

lemma dlseg_append [simp]: "dlseg h p (xs @ ys) q \<longleftrightarrow> dlseg h p xs (fst_of ys q) \<and> dlseg h (lst_of p xs) ys q"
  by (induction xs arbitrary: p) auto

lemma dlseg_frame: "(\<forall>a\<in>set xs. h' a = h a) \<Longrightarrow> dlseg h' p xs q = dlseg h p xs q"
  by (induction xs arbitrary: p) auto

lemma dlseg_upd [simp]: "a \<notin> set xs \<Longrightarrow> dlseg (h(a := n)) p xs q = dlseg h p xs q"
  by (rule dlseg_frame) auto

lemma dlseg_mapped: "dlseg h p xs q \<Longrightarrow> a \<in> set xs \<Longrightarrow> \<exists>n. h a = Some n"
  by (induction xs arbitrary: p) auto

definition vals :: "(addr \<Rightarrow> 'v listNode option) \<Rightarrow> addr list \<Rightarrow> 'v list" where
  "vals h ps = map (\<lambda>a. val (the (h a))) ps"

lemma vals_simps [simp]: "vals h [] = []" "vals h (a # ps) = val (the (h a)) # vals h ps" "vals h (xs @ ys) = vals h xs @ vals h ys"
  by (simp_all add: vals_def)

lemma length_vals [simp]: "length (vals h ps) = length ps"
  by (simp add: vals_def)

lemma vals_frame: "(\<forall>a\<in>set ps. h' a = h a) \<Longrightarrow> vals h' ps = vals h ps"
  by (simp add: vals_def)

lemma vals_upd [simp]: "a \<notin> set ps \<Longrightarrow> vals (h(a := n)) ps = vals h ps"
  by (rule vals_frame) auto

definition dll :: "'v mem \<Rightarrow> 'v adlist \<Rightarrow> addr list \<Rightarrow> bool" where
  "dll m l ps \<longleftrightarrow>
     distinct ps \<and> dlseg (nodes m) None ps None \<and> head l = fst_of ps None \<and> tail l = lst_of None ps \<and>
     length ps < 2 ^ 64 \<and> len l = of_nat (length ps)"

definition fresh_alloc :: "'v node_alloc \<Rightarrow> bool" where
  "fresh_alloc al \<longleftrightarrow> (\<forall>m a. al m = Some a \<longrightarrow> nodes m a = None)"

text \<open>Two memories agree outside a set of addresses.\<close>

definition same_except :: "addr set \<Rightarrow> 'v mem \<Rightarrow> 'v mem \<Rightarrow> bool" where
  "same_except A m m' \<longleftrightarrow> (\<forall>a. a \<notin> A \<longrightarrow> nodes m' a = nodes m a)"

lemma same_except_finite: "same_except A m m' \<Longrightarrow> finite (dom (nodes m)) \<Longrightarrow> finite A \<Longrightarrow> finite (dom (nodes m'))"
proof -
  assume h: "same_except A m m'" "finite (dom (nodes m))" "finite A"
  have "dom (nodes m') \<subseteq> dom (nodes m) \<union> A"
  proof
    fix a
    assume "a \<in> dom (nodes m')"
    then show "a \<in> dom (nodes m) \<union> A" using h(1) by (cases "a \<in> A") (auto simp: same_except_def dom_def)
  qed
  then show ?thesis using h(2,3) finite_subset by blast
qed

lemma len_zero: "dll m l ps \<Longrightarrow> len l = 0 \<longleftrightarrow> ps = []"
  by (auto simp: dll_def word_of_nat_eq_0_iff dvd_def)

lemma unat_len: "dll m l ps \<Longrightarrow> unat (len l) = length ps"
  by (simp add: dll_def unat_of_nat)

lemma dll_frame:
  assumes "dll m l ps" "same_except A m m'" "set ps \<inter> A = {}"
  shows "dll m' l ps \<and> vals (nodes m') ps = vals (nodes m) ps"
proof -
  have "\<forall>a\<in>set ps. nodes m' a = nodes m a" using assms(2,3) by (auto simp: same_except_def)
  then show ?thesis using assms(1) dlseg_frame [of ps "nodes m'" "nodes m"] vals_frame [of ps "nodes m'" "nodes m"] by (auto simp: dll_def)
qed

lemma write_node_Some:
  "nodes m a = Some n \<Longrightarrow> write_node (Some a) f m = Some (m\<lparr>nodes := (nodes m)(a := Some (f n))\<rparr>)"
  by (simp add: write_node_def)

lemma of_nat_Suc_u64: "(of_nat n :: u64) + 1 = of_nat (Suc n)"
  by (simp add: add.commute)

section \<open>Insertion\<close>

text \<open>What an insertion keeps: the methods of the list, the freed values and the other nodes.\<close>

definition same_list :: "'v adlist \<Rightarrow> 'v adlist \<Rightarrow> bool" where
  "same_list l l' \<longleftrightarrow> dup l' = dup l \<and> has_free l' = has_free l \<and> match l' = match l"

lemma fresh_notin: "fresh_alloc al \<Longrightarrow> al m = Some a \<Longrightarrow> dll m l ps \<Longrightarrow> a \<notin> set ps"
  using dlseg_mapped by (fastforce simp: fresh_alloc_def dll_def)

lemma listAddNodeHead_correct:
  assumes "dll m l ps" "fresh_alloc al" "al m = Some a" "length ps < 2 ^ 64 - 1"
  shows "\<exists>m' l'. listAddNodeHead al m l v = Some (Some (m', l')) \<and> dll m' l' (a # ps) \<and> vals (nodes m') (a # ps) = v # vals (nodes m) ps \<and>
    same_list l l' \<and> freed m' = freed m \<and> same_except (insert a (set ps)) m m'"
proof -
  have na: "a \<notin> set ps" using fresh_notin [OF assms(2,3,1)] .
  show ?thesis
  proof (cases ps)
    case Nil
    then have "len l = 0" using len_zero [OF assms(1)] by simp
    then show ?thesis using Nil assms(3)
      by (simp add: listAddNodeHead_def new_node_def dll_def same_list_def same_except_def)
  next
    case (Cons b bs)
    then have l0: "len l \<noteq> 0" using len_zero [OF assms(1)] by simp
    obtain w where b: "nodes m b = Some \<lparr>prev = None, nxt = fst_of bs None, val = w\<rparr>" "head l = Some b" "a \<noteq> b"
      using assms(1) Cons na by (auto simp: dll_def)
    show ?thesis
      using assms(1,3,4) Cons b l0 na
      by (simp add: listAddNodeHead_def new_node_def dll_def same_list_def same_except_def write_node_def fun_upd_twist
          of_nat_Suc_u64 add.commute)
  qed
qed

lemma listAddNodeTail_correct:
  assumes "dll m l ps" "fresh_alloc al" "al m = Some a" "length ps < 2 ^ 64 - 1"
  shows "\<exists>m' l'. listAddNodeTail al m l v = Some (Some (m', l')) \<and> dll m' l' (ps @ [a]) \<and> vals (nodes m') (ps @ [a]) = vals (nodes m) ps @ [v] \<and>
    same_list l l' \<and> freed m' = freed m \<and> same_except (insert a (set ps)) m m'"
proof -
  have na: "a \<notin> set ps" using fresh_notin [OF assms(2,3,1)] .
  show ?thesis
  proof (cases ps rule: rev_cases)
    case Nil
    then have "len l = 0" using len_zero [OF assms(1)] by simp
    then show ?thesis using Nil assms(3)
      by (simp add: listAddNodeTail_def new_node_def dll_def same_list_def same_except_def)
  next
    case (snoc bs b)
    then have l0: "len l \<noteq> 0" using len_zero [OF assms(1)] by simp
    obtain w where b: "nodes m b = Some \<lparr>prev = lst_of None bs, nxt = None, val = w\<rparr>" "tail l = Some b" "a \<noteq> b" "b \<notin> set bs"
      using assms(1) snoc na by (auto simp: dll_def)
    show ?thesis
      using assms(1,3,4) snoc b l0 na
      by (simp add: listAddNodeTail_def new_node_def dll_def same_list_def same_except_def write_node_def fun_upd_twist
          of_nat_Suc_u64 add.commute)
  qed
qed

lemma listInsertNode_after:
  assumes "dll m l (xs @ b # ys)" "fresh_alloc al" "al m = Some a" "length (xs @ b # ys) < 2 ^ 64 - 1"
  shows "\<exists>m' l'. listInsertNode al m l b v True = Some (Some (m', l')) \<and> dll m' l' (xs @ b # a # ys) \<and>
    vals (nodes m') (xs @ b # a # ys) = vals (nodes m) (xs @ [b]) @ v # vals (nodes m) ys \<and>
    same_list l l' \<and> freed m' = freed m \<and> same_except (insert a (set (xs @ b # ys))) m m'"
proof -
  have na: "a \<notin> set (xs @ b # ys)" using fresh_notin [OF assms(2,3,1)] .
  obtain w where b: "nodes m b = Some \<lparr>prev = lst_of None xs, nxt = fst_of ys None, val = w\<rparr>" "a \<noteq> b" "b \<notin> set xs" "b \<notin> set ys"
    using assms(1) na by (auto simp: dll_def)
  show ?thesis
  proof (cases ys)
    case Nil
    then show ?thesis using assms(1,3,4) b na
      by (simp add: listInsertNode_def new_node_def dll_def same_list_def same_except_def write_node_def fun_upd_twist
          of_nat_Suc_u64 add.commute Let_def)
  next
    case (Cons c cs)
    then obtain u where c: "nodes m c = Some \<lparr>prev = Some b, nxt = fst_of cs None, val = u\<rparr>" "c \<noteq> b" "c \<noteq> a" "c \<notin> set xs" "c \<notin> set cs"
      using assms(1) na by (auto simp: dll_def)
    have "tail l \<noteq> Some b" using assms(1) Cons b(4) by (auto simp: dll_def lst_of_def split: if_splits)
    then show ?thesis using assms(1,3,4) b c na Cons
      by (simp add: listInsertNode_def new_node_def dll_def same_list_def same_except_def write_node_def fun_upd_twist
          of_nat_Suc_u64 add.commute Let_def)
  qed
qed

lemma listInsertNode_before:
  assumes "dll m l (xs @ b # ys)" "fresh_alloc al" "al m = Some a" "length (xs @ b # ys) < 2 ^ 64 - 1"
  shows "\<exists>m' l'. listInsertNode al m l b v False = Some (Some (m', l')) \<and> dll m' l' (xs @ a # b # ys) \<and>
    vals (nodes m') (xs @ a # b # ys) = vals (nodes m) xs @ v # vals (nodes m) (b # ys) \<and>
    same_list l l' \<and> freed m' = freed m \<and> same_except (insert a (set (xs @ b # ys))) m m'"
proof -
  have na: "a \<notin> set (xs @ b # ys)" using fresh_notin [OF assms(2,3,1)] .
  obtain w where b: "nodes m b = Some \<lparr>prev = lst_of None xs, nxt = fst_of ys None, val = w\<rparr>" "a \<noteq> b" "b \<notin> set xs" "b \<notin> set ys"
    using assms(1) na by (auto simp: dll_def)
  show ?thesis
  proof (cases xs rule: rev_cases)
    case Nil
    then show ?thesis using assms(1,3,4) b na
      by (simp add: listInsertNode_def new_node_def dll_def same_list_def same_except_def write_node_def fun_upd_twist
          of_nat_Suc_u64 add.commute Let_def)
  next
    case (snoc cs c)
    then obtain u where c: "nodes m c = Some \<lparr>prev = lst_of None cs, nxt = Some b, val = u\<rparr>" "c \<noteq> b" "c \<noteq> a" "c \<notin> set ys" "c \<notin> set cs"
      using assms(1) na by (auto simp: dll_def)
    have "head l \<noteq> Some b" using assms(1) snoc b(3) by (cases cs) (auto simp: dll_def)
    then show ?thesis using assms(1,3,4) b c na snoc
      by (simp add: listInsertNode_def new_node_def dll_def same_list_def same_except_def write_node_def fun_upd_twist
          of_nat_Suc_u64 add.commute Let_def)
  qed
qed

section \<open>Deletion\<close>

lemma listDelNode_correct:
  assumes "dll m l (xs @ b # ys)"
  shows "\<exists>m' l'. listDelNode m l b = Some (m', l') \<and> dll m' l' (xs @ ys) \<and> vals (nodes m') (xs @ ys) = vals (nodes m) xs @ vals (nodes m) ys \<and>
    same_list l l' \<and> freed m' = freed m @ (if has_free l then vals (nodes m) [b] else []) \<and> nodes m' b = None \<and>
    same_except (set (xs @ b # ys)) m m'"
proof -
  obtain w where b: "nodes m b = Some \<lparr>prev = lst_of None xs, nxt = fst_of ys None, val = w\<rparr>" "b \<notin> set xs" "b \<notin> set ys"
    using assms(1) by (auto simp: dll_def)
  consider (only) "xs = []" "ys = []" | (first) c cs where "xs = []" "ys = c # cs" | (last) c cs where "xs = cs @ [c]" "ys = []"
    | (mid) c cs d ds where "xs = cs @ [c]" "ys = d # ds"
    by (metis list.exhaust rev_exhaust)
  then show ?thesis
  proof cases
    case only
    then show ?thesis using assms b
      by (auto simp: listDelNode_def dll_def same_list_def same_except_def free_node_def)
  next
    case first
    then obtain u where "nodes m c = Some \<lparr>prev = Some b, nxt = fst_of cs None, val = u\<rparr>" "c \<noteq> b" "c \<notin> set cs"
      using assms by (auto simp: dll_def)
    then show ?thesis using assms b first
      by (auto simp: listDelNode_def dll_def same_list_def same_except_def free_node_def write_node_def)
  next
    case last
    then obtain u where "nodes m c = Some \<lparr>prev = lst_of None cs, nxt = Some b, val = u\<rparr>" "c \<noteq> b" "c \<notin> set cs"
      using assms by (auto simp: dll_def)
    then show ?thesis using assms b last
      by (auto simp: listDelNode_def dll_def same_list_def same_except_def free_node_def write_node_def)
  next
    case mid
    then obtain u t where "nodes m c = Some \<lparr>prev = lst_of None cs, nxt = Some b, val = u\<rparr>" "c \<noteq> b" "c \<notin> set cs"
      "nodes m d = Some \<lparr>prev = Some b, nxt = fst_of ds None, val = t\<rparr>" "d \<noteq> b" "d \<notin> set ds" "d \<noteq> c" "c \<notin> set ds" "d \<notin> set cs"
      using assms by (auto simp: dll_def)
    then show ?thesis using assms b mid
      by (auto simp: listDelNode_def dll_def same_list_def same_except_def free_node_def write_node_def fun_upd_twist)
  qed
qed

lemma empty_loop_correct:
  "dlseg (nodes m) p ps None \<Longrightarrow> distinct ps \<Longrightarrow>
   \<exists>m'. empty_loop l (length ps) (fst_of ps None) m = Some m' \<and>
     nodes m' = (\<lambda>a. if a \<in> set ps then None else nodes m a) \<and>
     freed m' = freed m @ (if has_free l then vals (nodes m) ps else [])"
proof (induction ps arbitrary: p m)
  case (Cons a ps)
  obtain v where v: "nodes m a = Some \<lparr>prev = p, nxt = fst_of ps None, val = v\<rparr>" "a \<notin> set ps"
    using Cons.prems by auto
  let ?m = "m\<lparr>nodes := (nodes m)(a := None), freed := (if has_free l then freed m @ [v] else freed m)\<rparr>"
  have dl: "dlseg (nodes ?m) (Some a) ps None" using Cons.prems v by simp
  obtain m' where "empty_loop l (length ps) (fst_of ps None) ?m = Some m'"
    "nodes m' = (\<lambda>x. if x \<in> set ps then None else nodes ?m x)"
    "freed m' = freed ?m @ (if has_free l then vals (nodes ?m) ps else [])"
    using Cons.IH [OF dl] Cons.prems(2) by auto
  then show ?case using v by (auto simp: free_node_def fun_eq_iff)
qed (auto simp: fun_eq_iff)

lemma listEmpty_correct:
  assumes "dll m l ps"
  shows "\<exists>m' l'. listEmpty m l = Some (m', l') \<and> dll m' l' [] \<and> same_list l l' \<and>
    nodes m' = (\<lambda>a. if a \<in> set ps then None else nodes m a) \<and>
    freed m' = freed m @ (if has_free l then vals (nodes m) ps else [])"
  using empty_loop_correct [of m None ps l] assms unat_len [OF assms]
  by (auto simp: listEmpty_def dll_def same_list_def)

section \<open>Iteration and search\<close>

lemma listNext_head:
  assumes "dlseg (nodes m) p ps q"
  shows "listNext m \<lparr>it_next = fst_of ps None, it_dir = AL_START_HEAD\<rparr> =
    Some (fst_of ps None, \<lparr>it_next = (if ps = [] then None else fst_of (tl ps) q), it_dir = AL_START_HEAD\<rparr>)"
  using assms by (cases ps) (auto simp: listNext_def)

lemma index_loop_None [simp]: "index_loop step m i None = Some None"
  by (cases i) auto

lemma index_loop_nxt:
  "dlseg (nodes m) p ps None \<Longrightarrow>
   index_loop nxt m i (fst_of ps None) = Some (if i < length ps then Some (ps ! i) else None)"
proof (induction i arbitrary: p ps)
  case 0
  then show ?case by (cases ps) auto
next
  case (Suc i)
  then show ?case by (cases ps) auto
qed

lemma index_loop_prev:
  "dlseg (nodes m) None ps q \<Longrightarrow>
   index_loop prev m i (lst_of None ps) = Some (if i < length ps then Some (ps ! (length ps - Suc i)) else None)"
proof (induction i arbitrary: q ps)
  case 0
  then show ?case by (cases ps rule: rev_cases) (auto simp: nth_append)
next
  case (Suc i)
  then show ?case by (cases ps rule: rev_cases) (auto simp: nth_append)
qed

lemma listIndex_correct:
  assumes "dll m l ps"
  shows "listIndex m l i = Some (let j = (if i < 0 then int (length ps) + i else i) in
     if 0 \<le> j \<and> j < int (length ps) then Some (ps ! nat j) else None)"
proof (cases "i < 0")
  case True
  have "listIndex m l i = Some (if nat (- i - 1) < length ps then Some (ps ! (length ps - Suc (nat (- i - 1)))) else None)"
    using index_loop_prev [of m ps None "nat (- i - 1)"] assms True by (simp add: listIndex_def dll_def)
  moreover have "nat (- i - 1) < length ps \<longleftrightarrow> 0 \<le> int (length ps) + i \<and> int (length ps) + i < int (length ps)"
    using True by auto
  moreover have "length ps - Suc (nat (- i - 1)) = nat (int (length ps) + i)" using True by auto
  ultimately show ?thesis using True by (simp add: Let_def)
next
  case False
  then show ?thesis using index_loop_nxt [of m None ps "nat i"] assms by (simp add: listIndex_def dll_def Let_def nat_less_iff)
qed

definition matches :: "'v adlist \<Rightarrow> 'v \<Rightarrow> 'v \<Rightarrow> bool" where
  "matches l key v = (case match l of Some f \<Rightarrow> f v key | None \<Rightarrow> key = v)"

lemma search_key_loop_correct:
  "dlseg (nodes m) p ps None \<Longrightarrow>
   search_key_loop m l key \<lparr>it_next = fst_of ps None, it_dir = AL_START_HEAD\<rparr> =
     Some (find (\<lambda>a. matches l key (val (the (nodes m a)))) ps)"
proof (induction ps arbitrary: p)
  case Nil
  then show ?case by (subst search_key_loop.simps) (simp add: listNext_def)
next
  case (Cons a ps)
  then obtain v where v: "nodes m a = Some \<lparr>prev = p, nxt = fst_of ps None, val = v\<rparr>" by auto
  show ?case
    using Cons.IH [of "Some a"] Cons.prems v
    by (subst search_key_loop.simps) (simp add: listNext_def matches_def split: option.split)
qed

lemma listSearchKey_correct:
  "dll m l ps \<Longrightarrow> listSearchKey m l key = Some (find (\<lambda>a. matches l key (val (the (nodes m a)))) ps)"
  using search_key_loop_correct [of m None ps l key] by (simp add: listSearchKey_def listRewind_def dll_def)

section \<open>Rotation and joining\<close>

lemma len_le_1: "dll m l ps \<Longrightarrow> len l \<le> 1 \<longleftrightarrow> length ps \<le> 1"
  using unat_len [of m l ps] by (simp add: word_le_nat_alt)

lemma listRotateTailToHead_correct:
  assumes "dll m l (ps @ [b])"
  shows "\<exists>m' l'. listRotateTailToHead m l = Some (m', l') \<and> dll m' l' (b # ps) \<and>
    vals (nodes m') (b # ps) = vals (nodes m) [b] @ vals (nodes m) ps \<and>
    same_list l l' \<and> freed m' = freed m \<and> same_except (set (ps @ [b])) m m'"
proof -
  consider (one) "ps = []" | (two) a where "ps = [a]" | (more) a as c where "ps = a # as @ [c]"
    by (metis append_butlast_last_id list.exhaust)
  then show ?thesis
  proof cases
    case one
    then show ?thesis using assms len_le_1 [OF assms] by (auto simp: listRotateTailToHead_def same_list_def same_except_def)
  next
    case two
    then show ?thesis using assms len_le_1 [OF assms]
      by (auto simp: listRotateTailToHead_def same_list_def same_except_def dll_def deref_def write_node_def Let_def)
  next
    case more
    then have "\<not> len l \<le> 1" using len_le_1 [OF assms] by simp
    moreover obtain u v w where "nodes m b = Some \<lparr>prev = Some c, nxt = None, val = u\<rparr>"
      "nodes m a = Some \<lparr>prev = None, nxt = fst_of as (Some c), val = v\<rparr>"
      "nodes m c = Some \<lparr>prev = lst_of (Some a) as, nxt = Some b, val = w\<rparr>"
      "a \<noteq> b" "a \<noteq> c" "b \<noteq> c" "a \<notin> set as" "b \<notin> set as" "c \<notin> set as"
      using assms more by (auto simp: dll_def)
    ultimately show ?thesis using assms more
      by (auto simp: listRotateTailToHead_def same_list_def same_except_def dll_def deref_def write_node_def Let_def)
  qed
qed

lemma listRotateHeadToTail_correct:
  assumes "dll m l (b # ps)"
  shows "\<exists>m' l'. listRotateHeadToTail m l = Some (m', l') \<and> dll m' l' (ps @ [b]) \<and>
    vals (nodes m') (ps @ [b]) = vals (nodes m) ps @ vals (nodes m) [b] \<and>
    same_list l l' \<and> freed m' = freed m \<and> same_except (set (b # ps)) m m'"
proof -
  consider (one) "ps = []" | (two) a where "ps = [a]" | (more) a as c where "ps = a # as @ [c]"
    by (metis append_butlast_last_id list.exhaust)
  then show ?thesis
  proof cases
    case one
    then show ?thesis using assms len_le_1 [OF assms] by (auto simp: listRotateHeadToTail_def same_list_def same_except_def)
  next
    case two
    then show ?thesis using assms len_le_1 [OF assms]
      by (auto simp: listRotateHeadToTail_def same_list_def same_except_def dll_def deref_def write_node_def Let_def)
  next
    case more
    then have "\<not> len l \<le> 1" using len_le_1 [OF assms] by simp
    moreover obtain u v w where "nodes m b = Some \<lparr>prev = None, nxt = Some a, val = u\<rparr>"
      "nodes m a = Some \<lparr>prev = Some b, nxt = fst_of as (Some c), val = v\<rparr>"
      "nodes m c = Some \<lparr>prev = lst_of (Some a) as, nxt = None, val = w\<rparr>"
      "a \<noteq> b" "a \<noteq> c" "b \<noteq> c" "a \<notin> set as" "b \<notin> set as" "c \<notin> set as"
      using assms more by (auto simp: dll_def)
    ultimately show ?thesis using assms more
      by (auto simp: listRotateHeadToTail_def same_list_def same_except_def dll_def deref_def write_node_def Let_def)
  qed
qed

lemma listJoin_correct:
  assumes "dll m l ps" "dll m r qs" "set ps \<inter> set qs = {}" "length ps + length qs < 2 ^ 64"
  shows "\<exists>m' l' r'. listJoin m l r = Some (m', l', r') \<and> dll m' l' (ps @ qs) \<and> dll m' r' [] \<and>
    vals (nodes m') (ps @ qs) = vals (nodes m) ps @ vals (nodes m) qs \<and>
    same_list l l' \<and> same_list r r' \<and> freed m' = freed m \<and> same_except (set ps \<union> set qs) m m'"
proof (cases qs)
  case Nil
  then show ?thesis using assms len_zero [OF assms(2)] by (auto simp: listJoin_def same_list_def same_except_def)
next
  case (Cons b bs)
  then have l0: "len r \<noteq> 0" using len_zero [OF assms(2)] by simp
  obtain w where b: "nodes m b = Some \<lparr>prev = None, nxt = fst_of bs None, val = w\<rparr>" "b \<notin> set bs" "head r = Some b"
    using assms(2) Cons by (auto simp: dll_def)
  show ?thesis
  proof (cases ps rule: rev_cases)
    case Nil
    then show ?thesis using assms Cons b l0
      by (auto simp: listJoin_def same_list_def same_except_def dll_def write_node_def)
  next
    case (snoc as a)
    then obtain u where "nodes m a = Some \<lparr>prev = lst_of None as, nxt = None, val = u\<rparr>" "a \<notin> set as" "tail l = Some a"
      "a \<noteq> b" "a \<notin> set bs" "b \<notin> set as"
      using assms Cons by (auto simp: dll_def)
    then show ?thesis using assms Cons snoc b l0
      by (auto simp: listJoin_def same_list_def same_except_def dll_def write_node_def)
  qed
qed

section \<open>Duplication\<close>

definition dup_of :: "'v adlist \<Rightarrow> 'v \<Rightarrow> 'v option" where
  "dup_of l v = (case dup l of None \<Rightarrow> Some v | Some f \<Rightarrow> f v)"

text \<open>
  The outcome of copying the values of \<open>ps\<close> behind the nodes \<open>cs\<close> of the copy: the nodes that are not
  part of the copy are as before, and the copy is complete or a duplication or an allocation
  has failed.
\<close>

definition dup_result ::
  "'v node_alloc \<Rightarrow> 'v mem \<Rightarrow> 'v adlist \<Rightarrow> addr list \<Rightarrow> addr list \<Rightarrow> 'v mem \<Rightarrow> 'v adlist option \<Rightarrow> bool" where
  "dup_result al m copy cs ps m' r \<longleftrightarrow>
     (\<forall>a. nodes m a \<noteq> None \<and> a \<notin> set cs \<longrightarrow> nodes m' a = nodes m a) \<and>
     (case r of
        None \<Rightarrow> (\<exists>v\<in>set (vals (nodes m) ps). dup_of copy v = None) \<or> (\<exists>m. finite (dom (nodes m)) \<and> al m = None)
      | Some c \<Rightarrow> \<exists>cs'. dll m' c cs' \<and> same_list copy c \<and>
          map Some (vals (nodes m') cs') = map Some (vals (nodes m) cs) @ map (dup_of copy) (vals (nodes m) ps))"

lemma release_copy:
  assumes "dll m copy cs"
  shows "\<exists>m'. listRelease m copy = Some m' \<and> (\<forall>a. nodes m a \<noteq> None \<and> a \<notin> set cs \<longrightarrow> nodes m' a = nodes m a)"
  using listEmpty_correct [OF assms] by (auto simp: listRelease_def)

lemma dup_loop_correct:
  "dlseg (nodes m) p ps None \<Longrightarrow> distinct ps \<Longrightarrow> dll m copy cs \<Longrightarrow> set ps \<inter> set cs = {} \<Longrightarrow> fresh_alloc al \<Longrightarrow>
   finite (dom (nodes m)) \<Longrightarrow> length cs + length ps < 2 ^ 64 - 1 \<Longrightarrow>
   \<exists>m' r. dup_loop al \<lparr>it_next = fst_of ps None, it_dir = AL_START_HEAD\<rparr> m copy = Some (m', r) \<and>
     dup_result al m copy cs ps m' r"
proof (induction ps arbitrary: p m copy cs)
  case Nil
  have "dup_loop al \<lparr>it_next = fst_of [] None, it_dir = AL_START_HEAD\<rparr> m copy = Some (m, Some copy)"
    by (subst dup_loop.simps) (simp add: listNext_def)
  moreover have "dup_result al m copy cs [] m (Some copy)"
    using Nil(3) by (auto simp: dup_result_def same_list_def intro!: exI [of _ cs])
  ultimately show ?case by blast
next
  case (Cons a ps)
  obtain v where v: "nodes m a = Some \<lparr>prev = p, nxt = fst_of ps None, val = v\<rparr>" "a \<notin> set ps"
    using Cons.prems(1,2) by auto
  have nx: "listNext m \<lparr>it_next = fst_of (a # ps) None, it_dir = AL_START_HEAD\<rparr> =
      Some (Some a, \<lparr>it_next = fst_of ps None, it_dir = AL_START_HEAD\<rparr>)"
    using v by (simp add: listNext_def)
  obtain mr where mr: "listRelease m copy = Some mr" "\<forall>a. nodes m a \<noteq> None \<and> a \<notin> set cs \<longrightarrow> nodes mr a = nodes m a"
    using release_copy [OF Cons.prems(3)] by blast
  consider (nodup) "dup_of copy v = None" | (noal) w where "dup_of copy v = Some w" "al m = None"
    | (ok) w b where "dup_of copy v = Some w" "al m = Some b"
    by (cases "dup_of copy v"; cases "al m") auto
  then show ?case
  proof cases
    case nodup
    then have "dup_loop al \<lparr>it_next = fst_of (a # ps) None, it_dir = AL_START_HEAD\<rparr> m copy = Some (mr, None)"
      using nx v mr(1) by (subst dup_loop.simps) (simp add: dup_of_def split: option.splits)
    then show ?thesis using nodup v mr(2) by (auto simp: dup_result_def)
  next
    case noal
    then have "dup_loop al \<lparr>it_next = fst_of (a # ps) None, it_dir = AL_START_HEAD\<rparr> m copy = Some (mr, None)"
      using nx v mr(1) by (subst dup_loop.simps) (simp add: dup_of_def listAddNodeTail_def split: option.splits)
    then show ?thesis using noal mr(2) Cons.prems(6) by (auto simp: dup_result_def)
  next
    case ok
    obtain m1 c1 where m1: "listAddNodeTail al m copy w = Some (Some (m1, c1))" "dll m1 c1 (cs @ [b])"
      "vals (nodes m1) (cs @ [b]) = vals (nodes m) cs @ [w]" "same_list copy c1" "same_except (insert b (set cs)) m m1"
      using listAddNodeTail_correct [OF Cons.prems(3,5) ok(2), of w] Cons.prems(7) by auto
    have fin: "finite (dom (nodes m1))" by (rule same_except_finite [OF m1(5) Cons.prems(6)]) simp
    have nb: "nodes m b = None" using Cons.prems(5) ok(2) by (simp add: fresh_alloc_def)
    have bps: "b \<notin> set (a # ps)" using nb dlseg_mapped [OF Cons.prems(1)] by fastforce
    have fr: "\<forall>x\<in>set ps. nodes m1 x = nodes m x" using m1(5) bps Cons.prems(4) by (auto simp: same_except_def)
    have "dlseg (nodes m1) (Some a) ps None" using Cons.prems(1) dlseg_frame [OF fr] by simp
    then obtain m2 r where m2: "dup_loop al \<lparr>it_next = fst_of ps None, it_dir = AL_START_HEAD\<rparr> m1 c1 = Some (m2, r)"
      "dup_result al m1 c1 (cs @ [b]) ps m2 r"
      using Cons.IH [of m1 "Some a" c1 "cs @ [b]"] Cons.prems m1(2) bps fin by auto
    have "dup_loop al \<lparr>it_next = fst_of (a # ps) None, it_dir = AL_START_HEAD\<rparr> m copy = Some (m2, r)"
      using nx v ok m1(1) m2(1) by (subst dup_loop.simps) (simp add: dup_of_def split: option.splits)
    moreover have "dup_result al m copy cs (a # ps) m2 r"
    proof -
      have d: "dup_of c1 = dup_of copy" using m1(4) by (simp add: same_list_def dup_of_def fun_eq_iff)
      have vp: "vals (nodes m1) ps = vals (nodes m) ps" by (rule vals_frame [OF fr])
      have un: "nodes m2 x = nodes m x" if "nodes m x \<noteq> None" "x \<notin> set cs" for x
      proof -
        have xb: "x \<noteq> b" using that(1) nb by auto
        have "nodes m1 x = nodes m x" using m1(5) xb that(2) by (simp add: same_except_def)
        with xb show ?thesis using m2(2) that unfolding dup_result_def by simp
      qed
      have vs: "map Some (vals (nodes m1) (cs @ [b])) @ map (dup_of copy) (vals (nodes m1) ps) =
          map Some (vals (nodes m) cs) @ map (dup_of copy) (vals (nodes m) (a # ps))"
        unfolding m1(3) vp using v ok by simp
      have sl: "same_list c1 c = same_list copy c" for c using m1(4) by (simp add: same_list_def)
      show ?thesis
        using m2(2) un unfolding dup_result_def d sl vs unfolding vp by (cases r) auto
    qed
    ultimately show ?thesis by blast
  qed
qed

lemma listDup_correct:
  assumes "dll m l ps" "fresh_alloc al" "finite (dom (nodes m))" "length ps < 2 ^ 64 - 1"
  shows "\<exists>m' r. listDup True al m l = Some (m', r) \<and> dll m' l ps \<and> vals (nodes m') ps = vals (nodes m) ps \<and>
    (case r of
       None \<Rightarrow> (\<exists>v\<in>set (vals (nodes m) ps). dup_of l v = None) \<or> (\<exists>m. finite (dom (nodes m)) \<and> al m = None)
     | Some c \<Rightarrow> \<exists>cs. dll m' c cs \<and> same_list l c \<and> map Some (vals (nodes m') cs) = map (dup_of l) (vals (nodes m) ps))"
proof -
  define copy where "copy = \<lparr>head = None, tail = None, dup = dup l, has_free = has_free l, match = match l, len = 0\<rparr>"
  have c: "dll m copy []" "dup_of copy = dup_of l" "\<And>x. same_list copy x = same_list l x"
    by (simp_all add: copy_def dll_def dup_of_def fun_eq_iff same_list_def)
  obtain m' r where r: "dup_loop al \<lparr>it_next = fst_of ps None, it_dir = AL_START_HEAD\<rparr> m copy = Some (m', r)"
    "dup_result al m copy [] ps m' r"
    using dup_loop_correct [of m None ps copy "[]" al] assms c(1) by (auto simp: dll_def)
  have "listDup True al m l = Some (m', r)"
    using r(1) assms(1) by (simp add: listDup_def listCreate_def listRewind_def copy_def dll_def)
  moreover have fr: "\<forall>a\<in>set ps. nodes m' a = nodes m a"
    using r(2) assms(1) dlseg_mapped [of "nodes m" None ps None] by (auto simp: dup_result_def dll_def)
  moreover have "dll m' l ps" "vals (nodes m') ps = vals (nodes m) ps"
    using assms(1) dlseg_frame [OF fr] vals_frame [OF fr] by (simp_all add: dll_def)
  ultimately show ?thesis using r(2) unfolding dup_result_def c by (cases r) auto
qed

end
