(* ===== verification/Adlist_Properties.thy ===== *)
theory Adlist_Properties
  imports Adlist_Correct Interfaces
begin

text \<open>
  The linked lists implement sequences. The contract of the sequences is interpreted on the
  operations of \<^verbatim>\<open>adlist.c\<close>, with an allocator that returns fresh addresses as long as memory is finite.
\<close>

definition alloc_total :: "'v node_alloc \<Rightarrow> bool" where
  "alloc_total al \<longleftrightarrow> (\<forall>m. finite (dom (nodes m)) \<longrightarrow> al m \<noteq> None)"

definition adl_inv :: "'v node_alloc \<Rightarrow> 'v mem \<times> 'v adlist \<Rightarrow> 'v list \<Rightarrow> bool" where
  "adl_inv al s xs \<longleftrightarrow>
     fresh_alloc al \<and> alloc_total al \<and> finite (dom (nodes (fst s))) \<and>
     (\<exists>ps. dll (fst s) (snd s) ps \<and> vals (nodes (fst s)) ps = xs)"

definition adl_head :: "'v node_alloc \<Rightarrow> 'v mem \<times> 'v adlist \<Rightarrow> 'v \<Rightarrow> ('v mem \<times> 'v adlist) option" where
  "adl_head al s v = Option.bind (listAddNodeHead al (fst s) (snd s) v) (\<lambda>r. r)"

definition adl_tail :: "'v node_alloc \<Rightarrow> 'v mem \<times> 'v adlist \<Rightarrow> 'v \<Rightarrow> ('v mem \<times> 'v adlist) option" where
  "adl_tail al s v = Option.bind (listAddNodeTail al (fst s) (snd s) v) (\<lambda>r. r)"

definition adl_del :: "'v mem \<times> 'v adlist \<Rightarrow> nat \<Rightarrow> ('v mem \<times> 'v adlist) option" where
  "adl_del s i = do {
     n \<leftarrow> listIndex (fst s) (snd s) (int i);
     (case n of None \<Rightarrow> Some s | Some a \<Rightarrow> listDelNode (fst s) (snd s) a)
   }"

definition adl_get :: "'v mem \<times> 'v adlist \<Rightarrow> int \<Rightarrow> 'v option option" where
  "adl_get s i = do {
     n \<leftarrow> listIndex (fst s) (snd s) i;
     (case n of None \<Rightarrow> Some None | Some a \<Rightarrow> map_option (\<lambda>n. Some (val n)) (nodes (fst s) a))
   }"

definition adl_rotate_tail :: "'v mem \<times> 'v adlist \<Rightarrow> ('v mem \<times> 'v adlist) option" where
  "adl_rotate_tail s = listRotateTailToHead (fst s) (snd s)"

definition adl_rotate_head :: "'v mem \<times> 'v adlist \<Rightarrow> ('v mem \<times> 'v adlist) option" where
  "adl_rotate_head s = listRotateHeadToTail (fst s) (snd s)"

lemma adl_invI:
  assumes "adl_inv al s xs" "dll m l ps" "vals (nodes m) ps = ys" "same_except A (fst s) m" "finite A"
  shows "adl_inv al (m, l) ys"
  using assms same_except_finite [OF assms(4)] by (auto simp: adl_inv_def)

lemma adl_head_law:
  assumes "adl_inv al s xs" "length xs < 2 ^ 64 - 1"
  shows "\<exists>s'. adl_head al s v = Some s' \<and> adl_inv al s' (v # xs)"
proof -
  obtain m l ps a where s: "s = (m, l)" "dll m l ps" "vals (nodes m) ps = xs" "al m = Some a" "fresh_alloc al"
    using assms(1) by (cases s) (auto simp: adl_inv_def alloc_total_def)
  have "length ps < 2 ^ 64 - 1" using assms(2) s(3) by auto
  from listAddNodeHead_correct [OF s(2,5,4) this, of v] s(3) obtain m' l' where
    "listAddNodeHead al m l v = Some (Some (m', l'))" "dll m' l' (a # ps)" "vals (nodes m') (a # ps) = v # xs"
    "same_except (insert a (set ps)) m m'"
    by auto
  then show ?thesis using adl_invI [OF assms(1)] s(1) by (auto simp: adl_head_def)
qed

lemma adl_tail_law:
  assumes "adl_inv al s xs" "length xs < 2 ^ 64 - 1"
  shows "\<exists>s'. adl_tail al s v = Some s' \<and> adl_inv al s' (xs @ [v])"
proof -
  obtain m l ps a where s: "s = (m, l)" "dll m l ps" "vals (nodes m) ps = xs" "al m = Some a" "fresh_alloc al"
    using assms(1) by (cases s) (auto simp: adl_inv_def alloc_total_def)
  have "length ps < 2 ^ 64 - 1" using assms(2) s(3) by auto
  from listAddNodeTail_correct [OF s(2,5,4) this, of v] s(3) obtain m' l' where
    "listAddNodeTail al m l v = Some (Some (m', l'))" "dll m' l' (ps @ [a])" "vals (nodes m') (ps @ [a]) = xs @ [v]"
    "same_except (insert a (set ps)) m m'"
    by auto
  then show ?thesis using adl_invI [OF assms(1)] s(1) by (auto simp: adl_tail_def)
qed

lemma adl_del_law:
  assumes "adl_inv al s xs"
  shows "\<exists>s'. adl_del s i = Some s' \<and> adl_inv al s' (seq_del i xs)"
proof -
  obtain m l ps where s: "s = (m, l)" "dll m l ps" "vals (nodes m) ps = xs"
    using assms by (cases s) (auto simp: adl_inv_def)
  show ?thesis
  proof (cases "i < length ps")
    case False
    then have "length xs \<le> i" using s(3) by auto
    then show ?thesis using False assms s listIndex_correct [OF s(2), of "int i"] by (simp add: adl_del_def)
  next
    case True
    have sp: "ps = take i ps @ ps ! i # drop (Suc i) ps" using True by (simp add: id_take_nth_drop)
    have v: "vals (nodes m) (take i ps) = take i xs" "vals (nodes m) (drop (Suc i) ps) = drop (Suc i) xs"
      using s(3) by (auto simp: vals_def take_map drop_map)
    obtain m' l' where "listDelNode m l (ps ! i) = Some (m', l')" "dll m' l' (take i ps @ drop (Suc i) ps)"
      "vals (nodes m') (take i ps @ drop (Suc i) ps) = take i xs @ drop (Suc i) xs" "same_except (set ps) m m'"
      using listDelNode_correct [of m l "take i ps" "ps ! i" "drop (Suc i) ps"] s(2) sp [symmetric] v by auto
    then show ?thesis
      using True s(1) listIndex_correct [OF s(2), of "int i"] adl_invI [OF assms] by (simp add: adl_del_def)
  qed
qed

lemma adl_get_law:
  assumes "adl_inv al s xs"
  shows "adl_get s i = Some (seq_at xs i)"
proof -
  obtain m l ps where s: "s = (m, l)" "dll m l ps" "vals (nodes m) ps = xs"
    using assms by (cases s) (auto simp: adl_inv_def)
  have "\<exists>n. nodes m (ps ! j) = Some n \<and> val n = xs ! j" if "j < length ps" for j
    using s(2,3) that dlseg_mapped [of "nodes m" None ps None "ps ! j"] by (force simp: dll_def vals_def)
  then show ?thesis
    using s listIndex_correct [OF s(2), of i] by (fastforce simp: adl_get_def Let_def nat_less_iff split: if_splits)
qed

lemma adl_rotate_tail_law:
  assumes "adl_inv al s xs"
  shows "\<exists>s'. adl_rotate_tail s = Some s' \<and> adl_inv al s' (seq_rotate_tail xs)"
proof -
  obtain m l ps where s: "s = (m, l)" "dll m l ps" "vals (nodes m) ps = xs"
    using assms by (cases s) (auto simp: adl_inv_def)
  show ?thesis
  proof (cases ps rule: rev_cases)
    case Nil
    then show ?thesis using s assms len_le_1 [OF s(2)] by (auto simp: adl_rotate_tail_def listRotateTailToHead_def)
  next
    case (snoc qs b)
    then show ?thesis
      using s listRotateTailToHead_correct [of m l qs b] adl_invI [OF assms] by (fastforce simp: adl_rotate_tail_def)
  qed
qed

lemma adl_rotate_head_law:
  assumes "adl_inv al s xs"
  shows "\<exists>s'. adl_rotate_head s = Some s' \<and> adl_inv al s' (rotate1 xs)"
proof -
  obtain m l ps where s: "s = (m, l)" "dll m l ps" "vals (nodes m) ps = xs"
    using assms by (cases s) (auto simp: adl_inv_def)
  show ?thesis
  proof (cases ps)
    case Nil
    then show ?thesis using s assms len_le_1 [OF s(2)] by (auto simp: adl_rotate_head_def listRotateHeadToTail_def)
  next
    case (Cons b qs)
    then show ?thesis
      using s listRotateHeadToTail_correct [of m l b qs] adl_invI [OF assms] by (fastforce simp: adl_rotate_head_def)
  qed
qed

interpretation adlist_store: seq_store "adl_inv al" "2 ^ 64 - 1" "adl_head al" "adl_tail al" adl_del adl_get
  adl_rotate_tail adl_rotate_head
  for al :: "'v node_alloc"
  by unfold_locales
    (use adl_head_law adl_tail_law adl_del_law adl_get_law adl_rotate_tail_law adl_rotate_head_law in
      \<open>auto simp del: seq_at.simps seq_del.simps seq_rotate_tail.simps\<close>)

section \<open>An allocator and an empty memory\<close>

definition next_free :: "'v node_alloc" where
  "next_free m = (if finite (dom (nodes m)) then Some (Suc (Max (insert 0 (dom (nodes m))))) else None)"

definition no_nodes :: "'v mem" where
  "no_nodes = \<lparr>nodes = (\<lambda>_. None), freed = []\<rparr>"

definition nil_list :: "'v adlist" where
  "nil_list = \<lparr>head = None, tail = None, dup = None, has_free = True, match = None, len = 0\<rparr>"

lemma next_free_ok: "fresh_alloc next_free" "alloc_total next_free"
proof -
  have "nodes m (Suc (Max (insert 0 (dom (nodes m))))) = None" if "finite (dom (nodes m))" for m :: "'v mem"
  proof (rule ccontr)
    assume "nodes m (Suc (Max (insert 0 (dom (nodes m))))) \<noteq> None"
    then have "Suc (Max (insert 0 (dom (nodes m)))) \<in> insert 0 (dom (nodes m))" by auto
    then have "Suc (Max (insert 0 (dom (nodes m)))) \<le> Max (insert 0 (dom (nodes m)))"
      using that by (intro Max_ge) auto
    then show False by simp
  qed
  then show "fresh_alloc (next_free :: 'v node_alloc)" by (auto simp: fresh_alloc_def next_free_def split: if_splits)
  show "alloc_total (next_free :: 'v node_alloc)" by (simp add: alloc_total_def next_free_def)
qed

lemma nil_list_ok: "dll no_nodes nil_list []" "finite (dom (nodes no_nodes))"
  by (simp_all add: dll_def nil_list_def no_nodes_def)

lemma nil_adl_inv: "adl_inv next_free (no_nodes, nil_list) []"
  using next_free_ok nil_list_ok by (auto simp: adl_inv_def)

text \<open>A memory with a list of two nodes and a list of one node.\<close>

definition two_lists :: "int mem" where
  "two_lists = \<lparr>nodes = (\<lambda>_. None)(1 := Some \<lparr>prev = None, nxt = Some 2, val = 10\<rparr>,
     2 := Some \<lparr>prev = Some 1, nxt = None, val = 20\<rparr>, 3 := Some \<lparr>prev = None, nxt = None, val = 30\<rparr>), freed = []\<rparr>"

definition list_a :: "int adlist" where
  "list_a = \<lparr>head = Some 1, tail = Some 2, dup = Some (\<lambda>v. if v = 0 then None else Some (v + 1)), has_free = True, match = None, len = 2\<rparr>"

definition list_b :: "int adlist" where
  "list_b = \<lparr>head = Some 3, tail = Some 3, dup = None, has_free = True, match = None, len = 1\<rparr>"

lemma two_lists_ok: "dll two_lists list_a [1, 2]" "dll two_lists list_b [3]" "finite (dom (nodes two_lists))"
  by (simp_all add: dll_def two_lists_def list_a_def list_b_def)

lemma two_lists_vals: "vals (nodes two_lists) [1, 2] = [10, 20]" "vals (nodes two_lists) [3] = [30]" "freed two_lists = []"
  by (simp_all add: two_lists_def)

section \<open>Properties\<close>

text \<open>
  C28. Any sequence of insertions at either end, deletions and lookups by position and rotations on
  a linked list never follows a bad pointer and answers as the same operations on a mathematical
  sequence, as long as fewer than \<open>2 ^ 64\<close> nodes are inserted.
\<close>

theorem adlist_refines_seq:
  assumes "adl_inv al s xs" "length xs + length ops \<le> 2 ^ 64 - 1"
  shows "\<exists>s'. run_seq (adl_head al) (adl_tail al) adl_del adl_get adl_rotate_tail adl_rotate_head s ops =
      Some (fst (spec_seq xs ops), s') \<and> adl_inv al s' (snd (spec_seq xs ops))"
  by (rule adlist_store.run_refines [OF assms])

theorem adlist_refines_seq_witness:
  "\<exists>s'. run_seq (adl_head next_free) (adl_tail next_free) adl_del adl_get adl_rotate_tail adl_rotate_head
      (no_nodes, nil_list) [QPush_head (1 :: int), QPush_tail 2, QPush_tail 3, QRotate_tail, QDel 1, QGet (-1)] =
      Some ([Some 2], s') \<and> adl_inv next_free s' [3, 2]"
  using adlist_refines_seq [OF nil_adl_inv, of "[QPush_head (1 :: int), QPush_tail 2, QPush_tail 3, QRotate_tail, QDel 1, QGet (-1)]"]
  by simp

text \<open>The loop the comment of \<^verbatim>\<open>listNext\<close> describes, which deletes the current node when \<open>P\<close> holds.\<close>

partial_function (option) delete_loop ::
  "('v \<Rightarrow> bool) \<Rightarrow> listIter \<Rightarrow> 'v mem \<Rightarrow> 'v adlist \<Rightarrow> ('v mem \<times> 'v adlist) option" where
  "delete_loop P it m l = do {
     (node, it) \<leftarrow> listNext m it;
     (case node of
        None \<Rightarrow> Some (m, l)
      | Some a \<Rightarrow> do {
          n \<leftarrow> nodes m a;
          if P (val n) then do { s \<leftarrow> listDelNode m l a; delete_loop P it (fst s) (snd s) }
          else delete_loop P it m l
        })
   }"

lemma delete_loop_correct:
  "dll m l (xs @ ys) \<Longrightarrow> has_free l \<Longrightarrow>
   \<exists>m' l' ps. delete_loop P \<lparr>it_next = fst_of ys None, it_dir = AL_START_HEAD\<rparr> m l = Some (m', l') \<and>
     dll m' l' ps \<and> vals (nodes m') ps = vals (nodes m) xs @ filter (\<lambda>v. \<not> P v) (vals (nodes m) ys) \<and>
     freed m' = freed m @ filter P (vals (nodes m) ys)"
proof (induction ys arbitrary: m l xs)
  case Nil
  have "delete_loop P \<lparr>it_next = fst_of [] None, it_dir = AL_START_HEAD\<rparr> m l = Some (m, l)"
    by (subst delete_loop.simps) (simp add: listNext_def)
  then show ?case using Nil by auto
next
  case (Cons a ys)
  obtain v where v: "nodes m a = Some \<lparr>prev = lst_of None xs, nxt = fst_of ys None, val = v\<rparr>"
    using Cons.prems(1) by (auto simp: dll_def)
  have nx: "listNext m \<lparr>it_next = fst_of (a # ys) None, it_dir = AL_START_HEAD\<rparr> =
      Some (Some a, \<lparr>it_next = fst_of ys None, it_dir = AL_START_HEAD\<rparr>)"
    using v by (simp add: listNext_def)
  show ?case
  proof (cases "P v")
    case True
    obtain m1 l1 where d: "listDelNode m l a = Some (m1, l1)" "dll m1 l1 (xs @ ys)"
      "vals (nodes m1) (xs @ ys) = vals (nodes m) xs @ vals (nodes m) ys" "same_list l l1" "freed m1 = freed m @ [v]"
      using listDelNode_correct [OF Cons.prems(1)] v Cons.prems(2) by auto
    have vs: "vals (nodes m1) xs = vals (nodes m) xs" "vals (nodes m1) ys = vals (nodes m) ys"
      using d(3) by (simp_all add: append_eq_append_conv)
    have "has_free l1" using d(4) Cons.prems(2) by (simp add: same_list_def)
    from Cons.IH [OF d(2) this] obtain m' l' ps where
      "delete_loop P \<lparr>it_next = fst_of ys None, it_dir = AL_START_HEAD\<rparr> m1 l1 = Some (m', l')" "dll m' l' ps"
      "vals (nodes m') ps = vals (nodes m) xs @ filter (\<lambda>v. \<not> P v) (vals (nodes m) ys)"
      "freed m' = freed m @ [v] @ filter P (vals (nodes m) ys)"
      unfolding vs d(5) by auto
    moreover have "delete_loop P \<lparr>it_next = fst_of (a # ys) None, it_dir = AL_START_HEAD\<rparr> m l =
        delete_loop P \<lparr>it_next = fst_of ys None, it_dir = AL_START_HEAD\<rparr> m1 l1"
      using nx v d(1) True by (subst delete_loop.simps) simp
    ultimately show ?thesis using v True by auto
  next
    case False
    have "delete_loop P \<lparr>it_next = fst_of (a # ys) None, it_dir = AL_START_HEAD\<rparr> m l =
        delete_loop P \<lparr>it_next = fst_of ys None, it_dir = AL_START_HEAD\<rparr> m l"
      using nx v False by (subst delete_loop.simps) simp
    then show ?thesis using Cons.IH [of m l "xs @ [a]"] Cons.prems v False by simp
  qed
qed

text \<open>
  C29. Deleting the current node while iterating is safe: a loop over \<^verbatim>\<open>listNext\<close> that deletes the nodes
  satisfying a condition ends, leaves the other values in order and calls the free method once
  for each deleted value.
\<close>

theorem delete_while_iterating:
  assumes "dll m l ps" "has_free l"
  shows "\<exists>m' l' qs. delete_loop P (listRewind l) m l = Some (m', l') \<and> dll m' l' qs \<and>
    vals (nodes m') qs = filter (\<lambda>v. \<not> P v) (vals (nodes m) ps) \<and> freed m' = freed m @ filter P (vals (nodes m) ps)"
  using delete_loop_correct [of m l "[]" ps P] assms by (simp add: listRewind_def dll_def)

theorem delete_while_iterating_witness:
  "\<exists>m' l' qs. delete_loop (\<lambda>v. v < 15) (listRewind list_a) two_lists list_a = Some (m', l') \<and> dll m' l' qs \<and>
    vals (nodes m') qs = [20] \<and> freed m' = [10]"
proof -
  have "has_free list_a" by (simp add: list_a_def)
  from delete_while_iterating [OF two_lists_ok(1) this, of "\<lambda>v. v < 15"] show ?thesis
    unfolding two_lists_vals by simp
qed



text \<open>
  \<^verbatim>\<open>listJoin\<close> appends the nodes of the second list to the first and leaves the second one empty.
\<close>

lemma listJoin_ok:
  assumes "dll m l ps" "dll m r qs" "set ps \<inter> set qs = {}" "length ps + length qs < 2 ^ 64"
  shows "\<exists>m' l' r'. listJoin m l r = Some (m', l', r') \<and> dll m' l' (ps @ qs) \<and> dll m' r' [] \<and>
    vals (nodes m') (ps @ qs) = vals (nodes m) ps @ vals (nodes m) qs"
  using listJoin_correct [OF assms] by blast

end
