(* ===== verification/Zskiplist.thy ===== *)
theory Zskiplist
  imports Sds_Str_Correct
begin

text \<open>
  The skip lists of \<^verbatim>\<open>t_zset.c\<close> on an explicit memory of nodes. Scores are the doubles that are not NaN,
  an arbitrary linear order here; elements are dynamic strings compared with \<^verbatim>\<open>sdscmp\<close>. Spans are kept
  to 64 bits and the ranks of an insertion to 32 bits, as in the code. Following a bad pointer, a
  level a node does not have and a failed assertion are \<^const>\<open>None\<close>. The random numbers and the
  allocator are arguments.
\<close>

type_synonym zaddr = nat

record zlevel =
  forward :: "zaddr option"
  span :: nat

record 's znode =
  z_ele :: "sds option"
  z_score :: 's
  backward :: "zaddr option"
  levels :: "zlevel list"

type_synonym 's zheap = "zaddr \<Rightarrow> 's znode option"

record zskiplist =
  header :: zaddr
  ztail :: "zaddr option"
  zlength :: nat
  level :: nat

text \<open>The allocator: an address for a new node and the contents of fresh memory.\<close>

record 's zalloc =
  za_addr :: "'s zheap \<Rightarrow> zaddr"
  za_level :: "nat \<Rightarrow> zlevel"
  za_back :: "zaddr option"

abbreviation (input) ZSKIPLIST_MAXLEVEL :: nat where "ZSKIPLIST_MAXLEVEL \<equiv> 32"

text \<open>Reading and writing one level of a node.\<close>

definition get_level :: "'s zheap \<Rightarrow> zaddr \<Rightarrow> nat \<Rightarrow> zlevel option" where
  "get_level h a i = do {
     n \<leftarrow> h a;
     if i < length (levels n) then Some (levels n ! i) else None
   }"

definition put_level :: "zaddr \<Rightarrow> nat \<Rightarrow> (zlevel \<Rightarrow> zlevel) \<Rightarrow> 's zheap \<Rightarrow> 's zheap option" where
  "put_level a i f h = do {
     n \<leftarrow> h a;
     if i < length (levels n) then Some (h(a := Some (n\<lparr>levels := (levels n)[i := f (levels n ! i)]\<rparr>))) else None
   }"

definition put_back :: "zaddr \<Rightarrow> zaddr option \<Rightarrow> 's zheap \<Rightarrow> 's zheap option" where
  "put_back a b h = do { n \<leftarrow> h a; Some (h(a := Some (n\<lparr>backward := b\<rparr>))) }"

section \<open>Creation\<close>

definition zslCreateNode :: "'s zalloc \<Rightarrow> 's zheap \<Rightarrow> nat \<Rightarrow> 's \<Rightarrow> sds option \<Rightarrow> zaddr \<times> 's zheap" where
  "zslCreateNode al h lv score ele =
     (let zn = za_addr al h
      in (zn, h(zn := Some \<lparr>z_ele = ele, z_score = score, backward = za_back al, levels = map (za_level al) [0..<lv]\<rparr>)))"

fun init_loop :: "zaddr \<Rightarrow> nat list \<Rightarrow> 's zheap \<Rightarrow> 's zheap option" where
  "init_loop a [] h = Some h"
| "init_loop a (j # js) h = do {
     h \<leftarrow> put_level a j (\<lambda>l. l\<lparr>forward := None\<rparr>) h;
     h \<leftarrow> put_level a j (\<lambda>l. l\<lparr>span := 0\<rparr>) h;
     init_loop a js h
   }"

definition zslCreate :: "('s :: zero) zalloc \<Rightarrow> 's zheap \<Rightarrow> ('s zheap \<times> zskiplist) option" where
  "zslCreate al h = do {
     let (hdr, h) = zslCreateNode al h ZSKIPLIST_MAXLEVEL 0 None;
     h \<leftarrow> init_loop hdr [0..<ZSKIPLIST_MAXLEVEL] h;
     h \<leftarrow> put_back hdr None h;
     Some (h, \<lparr>header = hdr, ztail = None, zlength = 0, level = 1\<rparr>)
   }"

text \<open>
  The level of a new node from the values \<^verbatim>\<open>random\<close> returns; \<open>0.25 * 0xFFFF\<close> lies between 16383 and
  16384. Running out of values is \<^const>\<open>None\<close>.
\<close>

fun random_level_loop :: "nat \<Rightarrow> nat list \<Rightarrow> nat option" where
  "random_level_loop lv [] = None"
| "random_level_loop lv (r # rs) = (if r mod 2 ^ 16 \<le> 16383 then random_level_loop (lv + 1) rs else Some lv)"

definition zslRandomLevel :: "nat list \<Rightarrow> nat option" where
  "zslRandomLevel rs = map_option (\<lambda>lv. if lv < ZSKIPLIST_MAXLEVEL then lv else ZSKIPLIST_MAXLEVEL) (random_level_loop 1 rs)"

section \<open>Walking\<close>

text \<open>
  The inner loop of every search: at level \<open>i\<close>, go forward while \<open>cond\<close> holds of the next node and of
  the distance from the header, counted with \<open>w\<close> bits.
\<close>

partial_function (option) zsl_walk ::
  "'s zheap \<Rightarrow> (nat \<Rightarrow> 's znode \<Rightarrow> bool option) \<Rightarrow> nat \<Rightarrow> nat \<Rightarrow> nat \<Rightarrow> zaddr \<Rightarrow> (zaddr \<times> nat) option" where
  "zsl_walk h cond w i rank x = do {
     l \<leftarrow> get_level h x i;
     (case forward l of
        None \<Rightarrow> Some (x, rank)
      | Some f \<Rightarrow> do {
          n \<leftarrow> h f;
          b \<leftarrow> cond (addw w rank (span l)) n;
          if b then zsl_walk h cond w i (addw w rank (span l)) f else Some (x, rank)
        })
   }"

text \<open>
  The outer loop, from level \<open>i - 1\<close> down: the nodes and ranks at which each level stops, that of
  level 0 first (the arrays \<^verbatim>\<open>update\<close> and \<^verbatim>\<open>rank\<close>).
\<close>

fun zsl_descend ::
  "'s zheap \<Rightarrow> (nat \<Rightarrow> 's znode \<Rightarrow> bool option) \<Rightarrow> nat \<Rightarrow> nat \<Rightarrow> nat \<Rightarrow> zaddr \<Rightarrow> (zaddr \<times> nat) list option" where
  "zsl_descend h cond w 0 rank x = Some []"
| "zsl_descend h cond w (Suc i) rank x = do {
     (x, rank) \<leftarrow> zsl_walk h cond w i rank x;
     us \<leftarrow> zsl_descend h cond w i rank x;
     Some (us @ [(x, rank)])
   }"

text \<open>The node is before the position of a score and an element.\<close>

definition zsl_before :: "('s :: linorder) \<Rightarrow> sds \<Rightarrow> nat \<Rightarrow> 's znode \<Rightarrow> bool option" where
  "zsl_before score ele r n =
     (if z_score n < score then Some True
      else if z_score n = score then map_option (\<lambda>e. sdscmp e ele < 0) (z_ele n)
      else Some False)"

definition zsl_upto :: "('s :: linorder) \<Rightarrow> sds \<Rightarrow> nat \<Rightarrow> 's znode \<Rightarrow> bool option" where
  "zsl_upto score ele r n =
     (if z_score n < score then Some True
      else if z_score n = score then map_option (\<lambda>e. sdscmp e ele \<le> 0) (z_ele n)
      else Some False)"

section \<open>Insertion\<close>

fun raise_loop :: "zaddr \<Rightarrow> nat \<Rightarrow> nat list \<Rightarrow> 's zheap \<Rightarrow> 's zheap option" where
  "raise_loop hdr len [] h = Some h"
| "raise_loop hdr len (i # js) h = do {
     h \<leftarrow> put_level hdr i (\<lambda>l. l\<lparr>span := len\<rparr>) h;
     raise_loop hdr len js h
   }"

text \<open>The loop that links the new node \<open>x\<close> behind \<open>update[i]\<close> at each of its levels.\<close>

fun link_loop :: "zaddr \<Rightarrow> nat \<Rightarrow> nat \<Rightarrow> (zaddr \<times> nat) list \<Rightarrow> 's zheap \<Rightarrow> 's zheap option" where
  "link_loop x rank0 i [] h = Some h"
| "link_loop x rank0 i ((u, r) # us) h = do {
     ul \<leftarrow> get_level h u i;
     h \<leftarrow> put_level x i (\<lambda>l. l\<lparr>forward := forward ul\<rparr>) h;
     h \<leftarrow> put_level u i (\<lambda>l. l\<lparr>forward := Some x\<rparr>) h;
     ul \<leftarrow> get_level h u i;
     h \<leftarrow> put_level x i (\<lambda>l. l\<lparr>span := subw 64 (span ul) (subw 32 rank0 r)\<rparr>) h;
     h \<leftarrow> put_level u i (\<lambda>l. l\<lparr>span := addw 32 (subw 32 rank0 r) 1\<rparr>) h;
     link_loop x rank0 (i + 1) us h
   }"

fun untouched_loop :: "nat \<Rightarrow> (zaddr \<times> nat) list \<Rightarrow> 's zheap \<Rightarrow> 's zheap option" where
  "untouched_loop i [] h = Some h"
| "untouched_loop i ((u, r) # us) h = do {
     h \<leftarrow> put_level u i (\<lambda>l. l\<lparr>span := addw 64 (span l) 1\<rparr>) h;
     untouched_loop (i + 1) us h
   }"

text \<open>A score that is NaN is given as \<^const>\<open>None\<close>.\<close>

definition zslInsert ::
  "('s :: linorder) zalloc \<Rightarrow> nat list \<Rightarrow> 's zheap \<Rightarrow> zskiplist \<Rightarrow> 's option \<Rightarrow> sds \<Rightarrow> ('s zheap \<times> zskiplist \<times> zaddr) option" where
  "zslInsert al rs h z score ele = do {
     score \<leftarrow> score;
     us \<leftarrow> zsl_descend h (zsl_before score ele) 32 (level z) 0 (header z);
     lv \<leftarrow> zslRandomLevel rs;
     (h, us, z) \<leftarrow> (if lv > level z then do {
                     h \<leftarrow> raise_loop (header z) (zlength z) [level z..<lv] h;
                     Some (h, us @ replicate (lv - level z) (header z, 0), z\<lparr>level := lv\<rparr>) }
                   else Some (h, us, z));
     let (x, h) = zslCreateNode al h lv score (Some ele);
     let (u0, rank0) = us ! 0;
     h \<leftarrow> link_loop x rank0 0 (take lv us) h;
     h \<leftarrow> untouched_loop lv (drop lv us) h;
     h \<leftarrow> put_back x (if u0 = header z then None else Some u0) h;
     xl \<leftarrow> get_level h x 0;
     (h, z) \<leftarrow> (case forward xl of
                  Some f \<Rightarrow> map_option (\<lambda>h. (h, z)) (put_back f (Some x) h)
                | None \<Rightarrow> Some (h, z\<lparr>ztail := Some x\<rparr>));
     Some (h, z\<lparr>zlength := addw 64 (zlength z) 1\<rparr>, x)
   }"

section \<open>Deletion\<close>

fun unlink_loop :: "zaddr \<Rightarrow> nat \<Rightarrow> zaddr list \<Rightarrow> 's zheap \<Rightarrow> 's zheap option" where
  "unlink_loop x i [] h = Some h"
| "unlink_loop x i (u # us) h = do {
     ul \<leftarrow> get_level h u i;
     h \<leftarrow> (if forward ul = Some x then do {
             xl \<leftarrow> get_level h x i;
             h \<leftarrow> put_level u i (\<lambda>l. l\<lparr>span := addw 64 (span l) (subw 64 (span xl) 1)\<rparr>) h;
             put_level u i (\<lambda>l. l\<lparr>forward := forward xl\<rparr>) h }
           else put_level u i (\<lambda>l. l\<lparr>span := subw 64 (span l) 1\<rparr>) h);
     unlink_loop x (i + 1) us h
   }"

fun lower_loop :: "'s zheap \<Rightarrow> zaddr \<Rightarrow> nat \<Rightarrow> nat option" where
  "lower_loop h hdr 0 = Some 0"
| "lower_loop h hdr (Suc lv) =
     (if Suc lv > 1 then do {
        l \<leftarrow> get_level h hdr lv;
        if forward l = None then lower_loop h hdr lv else Some (Suc lv) }
      else Some (Suc lv))"

definition zslDeleteNode :: "'s zheap \<Rightarrow> zskiplist \<Rightarrow> zaddr \<Rightarrow> zaddr list \<Rightarrow> ('s zheap \<times> zskiplist) option" where
  "zslDeleteNode h z x us = do {
     h \<leftarrow> unlink_loop x 0 (take (level z) us) h;
     xn \<leftarrow> h x;
     xl \<leftarrow> get_level h x 0;
     (h, z) \<leftarrow> (case forward xl of
                  Some f \<Rightarrow> map_option (\<lambda>h. (h, z)) (put_back f (backward xn) h)
                | None \<Rightarrow> Some (h, z\<lparr>ztail := backward xn\<rparr>));
     lv \<leftarrow> lower_loop h (header z) (level z);
     Some (h, z\<lparr>level := lv, zlength := subw 64 (zlength z) 1\<rparr>)
   }"

definition zslFreeNode :: "zaddr \<Rightarrow> 's zheap \<Rightarrow> 's zheap" where
  "zslFreeNode a h = h(a := None)"

partial_function (option) zsl_free_loop :: "'s zheap \<Rightarrow> zaddr option \<Rightarrow> 's zheap option" where
  "zsl_free_loop h node =
     (case node of
        None \<Rightarrow> Some h
      | Some a \<Rightarrow> do { l \<leftarrow> get_level h a 0; zsl_free_loop (zslFreeNode a h) (forward l) })"

definition zslFree :: "'s zheap \<Rightarrow> zskiplist \<Rightarrow> 's zheap option" where
  "zslFree h z = do {
     l \<leftarrow> get_level h (header z) 0;
     zsl_free_loop (h(header z := None)) (forward l)
   }"

text \<open>With \<open>keep\<close> the node is only unlinked and returned, as with a \<^verbatim>\<open>node\<close> argument that is not NULL.\<close>

definition zslDelete ::
  "('s :: linorder) zheap \<Rightarrow> zskiplist \<Rightarrow> 's \<Rightarrow> sds \<Rightarrow> bool \<Rightarrow> (bool \<times> zaddr option \<times> 's zheap \<times> zskiplist) option" where
  "zslDelete h z score ele keep = do {
     us \<leftarrow> zsl_descend h (zsl_before score ele) 64 (level z) 0 (header z);
     l \<leftarrow> get_level h (fst (us ! 0)) 0;
     (case forward l of
        None \<Rightarrow> Some (False, None, h, z)
      | Some x \<Rightarrow> do {
          n \<leftarrow> h x;
          found \<leftarrow> (if score = z_score n then map_option (\<lambda>e. sdscmp e ele = 0) (z_ele n) else Some False);
          if found then do {
            (h, z) \<leftarrow> zslDeleteNode h z x (map fst us);
            Some (if keep then (True, Some x, h, z) else (True, None, zslFreeNode x h, z)) }
          else Some (False, None, h, z)
        })
   }"

definition zslUpdateScore ::
  "('s :: linorder) zalloc \<Rightarrow> nat list \<Rightarrow> 's zheap \<Rightarrow> zskiplist \<Rightarrow> 's \<Rightarrow> sds \<Rightarrow> 's \<Rightarrow> ('s zheap \<times> zskiplist \<times> zaddr) option" where
  "zslUpdateScore al rs h z curscore ele newscore = do {
     us \<leftarrow> zsl_descend h (zsl_before curscore ele) 64 (level z) 0 (header z);
     l \<leftarrow> get_level h (fst (us ! 0)) 0;
     x \<leftarrow> forward l;
     n \<leftarrow> h x;
     e \<leftarrow> z_ele n;
     if \<not> (curscore = z_score n \<and> sdscmp e ele = 0) then None
     else do {
       back_ok \<leftarrow> (case backward n of None \<Rightarrow> Some True | Some b \<Rightarrow> map_option (\<lambda>m. z_score m < newscore) (h b));
       xl \<leftarrow> get_level h x 0;
       forw_ok \<leftarrow> (case forward xl of None \<Rightarrow> Some True | Some f \<Rightarrow> map_option (\<lambda>m. z_score m > newscore) (h f));
       if back_ok \<and> forw_ok then Some (h(x := Some (n\<lparr>z_score := newscore\<rparr>)), z, x)
       else do {
         (h, z) \<leftarrow> zslDeleteNode h z x (map fst us);
         (h, z, y) \<leftarrow> zslInsert al rs h z (Some newscore) e;
         Some (zslFreeNode x h, z, y)
       }
     }
   }"

section \<open>Ranks\<close>

fun get_rank_loop :: "('s :: linorder) zheap \<Rightarrow> 's \<Rightarrow> sds \<Rightarrow> nat \<Rightarrow> nat \<Rightarrow> zaddr \<Rightarrow> nat option" where
  "get_rank_loop h score ele 0 rank x = Some 0"
| "get_rank_loop h score ele (Suc i) rank x = do {
     (x, rank) \<leftarrow> zsl_walk h (zsl_upto score ele) 64 i rank x;
     n \<leftarrow> h x;
     if (case z_ele n of None \<Rightarrow> False | Some e \<Rightarrow> sdscmp e ele = 0) then Some rank
     else get_rank_loop h score ele i rank x
   }"

definition zslGetRank :: "('s :: linorder) zheap \<Rightarrow> zskiplist \<Rightarrow> 's \<Rightarrow> sds \<Rightarrow> nat option" where
  "zslGetRank h z score ele = get_rank_loop h score ele (level z) 0 (header z)"

fun by_rank_loop :: "'s zheap \<Rightarrow> nat \<Rightarrow> nat \<Rightarrow> nat \<Rightarrow> zaddr \<Rightarrow> zaddr option option" where
  "by_rank_loop h rank 0 traversed x = Some None"
| "by_rank_loop h rank (Suc i) traversed x = do {
     (x, traversed) \<leftarrow> zsl_walk h (\<lambda>t n. Some (t \<le> rank)) 64 i traversed x;
     if traversed = rank then Some (Some x) else by_rank_loop h rank i traversed x
   }"

definition zslGetElementByRank :: "'s zheap \<Rightarrow> zskiplist \<Rightarrow> nat \<Rightarrow> zaddr option option" where
  "zslGetElementByRank h z rank = by_rank_loop h rank (level z) 0 (header z)"

end
