(* ===== verification/Zskiplist_Range.thy ===== *)
theory Zskiplist_Range
  imports Zskiplist Dict
begin

text \<open>
  Ranges of skip lists by score, by element and by rank (\<^verbatim>\<open>t_zset.c\<close>). The strings \<^verbatim>\<open>shared.minstring\<close> and
  \<^verbatim>\<open>shared.maxstring\<close>, which are recognised by their addresses, are two constructors of their own.
  The loops that ranges by score and by element have in common are written once, with the two tests
  as arguments. A test of a node without an element is \<^const>\<open>None\<close>.
\<close>

section \<open>Bounds\<close>

record 's zrangespec =
  range_min :: 's
  range_max :: 's
  range_minex :: bool
  range_maxex :: bool

definition zslValueGteMin :: "('s :: linorder) \<Rightarrow> 's zrangespec \<Rightarrow> bool" where
  "zslValueGteMin v spec = (if range_minex spec then v > range_min spec else v \<ge> range_min spec)"

definition zslValueLteMax :: "('s :: linorder) \<Rightarrow> 's zrangespec \<Rightarrow> bool" where
  "zslValueLteMax v spec = (if range_maxex spec then v < range_max spec else v \<le> range_max spec)"

datatype lexstr = Minstring | Maxstring | Lex_string sds

record zlexrangespec =
  lex_min :: lexstr
  lex_max :: lexstr
  lex_minex :: bool
  lex_maxex :: bool

fun sdscmplex :: "lexstr \<Rightarrow> lexstr \<Rightarrow> int" where
  "sdscmplex Minstring Minstring = 0"
| "sdscmplex Maxstring Maxstring = 0"
| "sdscmplex Minstring b = -1"
| "sdscmplex a Maxstring = -1"
| "sdscmplex Maxstring b = 1"
| "sdscmplex a Minstring = 1"
| "sdscmplex (Lex_string a) (Lex_string b) = sdscmp a b"

definition zslLexValueGteMin :: "sds \<Rightarrow> zlexrangespec \<Rightarrow> bool" where
  "zslLexValueGteMin v spec =
     (if lex_minex spec then sdscmplex (Lex_string v) (lex_min spec) > 0 else sdscmplex (Lex_string v) (lex_min spec) \<ge> 0)"

definition zslLexValueLteMax :: "sds \<Rightarrow> zlexrangespec \<Rightarrow> bool" where
  "zslLexValueLteMax v spec =
     (if lex_maxex spec then sdscmplex (Lex_string v) (lex_max spec) < 0 else sdscmplex (Lex_string v) (lex_max spec) \<le> 0)"

definition byte_at :: "string \<Rightarrow> nat \<Rightarrow> char option" where
  "byte_at b i = (if i < length b then Some (b ! i) else None)"

text \<open>One bound of a range by element, as it is written in a command; \<^const>\<open>None\<close> inside is \<^verbatim>\<open>C_ERR\<close>.\<close>

definition zslParseLexRangeItem :: "allocator \<Rightarrow> sds \<Rightarrow> (lexstr \<times> bool) option option" where
  "zslParseLexRangeItem al c = do {
     c0 \<leftarrow> byte_at (buf c) 0;
     if c0 = CHR ''+'' then do {
       c1 \<leftarrow> byte_at (buf c) 1;
       Some (if c1 \<noteq> NUL then None else Some (Maxstring, True)) }
     else if c0 = CHR ''-'' then do {
       c1 \<leftarrow> byte_at (buf c) 1;
       Some (if c1 \<noteq> NUL then None else Some (Minstring, True)) }
     else if c0 = CHR ''('' then do {
       s \<leftarrow> sdsnewlen al (Init (drop 1 (buf c))) (sdslen c - 1);
       Some (Some (Lex_string s, True)) }
     else if c0 = CHR ''['' then do {
       s \<leftarrow> sdsnewlen al (Init (drop 1 (buf c))) (sdslen c - 1);
       Some (Some (Lex_string s, False)) }
     else Some None
   }"

text \<open>\<open>None\<close> stands for an object with the integer encoding.\<close>

definition zslParseLexRange :: "allocator \<Rightarrow> sds option \<Rightarrow> sds option \<Rightarrow> zlexrangespec option option" where
  "zslParseLexRange al min_obj max_obj =
     (case (min_obj, max_obj) of
        (Some mn, Some mx) \<Rightarrow> do {
          r \<leftarrow> zslParseLexRangeItem al mn;
          (case r of
             None \<Rightarrow> Some None
           | Some (mn, mnx) \<Rightarrow> do {
               r \<leftarrow> zslParseLexRangeItem al mx;
               Some (case r of
                  None \<Rightarrow> None
                | Some (mx, mxx) \<Rightarrow> Some \<lparr>lex_min = mn, lex_max = mx, lex_minex = mnx, lex_maxex = mxx\<rparr>) }) }
      | _ \<Rightarrow> Some None)"

section \<open>The first and the last node of a range\<close>

type_synonym 's ztest = "'s znode \<Rightarrow> bool option"

definition score_gte :: "('s :: linorder) zrangespec \<Rightarrow> 's ztest" where
  "score_gte spec n = Some (zslValueGteMin (z_score n) spec)"

definition score_lte :: "('s :: linorder) zrangespec \<Rightarrow> 's ztest" where
  "score_lte spec n = Some (zslValueLteMax (z_score n) spec)"

definition lex_gte :: "zlexrangespec \<Rightarrow> 's ztest" where
  "lex_gte spec n = map_option (\<lambda>e. zslLexValueGteMin e spec) (z_ele n)"

definition lex_lte :: "zlexrangespec \<Rightarrow> 's ztest" where
  "lex_lte spec n = map_option (\<lambda>e. zslLexValueLteMax e spec) (z_ele n)"

definition list_in_range :: "bool \<Rightarrow> 's ztest \<Rightarrow> 's ztest \<Rightarrow> 's zheap \<Rightarrow> zskiplist \<Rightarrow> bool option" where
  "list_in_range void gte lte h z =
     (if void then Some False
      else (case ztail z of
          None \<Rightarrow> Some False
        | Some x \<Rightarrow> do {
            n \<leftarrow> h x;
            b \<leftarrow> gte n;
            if \<not> b then Some False
            else do {
              l \<leftarrow> get_level h (header z) 0;
              (case forward l of
                 None \<Rightarrow> Some False
               | Some x \<Rightarrow> do { n \<leftarrow> h x; lte n })
            } }))"

definition first_in_range :: "bool \<Rightarrow> 's ztest \<Rightarrow> 's ztest \<Rightarrow> 's zheap \<Rightarrow> zskiplist \<Rightarrow> zaddr option option" where
  "first_in_range void gte lte h z = do {
     b \<leftarrow> list_in_range void gte lte h z;
     if \<not> b then Some None
     else do {
       us \<leftarrow> zsl_descend h (\<lambda>r n. map_option Not (gte n)) 64 (level z) 0 (header z);
       l \<leftarrow> get_level h (fst (us ! 0)) 0;
       x \<leftarrow> forward l;
       n \<leftarrow> h x;
       b \<leftarrow> lte n;
       Some (if b then Some x else None)
     }
   }"

definition last_in_range :: "bool \<Rightarrow> 's ztest \<Rightarrow> 's ztest \<Rightarrow> 's zheap \<Rightarrow> zskiplist \<Rightarrow> zaddr option option" where
  "last_in_range void gte lte h z = do {
     b \<leftarrow> list_in_range void gte lte h z;
     if \<not> b then Some None
     else do {
       us \<leftarrow> zsl_descend h (\<lambda>r n. lte n) 64 (level z) 0 (header z);
       let x = fst (us ! 0);
       n \<leftarrow> h x;
       b \<leftarrow> gte n;
       Some (if b then Some x else None)
     }
   }"

text \<open>The ranges that are empty whatever the list holds.\<close>

definition void_range :: "('s :: linorder) zrangespec \<Rightarrow> bool" where
  "void_range r \<longleftrightarrow> range_min r > range_max r \<or> (range_min r = range_max r \<and> (range_minex r \<or> range_maxex r))"

definition void_lexrange :: "zlexrangespec \<Rightarrow> bool" where
  "void_lexrange r =
     (let cmp = sdscmplex (lex_min r) (lex_max r) in cmp > 0 \<or> (cmp = 0 \<and> (lex_minex r \<or> lex_maxex r)))"

definition zslIsInRange :: "('s :: linorder) zheap \<Rightarrow> zskiplist \<Rightarrow> 's zrangespec \<Rightarrow> bool option" where
  "zslIsInRange h z r = list_in_range (void_range r) (score_gte r) (score_lte r) h z"

definition zslFirstInRange :: "('s :: linorder) zheap \<Rightarrow> zskiplist \<Rightarrow> 's zrangespec \<Rightarrow> zaddr option option" where
  "zslFirstInRange h z r = first_in_range (void_range r) (score_gte r) (score_lte r) h z"

definition zslLastInRange :: "('s :: linorder) zheap \<Rightarrow> zskiplist \<Rightarrow> 's zrangespec \<Rightarrow> zaddr option option" where
  "zslLastInRange h z r = last_in_range (void_range r) (score_gte r) (score_lte r) h z"

definition zslIsInLexRange :: "'s zheap \<Rightarrow> zskiplist \<Rightarrow> zlexrangespec \<Rightarrow> bool option" where
  "zslIsInLexRange h z r = list_in_range (void_lexrange r) (lex_gte r) (lex_lte r) h z"

definition zslFirstInLexRange :: "'s zheap \<Rightarrow> zskiplist \<Rightarrow> zlexrangespec \<Rightarrow> zaddr option option" where
  "zslFirstInLexRange h z r = first_in_range (void_lexrange r) (lex_gte r) (lex_lte r) h z"

definition zslLastInLexRange :: "'s zheap \<Rightarrow> zskiplist \<Rightarrow> zlexrangespec \<Rightarrow> zaddr option option" where
  "zslLastInLexRange h z r = last_in_range (void_lexrange r) (lex_gte r) (lex_lte r) h z"

section \<open>Deleting a range\<close>

text \<open>
  Deleting nodes from \<open>x\<close> on, while the test holds of the running rank and the node, from the list and
  from the dictionary of the sorted set.
\<close>

partial_function (option) delete_range_loop ::
  "(nat \<Rightarrow> 's ztest) \<Rightarrow> zaddr list \<Rightarrow> 's zheap \<Rightarrow> zskiplist \<Rightarrow> (sds, 'v) dict \<Rightarrow> zaddr option \<Rightarrow> nat \<Rightarrow> nat \<Rightarrow>
   (nat \<times> 's zheap \<times> zskiplist \<times> (sds, 'v) dict) option" where
  "delete_range_loop test us h z d xo traversed removed =
     (case xo of
        None \<Rightarrow> Some (removed, h, z, d)
      | Some x \<Rightarrow> do {
          n \<leftarrow> h x;
          b \<leftarrow> test traversed n;
          if \<not> b then Some (removed, h, z, d)
          else do {
            l \<leftarrow> get_level h x 0;
            (h, z) \<leftarrow> zslDeleteNode h z x us;
            e \<leftarrow> z_ele n;
            (_, d) \<leftarrow> dictDelete d e;
            delete_range_loop test us (zslFreeNode x h) z d (forward l) (addw 64 traversed 1) (addw 64 removed 1)
          }
        })"

definition zslDeleteRangeByScore ::
  "('s :: linorder) zheap \<Rightarrow> zskiplist \<Rightarrow> 's zrangespec \<Rightarrow> (sds, 'v) dict \<Rightarrow> (nat \<times> 's zheap \<times> zskiplist \<times> (sds, 'v) dict) option" where
  "zslDeleteRangeByScore h z r d = do {
     us \<leftarrow> zsl_descend h (\<lambda>t n. map_option Not (score_gte r n)) 64 (level z) 0 (header z);
     l \<leftarrow> get_level h (fst (us ! 0)) 0;
     delete_range_loop (\<lambda>t. score_lte r) (map fst us) h z d (forward l) 0 0
   }"

definition zslDeleteRangeByLex ::
  "'s zheap \<Rightarrow> zskiplist \<Rightarrow> zlexrangespec \<Rightarrow> (sds, 'v) dict \<Rightarrow> (nat \<times> 's zheap \<times> zskiplist \<times> (sds, 'v) dict) option" where
  "zslDeleteRangeByLex h z r d = do {
     us \<leftarrow> zsl_descend h (\<lambda>t n. map_option Not (lex_gte r n)) 64 (level z) 0 (header z);
     l \<leftarrow> get_level h (fst (us ! 0)) 0;
     delete_range_loop (\<lambda>t. lex_lte r) (map fst us) h z d (forward l) 0 0
   }"

definition zslDeleteRangeByRank ::
  "'s zheap \<Rightarrow> zskiplist \<Rightarrow> nat \<Rightarrow> nat \<Rightarrow> (sds, 'v) dict \<Rightarrow> (nat \<times> 's zheap \<times> zskiplist \<times> (sds, 'v) dict) option" where
  "zslDeleteRangeByRank h z start stop d = do {
     us \<leftarrow> zsl_descend h (\<lambda>t n. Some (t < start)) 64 (level z) 0 (header z);
     let (x, traversed) = us ! 0;
     l \<leftarrow> get_level h x 0;
     delete_range_loop (\<lambda>t n. Some (t \<le> stop)) (map fst us) h z d (forward l) (addw 64 traversed 1) 0
   }"

end
