(* ===== verification/Zset.thy ===== *)
theory Zset
  imports Zskiplist_Range
begin

text \<open>
  Sorted sets with the skip list encoding (\<^verbatim>\<open>t_zset.c\<close>, the branches for \<^verbatim>\<open>OBJ_ENCODING_SKIPLIST\<close>): a
  dictionary from elements to nodes and a skip list of the same nodes. The value of a dictionary
  entry, a pointer to the score inside a node, is the address of this node. A score that is NaN is
  \<^const>\<open>None\<close>; the addition of doubles, which can give NaN, is an argument, and so is the hash
  function. A failed assertion is \<^const>\<open>None\<close>.
\<close>

section \<open>The dictionary type\<close>

text \<open>The bytes of a memory area, read as \<^const>\<open>memcmp\<close> reads them.\<close>

fun area :: "string \<Rightarrow> nat \<Rightarrow> string" where
  "area b 0 = []"
| "area b (Suc n) = hd b # area (tl b) n"

text \<open>The lengths are compared as in the code, where they are below \<open>2 ^ 31\<close>.\<close>

definition dictSdsKeyCompare :: "sds \<Rightarrow> sds \<Rightarrow> bool" where
  "dictSdsKeyCompare key1 key2 =
     (let l1 = sdslen key1; l2 = sdslen key2
      in if l1 \<noteq> l2 then False else memcmp (buf key1) (buf key2) l1 = 0)"

definition dictSdsHash :: "(string \<Rightarrow> u64) \<Rightarrow> sds \<Rightarrow> u64" where
  "dictSdsHash siphash key = siphash (area (buf key) (sdslen key))"

definition zsetDictType :: "(string \<Rightarrow> u64) \<Rightarrow> sds dictType" where
  "zsetDictType siphash =
     \<lparr>hashFunction = dictSdsHash siphash, keyCompare = Some dictSdsKeyCompare, expandAllowed = None\<rparr>"

definition htNeedsResize :: "('k, 'v) dict \<Rightarrow> bool" where
  "htNeedsResize d =
     (let size' = dictSlots d; used = dictSize d
      in size' > DICT_HT_INITIAL_SIZE \<and> used * 100 div size' < 10)"

section \<open>Operations\<close>

record zset =
  zs_dict :: "(sds, zaddr) dict"
  zs_zsl :: zskiplist

record zadd_flags =
  zadd_incr :: bool
  zadd_nx :: bool
  zadd_xx :: bool
  zadd_gt :: bool
  zadd_lt :: bool

text \<open>The output flags; at most one of them is ever set.\<close>

datatype zadd_out = ZADD_OUT_NONE | ZADD_OUT_NOP | ZADD_OUT_NAN | ZADD_OUT_ADDED | ZADD_OUT_UPDATED

text \<open>Reading a score through the pointer in a dictionary entry.\<close>

definition entry_score :: "'s zheap \<Rightarrow> (sds, zaddr) dictEntry \<Rightarrow> 's option" where
  "entry_score h e = do { a \<leftarrow> snd e; n \<leftarrow> h a; Some (z_score n) }"

definition zsetLength :: "zset \<Rightarrow> nat" where
  "zsetLength zs = zlength (zs_zsl zs)"

definition zsetScore :: "'s zheap \<Rightarrow> zset \<Rightarrow> sds \<Rightarrow> ('s option \<times> zset) option" where
  "zsetScore h zs member = do {
     (de, d) \<leftarrow> dictFind (zs_dict zs) member;
     (case de of
        None \<Rightarrow> Some (None, zs\<lparr>zs_dict := d\<rparr>)
      | Some r \<Rightarrow> do {
          e \<leftarrow> deref d r;
          s \<leftarrow> entry_score h e;
          Some (Some s, zs\<lparr>zs_dict := d\<rparr>) })
   }"

text \<open>The result: the return value, the output flag, the value stored to \<^verbatim>\<open>newscore\<close>, and the new state.\<close>

definition zsetAdd ::
  "('s :: linorder) zalloc \<Rightarrow> allocator \<Rightarrow> nat list \<Rightarrow> dict_globals \<Rightarrow> ('s \<Rightarrow> 's \<Rightarrow> 's option) \<Rightarrow>
   's zheap \<Rightarrow> zset \<Rightarrow> 's option \<Rightarrow> sds \<Rightarrow> zadd_flags \<Rightarrow> (bool \<times> zadd_out \<times> 's option \<times> 's zheap \<times> zset) option" where
  "zsetAdd al sal rs g add_double h zs score ele fl =
     (case score of
        None \<Rightarrow> Some (False, ZADD_OUT_NAN, None, h, zs)
      | Some score \<Rightarrow> do {
          (de, d) \<leftarrow> dictFind (zs_dict zs) ele;
          (case de of
             Some r \<Rightarrow>
               if zadd_nx fl then Some (True, ZADD_OUT_NOP, None, h, zs\<lparr>zs_dict := d\<rparr>)
               else do {
                 e \<leftarrow> deref d r;
                 curscore \<leftarrow> entry_score h e;
                 (case (if zadd_incr fl then add_double score curscore else Some score) of
                    None \<Rightarrow> Some (False, ZADD_OUT_NAN, None, h, zs\<lparr>zs_dict := d\<rparr>)
                  | Some score \<Rightarrow>
                      if (zadd_lt fl \<and> score \<ge> curscore) \<or> (zadd_gt fl \<and> score \<le> curscore)
                      then Some (True, ZADD_OUT_NOP, None, h, zs\<lparr>zs_dict := d\<rparr>)
                      else if score \<noteq> curscore then do {
                        (h, zsl, znode) \<leftarrow> zslUpdateScore al rs h (zs_zsl zs) curscore ele score;
                        d \<leftarrow> dictSetVal d r znode;
                        Some (True, ZADD_OUT_UPDATED, Some score, h, zs\<lparr>zs_dict := d, zs_zsl := zsl\<rparr>) }
                      else Some (True, ZADD_OUT_NONE, Some score, h, zs\<lparr>zs_dict := d\<rparr>)) }
           | None \<Rightarrow>
               if \<not> zadd_xx fl then do {
                 ele \<leftarrow> sdsdup sal ele;
                 (h, zsl, znode) \<leftarrow> zslInsert al rs h (zs_zsl zs) (Some score) ele;
                 (r, d) \<leftarrow> dictAdd g d ele znode;
                 if r = DICT_OK then Some (True, ZADD_OUT_ADDED, Some score, h, zs\<lparr>zs_dict := d, zs_zsl := zsl\<rparr>) else None }
               else Some (True, ZADD_OUT_NOP, None, h, zs\<lparr>zs_dict := d\<rparr>)) })"

definition zsetRemoveFromSkiplist ::
  "('s :: linorder) zheap \<Rightarrow> zset \<Rightarrow> sds \<Rightarrow> (bool \<times> 's zheap \<times> zset) option" where
  "zsetRemoveFromSkiplist h zs ele = do {
     (de, d) \<leftarrow> dictUnlink (zs_dict zs) ele;
     (case de of
        None \<Rightarrow> Some (False, h, zs\<lparr>zs_dict := d\<rparr>)
      | Some e \<Rightarrow> do {
          score \<leftarrow> entry_score h e;
          (retval, _, h, zsl) \<leftarrow> zslDelete h (zs_zsl zs) score ele False;
          if retval then Some (True, h, zs\<lparr>zs_dict := d, zs_zsl := zsl\<rparr>) else None })
   }"

definition zsetDel :: "dict_globals \<Rightarrow> ('s :: linorder) zheap \<Rightarrow> zset \<Rightarrow> sds \<Rightarrow> (bool \<times> 's zheap \<times> zset) option" where
  "zsetDel g h zs ele = do {
     (b, h, zs) \<leftarrow> zsetRemoveFromSkiplist h zs ele;
     Some (if b then (True, h, if htNeedsResize (zs_dict zs) then zs\<lparr>zs_dict := snd (dictResize g (zs_dict zs))\<rparr> else zs)
           else (False, h, zs))
   }"

text \<open>\<^const>\<open>None\<close> inside is the rank -1 of an element that is not there.\<close>

definition zsetRank :: "('s :: linorder) zheap \<Rightarrow> zset \<Rightarrow> sds \<Rightarrow> bool \<Rightarrow> (nat option \<times> zset) option" where
  "zsetRank h zs ele reverse = do {
     let llen = zsetLength zs;
     (de, d) \<leftarrow> dictFind (zs_dict zs) ele;
     (case de of
        None \<Rightarrow> Some (None, zs\<lparr>zs_dict := d\<rparr>)
      | Some r \<Rightarrow> do {
          e \<leftarrow> deref d r;
          score \<leftarrow> entry_score h e;
          rank \<leftarrow> zslGetRank h (zs_zsl zs) score ele;
          if rank = 0 then None
          else Some (Some (if reverse then subw 64 llen rank else rank - 1), zs\<lparr>zs_dict := d\<rparr>) })
   }"

end
