(* ===== verification/Zskiplist_Chain.thy ===== *)
theory Zskiplist_Chain
  imports Zskiplist
begin

text \<open>
  The shape of a skip list: at every level the nodes that have this level form a chain, and the
  span of a link is the number of nodes it passes, the target included. The searches, which go
  down from the highest level, stop at the last node before the position they look for, whatever
  the levels of the nodes are.
\<close>

section \<open>Memory\<close>

definition lv :: "'s zheap \<Rightarrow> zaddr \<Rightarrow> nat" where
  "lv h a = (case h a of None \<Rightarrow> 0 | Some n \<Rightarrow> length (levels n))"

definition meta :: "'s zheap \<Rightarrow> zaddr \<Rightarrow> (sds option \<times> 's \<times> zaddr option \<times> nat) option" where
  "meta h a = map_option (\<lambda>n. (z_ele n, z_score n, backward n, length (levels n))) (h a)"

lemma lv_meta: "lv h a = (case meta h a of None \<Rightarrow> 0 | Some (e, s, b, k) \<Rightarrow> k)"
  by (simp add: lv_def meta_def split: option.split)

lemma get_level_Some: "(\<exists>l. get_level h a i = Some l) \<longleftrightarrow> i < lv h a"
  by (auto simp: get_level_def lv_def split: option.splits)

lemma get_level_None: "get_level h a i = None \<longleftrightarrow> lv h a \<le> i"
  using get_level_Some [of h a i] by (cases "get_level h a i") auto

lemma put_level_Some:
  assumes "i < lv h a"
  shows "\<exists>h'. put_level a i f h = Some h' \<and> meta h' = meta h \<and>
    (\<forall>b j. get_level h' b j = (if b = a \<and> j = i then map_option f (get_level h a i) else get_level h b j))"
proof -
  obtain n where n: "h a = Some n" "i < length (levels n)" using assms by (auto simp: lv_def split: option.splits)
  let ?h = "h(a := Some (n\<lparr>levels := (levels n)[i := f (levels n ! i)]\<rparr>))"
  have "put_level a i f h = Some ?h" using n by (simp add: put_level_def)
  moreover have "meta ?h = meta h" using n by (auto simp: meta_def fun_eq_iff)
  moreover have "\<forall>b j. get_level ?h b j = (if b = a \<and> j = i then map_option f (get_level h a i) else get_level h b j)"
    using n by (auto simp: get_level_def)
  ultimately show ?thesis by blast
qed

lemma put_level_ex:
  assumes "get_level h a i = Some l"
  obtains h' where "put_level a i f h = Some h'" "meta h' = meta h"
    "\<And>b j. get_level h' b j = (if b = a \<and> j = i then Some (f l) else get_level h b j)"
proof -
  have "i < lv h a" using assms get_level_Some by blast
  then show thesis using put_level_Some [of i h a f] assms that by auto
qed

lemma put_back_Some:
  assumes "h a \<noteq> None"
  shows "\<exists>h'. put_back a b h = Some h' \<and> (\<forall>c j. get_level h' c j = get_level h c j) \<and>
    meta h' = (meta h)(a := map_option (\<lambda>(e, s, _, k). (e, s, b, k)) (meta h a))"
proof -
  obtain n where n: "h a = Some n" using assms by auto
  let ?h = "h(a := Some (n\<lparr>backward := b\<rparr>))"
  have "put_back a b h = Some ?h" using n by (simp add: put_back_def)
  moreover have "\<forall>c j. get_level ?h c j = get_level h c j" using n by (auto simp: get_level_def)
  moreover have "meta ?h = (meta h)(a := map_option (\<lambda>(e, s, _, k). (e, s, b, k)) (meta h a))"
    using n by (auto simp: meta_def fun_eq_iff)
  ultimately show ?thesis by blast
qed

section \<open>Chains\<close>

text \<open>
  The chain of level \<open>i\<close> from node \<open>a\<close>, when \<open>d\<close> nodes without this level have been passed since \<open>a\<close> and
  the nodes \<open>bs\<close> are still to come.
\<close>

fun lseg :: "'s zheap \<Rightarrow> nat \<Rightarrow> zaddr \<Rightarrow> nat \<Rightarrow> zaddr list \<Rightarrow> bool" where
  "lseg h i a d [] = (get_level h a i = Some \<lparr>forward = None, span = d\<rparr>)"
| "lseg h i a d (b # bs) =
     (if i < lv h b then get_level h a i = Some \<lparr>forward = Some b, span = d + 1\<rparr> \<and> lseg h i b 0 bs
      else lseg h i a (d + 1) bs)"

fun lpart :: "'s zheap \<Rightarrow> nat \<Rightarrow> zaddr \<Rightarrow> nat \<Rightarrow> zaddr list \<Rightarrow> bool" where
  "lpart h i a d [] = True"
| "lpart h i a d (b # bs) =
     (if i < lv h b then get_level h a i = Some \<lparr>forward = Some b, span = d + 1\<rparr> \<and> lpart h i b 0 bs
      else lpart h i a (d + 1) bs)"

text \<open>The last node of the level and the number of nodes behind it.\<close>

fun lastat :: "'s zheap \<Rightarrow> nat \<Rightarrow> zaddr \<Rightarrow> nat \<Rightarrow> zaddr list \<Rightarrow> zaddr \<times> nat" where
  "lastat h i a d [] = (a, d)"
| "lastat h i a d (b # bs) = (if i < lv h b then lastat h i b 0 bs else lastat h i a (d + 1) bs)"

lemma lseg_append:
  "lseg h i a d (xs @ ys) \<longleftrightarrow> lpart h i a d xs \<and> lseg h i (fst (lastat h i a d xs)) (snd (lastat h i a d xs)) ys"
  by (induction xs arbitrary: a d) auto

lemma lastat_append:
  "lastat h i a d (xs @ ys) = lastat h i (fst (lastat h i a d xs)) (snd (lastat h i a d xs)) ys"
  by (induction xs arbitrary: a d) auto

lemma lastat_le: "snd (lastat h i a d xs) \<le> d + length xs"
proof (induction xs arbitrary: a d)
  case (Cons b xs)
  then show ?case using Cons.IH [of b 0] Cons.IH [of a "d + 1"] by auto
qed simp

lemma lastat_cases:
  obtains (start) "lastat h i a d xs = (a, d + length xs)"
  | (inner) zs ws where "xs = zs @ fst (lastat h i a d xs) # ws" "snd (lastat h i a d xs) = length ws"
      "i < lv h (fst (lastat h i a d xs))"
proof (induction xs arbitrary: a d thesis)
  case (Cons b xs)
  show ?case
  proof (cases "i < lv h b")
    case True
    show ?thesis
    proof (rule Cons.IH [of b 0])
      assume "lastat h i b 0 xs = (b, 0 + length xs)"
      then show ?thesis using Cons.prems(2) [of "[]" xs] True by simp
    next
      fix zs ws
      assume "xs = zs @ fst (lastat h i b 0 xs) # ws" "snd (lastat h i b 0 xs) = length ws" "i < lv h (fst (lastat h i b 0 xs))"
      then show ?thesis using Cons.prems(2) [of "b # zs" ws] True by simp
    qed
  next
    case False
    show ?thesis
    proof (rule Cons.IH [of a "d + 1"])
      assume "lastat h i a (d + 1) xs = (a, d + 1 + length xs)"
      then show ?thesis using Cons.prems(1) False by simp
    next
      fix zs ws
      assume "xs = zs @ fst (lastat h i a (d + 1) xs) # ws" "snd (lastat h i a (d + 1) xs) = length ws"
        "i < lv h (fst (lastat h i a (d + 1) xs))"
      then show ?thesis using Cons.prems(2) [of "b # zs" ws] False by simp
    qed
  qed
qed simp

lemma lastat_mem: "fst (lastat h i a d xs) \<in> insert a (set xs)"
  by (cases h i a d xs rule: lastat_cases) (auto, metis in_set_conv_decomp)

lemma lastat_level: "i < lv h a \<Longrightarrow> i < lv h (fst (lastat h i a d xs))"
  by (cases h i a d xs rule: lastat_cases) auto

text \<open>Chains depend only on the links of their level.\<close>

definition same_level :: "nat \<Rightarrow> zaddr set \<Rightarrow> 's zheap \<Rightarrow> 's zheap \<Rightarrow> bool" where
  "same_level i A h h' \<longleftrightarrow> (\<forall>a\<in>A. lv h' a = lv h a \<and> get_level h' a i = get_level h a i)"

lemma lseg_same:
  "same_level i (set xs) h h' \<Longrightarrow> get_level h' a i = get_level h a i \<Longrightarrow> lseg h' i a d xs = lseg h i a d xs"
  by (induction xs arbitrary: a d) (auto simp: same_level_def)

lemma lpart_same:
  "\<forall>b\<in>set xs. lv h' b = lv h b \<Longrightarrow> \<forall>b\<in>insert a (set xs) - {fst (lastat h i a d xs)}. get_level h' b i = get_level h b i \<Longrightarrow>
   distinct (a # xs) \<Longrightarrow> lpart h' i a d xs = lpart h i a d xs"
proof (induction xs arbitrary: a d)
  case (Cons b xs)
  show ?case
  proof (cases "i < lv h b")
    case True
    have "a \<noteq> fst (lastat h i b 0 xs)" using lastat_mem [of h i b 0 xs] Cons.prems(3) by auto
    then show ?thesis using Cons.IH [of b 0] Cons.prems True by simp
  next
    case False
    have "\<forall>c\<in>insert a (set xs) - {fst (lastat h i a (d + 1) xs)}. get_level h' c i = get_level h c i"
      using Cons.prems(2) False by auto
    then show ?thesis using Cons.IH [of a "d + 1"] Cons.prems(1,3) False by simp
  qed
qed simp

lemma lastat_same: "\<forall>b\<in>set xs. lv h' b = lv h b \<Longrightarrow> lastat h' i a d xs = lastat h i a d xs"
  by (induction xs arbitrary: a d) auto

text \<open>Where the first link of a chain leads.\<close>

lemma lseg_first:
  "lseg h i u d ys \<Longrightarrow> get_level h u i = Some l \<Longrightarrow>
   d \<le> span l \<and> span l \<le> d + length ys \<and>
   (case forward l of None \<Rightarrow> span l = d + length ys | Some f \<Rightarrow> d < span l \<and> f = ys ! (span l - d - 1))"
proof (induction ys arbitrary: d)
  case (Cons b ys)
  show ?case
  proof (cases "i < lv h b")
    case True
    then show ?thesis using Cons.prems by auto
  next
    case False
    then have "d + 1 \<le> span l \<and> span l \<le> d + 1 + length ys \<and>
      (case forward l of None \<Rightarrow> span l = d + 1 + length ys | Some f \<Rightarrow> d + 1 < span l \<and> f = ys ! (span l - (d + 1) - 1))"
      using Cons.IH [of "d + 1"] Cons.prems by simp
    then show ?thesis by (auto simp: nth_Cons' split: option.splits)
  qed
qed auto

text \<open>Giving the rest of a chain a new first node.\<close>

lemma lseg_retarget:
  "lseg h i u e ys \<Longrightarrow> same_level i (set ys) h h' \<Longrightarrow> get_level h u i = Some l \<Longrightarrow>
   get_level h' w i = Some (l\<lparr>span := span l - e + e'\<rparr>) \<Longrightarrow> lseg h' i w e' ys \<and> e \<le> span l"
proof (induction ys arbitrary: e e')
  case (Cons b ys)
  show ?case
  proof (cases "i < lv h b")
    case True
    then have "lseg h' i b 0 ys" using Cons.prems lseg_same [of i ys h h' b 0] by (simp add: same_level_def)
    then show ?thesis using Cons.prems True by (auto simp: same_level_def)
  next
    case False
    then have *: "lseg h i u (e + 1) ys" "same_level i (set ys) h h'" using Cons.prems by (auto simp: same_level_def)
    have le: "e + 1 \<le> span l" using lseg_first [OF *(1) Cons.prems(3)] by simp
    show ?thesis using Cons.IH [OF * Cons.prems(3), of "e' + 1"] Cons.prems False le by (auto simp: same_level_def)
  qed
qed auto

lemma lseg_level: "lseg h i u d ys \<Longrightarrow> \<exists>l. get_level h u i = Some l"
  by (induction ys arbitrary: d) (auto split: if_splits)

section \<open>Searching\<close>

text \<open>The condition of a search holds of exactly the first \<open>c\<close> nodes.\<close>

definition cuts :: "'s zheap \<Rightarrow> (nat \<Rightarrow> 's znode \<Rightarrow> bool option) \<Rightarrow> nat \<Rightarrow> zaddr list \<Rightarrow> nat \<Rightarrow> bool" where
  "cuts h cond r ps c \<longleftrightarrow>
     (\<forall>j<length ps. \<exists>n. h (ps ! j) = Some n \<and> cond (r + j + 1) n = Some (j < c))"

lemma zsl_walk_correct:
  "lseg h i u d (as @ ys) \<Longrightarrow> cuts h cond (r + d) (as @ ys) (length as) \<Longrightarrow> r + d + length (as @ ys) < 2 ^ w \<Longrightarrow>
   zsl_walk h cond w i r u =
     Some (fst (lastat h i u d as), r + d + length as - snd (lastat h i u d as))"
proof (induction as arbitrary: u d r)
  case Nil
  obtain l where l: "get_level h u i = Some l" using lseg_level [of h i u d ys] Nil.prems(1) by auto
  note f = lseg_first [OF _ l, of d ys]
  show ?case
  proof (cases "forward l")
    case None
    then show ?thesis using l by (subst zsl_walk.simps) simp
  next
    case (Some b)
    define j where "j = span l - d - 1"
    have j: "j < length ys" "b = ys ! j" "r + span l = r + d + j + 1"
      using f Nil.prems(1) Some by (auto simp: j_def)
    obtain n where n: "h b = Some n" "cond (r + span l) n = Some False"
      using Nil.prems(2) j by (auto simp: cuts_def)
    have "addw w r (span l) = r + span l" using Nil.prems(3) j(1,3) by (simp add: addw_def)
    then show ?thesis using l Some n by (subst zsl_walk.simps) simp
  qed
next
  case (Cons b as)
  have c: "cuts h cond (r + (d + 1)) (as @ ys) (length as)"
    using Cons.prems(2) unfolding cuts_def by (force simp: nth_Cons')
  show ?case
  proof (cases "i < lv h b")
    case True
    then have l: "get_level h u i = Some \<lparr>forward = Some b, span = d + 1\<rparr>" "lseg h i b 0 (as @ ys)"
      using Cons.prems(1) by auto
    obtain n where n: "h b = Some n" "cond (r + d + 1) n = Some True"
      using Cons.prems(2) by (force simp: cuts_def)
    have "addw w r (d + 1) = r + d + 1" using Cons.prems(3) by (simp add: addw_def)
    then have "zsl_walk h cond w i r u = zsl_walk h cond w i (r + d + 1) b"
      using l(1) n by (subst zsl_walk.simps) simp
    then show ?thesis using Cons.IH [OF l(2), of "r + d + 1"] c Cons.prems(3) True by simp
  next
    case False
    then show ?thesis using Cons.IH [of u "d + 1" r] Cons.prems c by simp
  qed
qed

text \<open>The arrays \<^verbatim>\<open>update\<close> and \<^verbatim>\<open>rank\<close> after the descent.\<close>

definition stops :: "'s zheap \<Rightarrow> zaddr \<Rightarrow> zaddr list \<Rightarrow> nat \<Rightarrow> (zaddr \<times> nat) list" where
  "stops h hdr xs k =
     map (\<lambda>i. (fst (lastat h i hdr 0 xs), length xs - snd (lastat h i hdr 0 xs))) [0..<k]"

text \<open>A node on the way: the header, or a node before the position that has the levels below \<open>k\<close>.\<close>

definition on_path :: "'s zheap \<Rightarrow> zaddr \<Rightarrow> nat \<Rightarrow> zaddr list \<Rightarrow> zaddr \<Rightarrow> bool" where
  "on_path h hdr k xs x \<longleftrightarrow> (xs = [] \<and> x = hdr) \<or> (\<exists>zs. xs = zs @ [x] \<and> k \<le> lv h x)"

lemma on_path_lastat: "on_path h hdr k xs x \<Longrightarrow> i < k \<Longrightarrow> lastat h i hdr 0 xs = (x, 0)"
  by (auto simp: on_path_def lastat_append)

lemma on_path_step:
  assumes "on_path h hdr (Suc i) xs1 x" "lastat h i x 0 xs2 = (u, e)"
  shows "\<exists>ys1 ys2. xs1 @ xs2 = ys1 @ ys2 \<and> length ys2 = e \<and> on_path h hdr i ys1 u"
proof (cases h i x "0 :: nat" xs2 rule: lastat_cases)
  case start
  then have "u = x" "e = length xs2" using assms(2) by auto
  moreover have "on_path h hdr i xs1 x" using assms(1) by (auto simp: on_path_def)
  ultimately show ?thesis by blast
next
  case (inner zs ws)
  then have "xs1 @ xs2 = (xs1 @ zs @ [u]) @ ws" "length ws = e" "on_path h hdr i (xs1 @ zs @ [u]) u"
    using assms(2) by (auto simp: on_path_def)
  then show ?thesis by blast
qed

lemma descend_step:
  assumes "lseg h i hdr 0 (xs @ ys)" "cuts h cond 0 (xs @ ys) (length xs)" "length (xs @ ys) < 2 ^ w"
    "xs = xs1 @ xs2" "on_path h hdr (Suc i) xs1 x"
  obtains u ys1 ys2 where "zsl_walk h cond w i (length xs1) x = Some (u, length ys1)" "xs = ys1 @ ys2"
    "lastat h i hdr 0 xs = (u, length ys2)" "on_path h hdr i ys1 u"
proof -
  obtain u e where ue: "lastat h i x 0 xs2 = (u, e)" by force
  have la: "lastat h i hdr 0 xs1 = (x, 0)" using on_path_lastat [OF assms(5)] by simp
  then have lx: "lastat h i hdr 0 xs = (u, e)" using assms(4) ue by (simp add: lastat_append)
  have "lseg h i hdr 0 (xs1 @ xs2 @ ys)" using assms(1,4) by simp
  then have seg: "lseg h i x 0 (xs2 @ ys)" unfolding lseg_append [of h i hdr 0 xs1] la by simp
  have cut: "cuts h cond (length xs1 + 0) (xs2 @ ys) (length xs2)"
    unfolding cuts_def
  proof (intro allI impI)
    fix j
    assume "j < length (xs2 @ ys)"
    then show "\<exists>n. h ((xs2 @ ys) ! j) = Some n \<and> cond (length xs1 + 0 + j + 1) n = Some (j < length xs2)"
      using assms(2,4) unfolding cuts_def by (auto dest!: spec [of _ "length xs1 + j"] simp: nth_append)
  qed
  have w: "zsl_walk h cond w i (length xs1) x = Some (u, length xs - e)"
    using zsl_walk_correct [OF seg cut] assms(3,4) ue by simp
  obtain ys1 ys2 where y: "xs = ys1 @ ys2" "length ys2 = e" "on_path h hdr i ys1 u"
    using on_path_step [OF assms(5) ue] assms(4) by auto
  then show thesis using that [of u ys1 ys2] w lx by simp
qed

lemma zsl_descend_correct:
  "\<forall>i<k. lseg h i hdr 0 (xs @ ys) \<Longrightarrow> cuts h cond 0 (xs @ ys) (length xs) \<Longrightarrow> length (xs @ ys) < 2 ^ w \<Longrightarrow>
   xs = xs1 @ xs2 \<Longrightarrow> on_path h hdr k xs1 x \<Longrightarrow>
   zsl_descend h cond w k (length xs1) x = Some (stops h hdr xs k)"
proof (induction k arbitrary: xs1 xs2 x)
  case (Suc i)
  have "lseg h i hdr 0 (xs @ ys)" using Suc.prems(1) by blast
  from descend_step [OF this Suc.prems(2-5)] obtain u ys1 ys2 where u: "zsl_walk h cond w i (length xs1) x = Some (u, length ys1)"
    "xs = ys1 @ ys2" "lastat h i hdr 0 xs = (u, length ys2)" "on_path h hdr i ys1 u" by blast
  have "zsl_descend h cond w i (length ys1) u = Some (stops h hdr xs i)"
    using Suc.IH [OF _ Suc.prems(2,3) u(2,4)] Suc.prems(1) by simp
  then show ?case using u(1,2,3) by (simp add: stops_def)
qed (simp add: stops_def)

end
