(* ===== verification/Zskiplist_Correct.thy ===== *)
theory Zskiplist_Correct
  imports Zskiplist_Chain
begin

text \<open>
  Skip lists represent sequences of scores and elements in strictly increasing order. Insertion and
  deletion keep every chain, every span, the backward links, the tail, the length and the highest
  level.
\<close>

section \<open>Order of the entries\<close>

fun key_less :: "('s :: linorder) \<times> string \<Rightarrow> 's \<times> string \<Rightarrow> bool" where
  "key_less (s, t) (s', t') \<longleftrightarrow> s < s' \<or> s = s' \<and> byte_less t t'"

lemma byte_less_trans: "byte_less a b \<Longrightarrow> byte_less b c \<Longrightarrow> byte_less a c"
  unfolding byte_less_def by (rule lexord_trans) (auto simp: trans_def)

lemma key_less_trans: "key_less a b \<Longrightarrow> key_less b c \<Longrightarrow> key_less a c"
  by (cases a; cases b; cases c) (auto intro: byte_less_trans)

lemma key_less_irrefl [simp]: "\<not> key_less a a"
  using byte_less_antisym by (cases a) auto

lemma key_less_total: "key_less a b \<or> a = b \<or> key_less b a"
  using byte_less_total by (cases a; cases b) auto

section \<open>The invariant\<close>

definition zkey :: "'s zheap \<Rightarrow> zaddr \<Rightarrow> 's \<times> string" where
  "zkey h a = (case meta h a of Some (e, s, b, k) \<Rightarrow> (s, text_of (the e)) | None \<Rightarrow> undefined)"

definition zback :: "'s zheap \<Rightarrow> zaddr \<Rightarrow> zaddr option" where
  "zback h a = (case meta h a of Some (e, s, b, k) \<Rightarrow> b | None \<Rightarrow> None)"

fun backs :: "'s zheap \<Rightarrow> zaddr option \<Rightarrow> zaddr list \<Rightarrow> bool" where
  "backs h b [] = True"
| "backs h b (a # as) = (zback h a = b \<and> backs h (Some a) as)"

definition last_or :: "zaddr option \<Rightarrow> zaddr list \<Rightarrow> zaddr option" where
  "last_or b ps = (if ps = [] then b else Some (last ps))"

lemma last_or_simps [simp]: "last_or b [] = b" "last_or b (a # ps) = last_or (Some a) ps" "last_or b (xs @ a # ys) = last_or (Some a) ys"
  by (auto simp: last_or_def)

lemma backs_append [simp]: "backs h b (xs @ ys) \<longleftrightarrow> backs h b xs \<and> backs h (last_or b xs) ys"
  by (induction xs arbitrary: b) auto

lemma backs_same: "\<forall>a\<in>set xs. zback h' a = zback h a \<Longrightarrow> backs h' b xs = backs h b xs"
  by (induction xs arbitrary: b) auto

text \<open>A node that carries an element.\<close>

definition node_ok :: "'s zheap \<Rightarrow> nat \<Rightarrow> zaddr \<Rightarrow> bool" where
  "node_ok h k a \<longleftrightarrow> (\<exists>e s b m. meta h a = Some (Some e, s, b, m) \<and> sds_ok e \<and> 1 \<le> m \<and> m \<le> k)"

text \<open>The links and levels, before the number and the order of the entries are considered.\<close>

definition zsl_links :: "'s zheap \<Rightarrow> zaddr \<Rightarrow> nat \<Rightarrow> zaddr list \<Rightarrow> bool" where
  "zsl_links h hdr k ps \<longleftrightarrow>
     distinct (hdr # ps) \<and> 1 \<le> k \<and> k \<le> ZSKIPLIST_MAXLEVEL \<and> (\<exists>s b. meta h hdr = Some (None, s, b, ZSKIPLIST_MAXLEVEL)) \<and>
     (\<forall>a\<in>set ps. node_ok h k a) \<and> (\<forall>i<k. lseg h i hdr 0 ps) \<and>
     (\<forall>i. k \<le> i \<and> i < ZSKIPLIST_MAXLEVEL \<longrightarrow> (\<exists>l. get_level h hdr i = Some l \<and> forward l = None)) \<and>
     backs h None ps"

definition zsl_ok :: "('s :: linorder) zheap \<Rightarrow> zskiplist \<Rightarrow> zaddr list \<Rightarrow> bool" where
  "zsl_ok h z ps \<longleftrightarrow>
     zsl_links h (header z) (level z) ps \<and> (level z = 1 \<or> (\<exists>a\<in>set ps. lv h a = level z)) \<and>
     ztail z = last_or None ps \<and> zlength z = length ps \<and> length ps < 2 ^ 32 \<and>
     sorted_wrt key_less (map (zkey h) ps)"

lemma node_ok_lv: "node_ok h k a \<Longrightarrow> 1 \<le> lv h a \<and> lv h a \<le> k \<and> h a \<noteq> None"
  by (auto simp: node_ok_def lv_meta meta_def)

lemma node_ok_meta: "meta h' a = meta h a \<Longrightarrow> node_ok h' k a = node_ok h k a"
  by (simp add: node_ok_def)

lemma links_lv: "zsl_links h hdr k ps \<Longrightarrow> lv h hdr = ZSKIPLIST_MAXLEVEL"
  by (auto simp: zsl_links_def lv_meta)

text \<open>Above the levels of the nodes a chain is a single link from the header.\<close>

lemma lseg_above: "\<forall>b\<in>set ps. lv h b \<le> i \<Longrightarrow>
  (lseg h i a d ps \<longleftrightarrow> get_level h a i = Some \<lparr>forward = None, span = d + length ps\<rparr>) \<and> lastat h i a d ps = (a, d + length ps)"
  by (induction ps arbitrary: d) auto

section \<open>One level of an insertion and of a deletion\<close>

lemma lseg_insert:
  fixes h h' :: "'s zheap"
  assumes "lseg h i hdr 0 (xs @ ys)" "lastat h i hdr 0 xs = (u, e)" "get_level h u i = Some l"
    "distinct (hdr # xs @ x # ys)" "\<forall>b\<in>set (hdr # xs @ ys). lv h' b = lv h b"
    "\<forall>b\<in>set (hdr # xs @ ys) - {u}. get_level h' b i = get_level h b i"
    "if i < lv h' x then get_level h' u i = Some \<lparr>forward = Some x, span = e + 1\<rparr> \<and>
        get_level h' x i = Some \<lparr>forward = forward l, span = span l - e\<rparr>
     else get_level h' u i = Some (l\<lparr>span := span l + 1\<rparr>)"
  shows "lseg h' i hdr 0 (xs @ x # ys)"
proof -
  have p: "lpart h i hdr 0 xs" "lseg h i u e ys" using assms(1,2) by (simp_all add: lseg_append)
  have um: "u \<in> set (hdr # xs)" using lastat_mem [of h i hdr 0 xs] assms(2) by simp
  have "lpart h' i hdr 0 xs"
    using lpart_same [of xs h' h hdr i 0] p(1) assms(2,4-6) by auto
  moreover have "lastat h' i hdr 0 xs = (u, e)" using lastat_same [of xs h' h i hdr 0] assms(2,5) by simp
  moreover have sl: "same_level i (set ys) h h'" using assms(4-6) um by (auto simp: same_level_def)
  moreover have le: "e \<le> span l" using lseg_first [OF p(2) assms(3)] by simp
  have "lseg h' i u e (x # ys)"
  proof (cases "i < lv h' x")
    case True
    then have "lseg h' i x 0 ys" using lseg_retarget [OF p(2) sl assms(3), of x 0] assms(7) by (cases l) simp
    then show ?thesis using True assms(7) by simp
  next
    case False
    then have "lseg h' i u (e + 1) ys" using lseg_retarget [OF p(2) sl assms(3), of u "e + 1"] assms(7) le by simp
    then show ?thesis using False by simp
  qed
  ultimately show ?thesis by (simp add: lseg_append)
qed

lemma lseg_delete:
  fixes h h' :: "'s zheap"
  assumes "lseg h i hdr 0 (xs @ x # ys)" "lastat h i hdr 0 xs = (u, e)" "get_level h u i = Some l"
    "distinct (hdr # xs @ x # ys)" "\<forall>b\<in>set (hdr # xs @ ys). lv h' b = lv h b"
    "\<forall>b\<in>set (hdr # xs @ ys) - {u}. get_level h' b i = get_level h b i"
    "if i < lv h x then \<exists>xl. get_level h x i = Some xl \<and> get_level h' u i = Some \<lparr>forward = forward xl, span = span l + span xl - 1\<rparr>
     else get_level h' u i = Some (l\<lparr>span := span l - 1\<rparr>)"
  shows "lseg h' i hdr 0 (xs @ ys)"
proof -
  have p: "lpart h i hdr 0 xs" "lseg h i u e (x # ys)" using assms(1) unfolding lseg_append assms(2) by (auto split: if_splits)
  have um: "u \<in> set (hdr # xs)" using lastat_mem [of h i hdr 0 xs] assms(2) by simp
  have "lpart h' i hdr 0 xs"
    using lpart_same [of xs h' h hdr i 0] p(1) assms(2,4-6) by auto
  moreover have "lastat h' i hdr 0 xs = (u, e)" using lastat_same [of xs h' h i hdr 0] assms(2,5) by simp
  moreover have sl: "same_level i (set ys) h h'" using assms(4-6) um by (auto simp: same_level_def)
  have "lseg h' i u e ys"
  proof (cases "i < lv h x")
    case True
    then have q: "l = \<lparr>forward = Some x, span = e + 1\<rparr>" "lseg h i x 0 ys" using p(2) assms(3) by auto
    obtain xl where xl: "get_level h x i = Some xl" "get_level h' u i = Some \<lparr>forward = forward xl, span = span l + span xl - 1\<rparr>"
      using assms(7) True by auto
    then show ?thesis using lseg_retarget [OF q(2) sl xl(1), of u e] q(1) by (cases xl) (simp add: add.commute)
  next
    case False
    then have q: "lseg h i u (e + 1) ys" using p(2) by simp
    have "e + 1 \<le> span l" using lseg_first [OF q assms(3)] by simp
    then show ?thesis using lseg_retarget [OF q sl assms(3), of u e] assms(7) False by simp
  qed
  ultimately show ?thesis by (simp add: lseg_append)
qed

section \<open>The loops\<close>

text \<open>
  Every loop over the levels has the same form: round \<open>i\<close> works on level \<open>i\<close> alone, and what it makes of
  this level is given by \<open>E\<close>.
\<close>

lemma level_loop:
  fixes L :: "nat \<Rightarrow> 'u list \<Rightarrow> 's zheap \<Rightarrow> 's zheap option"
    and E :: "nat \<Rightarrow> 'u \<Rightarrow> (zaddr \<Rightarrow> zlevel option) \<Rightarrow> zaddr \<Rightarrow> zlevel option"
  assumes nil: "\<And>i h. L i [] h = Some h"
    and cons: "\<And>i u us h. L i (u # us) h = Option.bind (f i u h) (L (i + 1) us)"
    and step: "\<And>i u h. P i u (lv h) (\<lambda>a. get_level h a i) \<Longrightarrow> \<exists>h'. f i u h = Some h' \<and> meta h' = meta h \<and>
      (\<forall>a j. get_level h' a j = (if j = i then E i u (\<lambda>a. get_level h a i) a else get_level h a j))"
  shows "\<forall>k<length us. P (i + k) (us ! k) (lv h) (\<lambda>a. get_level h a (i + k)) \<Longrightarrow>
    \<exists>h'. L i us h = Some h' \<and> meta h' = meta h \<and>
      (\<forall>a j. get_level h' a j =
         (if i \<le> j \<and> j < i + length us then E j (us ! (j - i)) (\<lambda>a. get_level h a j) a else get_level h a j))"
proof (induction us arbitrary: i h)
  case (Cons u us)
  have "P i u (lv h) (\<lambda>a. get_level h a i)" using Cons.prems by force
  then obtain h1 where h1: "f i u h = Some h1" "meta h1 = meta h"
    "\<forall>a j. get_level h1 a j = (if j = i then E i u (\<lambda>a. get_level h a i) a else get_level h a j)"
    using step by blast
  have lv1: "lv h1 = lv h" by (simp add: fun_eq_iff lv_meta h1(2))
  have "\<forall>k<length us. P ((i + 1) + k) (us ! k) (lv h1) (\<lambda>a. get_level h1 a ((i + 1) + k))"
  proof (intro allI impI)
    fix k
    assume "k < length us"
    then show "P ((i + 1) + k) (us ! k) (lv h1) (\<lambda>a. get_level h1 a ((i + 1) + k))" using spec [OF Cons.prems, of "Suc k"] lv1 h1(3) by simp
  qed
  then obtain h' where h': "L (i + 1) us h1 = Some h'" "meta h' = meta h1"
    "\<forall>a j. get_level h' a j =
       (if i + 1 \<le> j \<and> j < i + 1 + length us then E j (us ! (j - (i + 1))) (\<lambda>a. get_level h1 a j) a else get_level h1 a j)"
    using Cons.IH by blast
  show ?case
  proof (intro exI conjI allI)
    show "L i (u # us) h = Some h'" using cons h1(1) h'(1) by simp
    show "meta h' = meta h" using h1(2) h'(2) by simp
    fix a j
    consider "j = i" | "i < j" "j < i + 1 + length us" | "j < i \<or> i + 1 + length us \<le> j" by linarith
    then show "get_level h' a j =
        (if i \<le> j \<and> j < i + length (u # us) then E j ((u # us) ! (j - i)) (\<lambda>a. get_level h a j) a else get_level h a j)"
    proof cases
      case 1
      then show ?thesis using h'(3) h1(3) by simp
    next
      case 2
      then have "(u # us) ! (j - i) = us ! (j - (i + 1))" "(\<lambda>a. get_level h1 a j) = (\<lambda>a. get_level h a j)"
        using h1(3) by (simp_all add: nth_Cons')
      then show ?thesis using 2 h'(3) h1(3) by simp
    next
      case 3
      then have "\<not> (i + 1 \<le> j \<and> j < i + 1 + length us)" "j \<noteq> i" "\<not> (i \<le> j \<and> j < i + length (u # us))" by auto
      then show ?thesis using h'(3) h1(3) by presburger
    qed
  qed
qed (use nil in auto)

lemma raise_loop_correct:
  assumes "m \<le> n" "n \<le> lv h hdr"
  shows "\<exists>h'. raise_loop hdr len [m..<n] h = Some h' \<and> meta h' = meta h \<and>
    (\<forall>a j. get_level h' a j =
       (if a = hdr \<and> m \<le> j \<and> j < n then map_option (\<lambda>l. l\<lparr>span := len\<rparr>) (get_level h a j) else get_level h a j))"
proof -
  let ?E = "\<lambda>i (u :: nat) g a. if a = hdr then map_option (\<lambda>l :: zlevel. l\<lparr>span := len\<rparr>) (g a) else g a"
  have "\<exists>h'. (\<lambda>i (us :: nat list). raise_loop hdr len [i..<i + length us]) m [m..<n] h = Some h' \<and> meta h' = meta h \<and>
      (\<forall>a j. get_level h' a j =
         (if m \<le> j \<and> j < m + length [m..<n] then ?E j ([m..<n] ! (j - m)) (\<lambda>a. get_level h a j) a else get_level h a j))"
  proof (rule level_loop [where f = "\<lambda>i u. put_level hdr i (\<lambda>l. l\<lparr>span := len\<rparr>)" and P = "\<lambda>i u v g. i < v hdr"])
    fix i and u :: nat and h :: "'a zheap"
    assume "i < lv h hdr"
    then obtain h' where "put_level hdr i (\<lambda>l. l\<lparr>span := len\<rparr>) h = Some h'" "meta h' = meta h"
      "\<forall>b j. get_level h' b j = (if b = hdr \<and> j = i then map_option (\<lambda>l. l\<lparr>span := len\<rparr>) (get_level h hdr i) else get_level h b j)"
      using put_level_Some by blast
    then show "\<exists>h'. put_level hdr i (\<lambda>l. l\<lparr>span := len\<rparr>) h = Some h' \<and> meta h' = meta h \<and>
      (\<forall>a j. get_level h' a j = (if j = i then ?E i u (\<lambda>a. get_level h a i) a else get_level h a j))"
      by auto
  next
    fix i u and us :: "nat list" and h :: "'a zheap"
    have "[i..<i + length (u # us)] = i # [i + 1..<i + 1 + length us]" by (simp add: upt_rec)
    then show "raise_loop hdr len [i..<i + length (u # us)] h =
      Option.bind (put_level hdr i (\<lambda>l. l\<lparr>span := len\<rparr>) h) (raise_loop hdr len [i + 1..<i + 1 + length us])"
      by simp
  qed (use assms in auto)
  then show ?thesis using assms(1) by auto
qed

text \<open>One round of the linking loop.\<close>

definition linked :: "zaddr \<Rightarrow> nat \<Rightarrow> nat \<Rightarrow> zlevel \<Rightarrow> zlevel \<times> zlevel" where
  "linked x rank0 r l =
     (\<lparr>forward = Some x, span = addw 32 (subw 32 rank0 r) 1\<rparr>,
      \<lparr>forward = forward l, span = subw 64 (span l) (subw 32 rank0 r)\<rparr>)"

lemma zlevel_upd: "(l :: zlevel)\<lparr>forward := a, span := b\<rparr> = \<lparr>forward = a, span = b\<rparr>"
  by (cases l) simp

lemma link_step:
  assumes "i < lv h u" "i < lv h x" "u \<noteq> x" "get_level h u i = Some l"
  shows "\<exists>h'. link_loop x rank0 i ((u, r) # us) h = link_loop x rank0 (i + 1) us h' \<and> meta h' = meta h \<and>
    (\<forall>a j. get_level h' a j =
       (if j = i \<and> a = u then Some (fst (linked x rank0 r l))
        else if j = i \<and> a = x then Some (snd (linked x rank0 r l)) else get_level h a j))"
proof -
  obtain xl where xl: "get_level h x i = Some xl" using get_level_Some assms(2) by blast
  define sx where "sx = subw 64 (span l) (subw 32 rank0 r)"
  define su where "su = addw 32 (subw 32 rank0 r) 1"
  obtain h1 where h1: "put_level x i (\<lambda>k. k\<lparr>forward := forward l\<rparr>) h = Some h1" "meta h1 = meta h"
    "\<And>b j. get_level h1 b j = (if b = x \<and> j = i then Some (xl\<lparr>forward := forward l\<rparr>) else get_level h b j)"
    using put_level_ex [OF xl] by blast
  have "get_level h1 u i = Some l" using assms(3,4) by (simp add: h1(3))
  from put_level_ex [OF this] obtain h2 where h2: "put_level u i (\<lambda>k. k\<lparr>forward := Some x\<rparr>) h1 = Some h2" "meta h2 = meta h1"
    "\<And>b j. get_level h2 b j = (if b = u \<and> j = i then Some (l\<lparr>forward := Some x\<rparr>) else get_level h1 b j)"
    by blast
  have g2: "get_level h2 u i = Some (l\<lparr>forward := Some x\<rparr>)" by (simp add: h2(3))
  have "get_level h2 x i = Some (xl\<lparr>forward := forward l\<rparr>)" using assms(3) by (simp add: h2(3) h1(3))
  from put_level_ex [OF this] obtain h3 where h3: "put_level x i (\<lambda>k. k\<lparr>span := sx\<rparr>) h2 = Some h3" "meta h3 = meta h2"
    "\<And>b j. get_level h3 b j = (if b = x \<and> j = i then Some (xl\<lparr>forward := forward l, span := sx\<rparr>) else get_level h2 b j)"
    by blast
  have "get_level h3 u i = Some (l\<lparr>forward := Some x\<rparr>)" using assms(3) g2 by (simp add: h3(3))
  from put_level_ex [OF this] obtain h4 where h4: "put_level u i (\<lambda>k. k\<lparr>span := su\<rparr>) h3 = Some h4" "meta h4 = meta h3"
    "\<And>b j. get_level h4 b j = (if b = u \<and> j = i then Some (l\<lparr>forward := Some x, span := su\<rparr>) else get_level h3 b j)"
    by blast
  have "link_loop x rank0 i ((u, r) # us) h = link_loop x rank0 (i + 1) us h4"
    using h4(1) h3(1) by (simp add: assms(4) h1(1) h2(1) g2 sx_def su_def)
  moreover have "get_level h4 a j =
       (if j = i \<and> a = u then Some (fst (linked x rank0 r l))
        else if j = i \<and> a = x then Some (snd (linked x rank0 r l)) else get_level h a j)" for a j
  proof -
    have "get_level h4 a j = (if a = u \<and> j = i then Some \<lparr>forward = Some x, span = su\<rparr>
        else if a = x \<and> j = i then Some \<lparr>forward = forward l, span = sx\<rparr> else get_level h a j)"
      by (subst h4(3), subst h3(3), subst h2(3), subst h1(3), subst zlevel_upd, subst zlevel_upd)
        (cases "j = i"; cases "a = u"; cases "a = x"; simp only: simp_thms if_True if_False)
    then show ?thesis unfolding linked_def fst_conv snd_conv sx_def [symmetric] su_def [symmetric] by (simp only: conj_commute)
  qed
  moreover have "meta h4 = meta h" using h1(2) h2(2) h3(2) h4(2) by simp
  ultimately show ?thesis by blast
qed

lemma link_loop_correct:
  assumes "\<forall>k<length us. i + k < lv h (fst (us ! k)) \<and> i + k < lv h x \<and> fst (us ! k) \<noteq> x"
  shows "\<exists>h'. link_loop x rank0 i us h = Some h' \<and> meta h' = meta h \<and>
    (\<forall>a j. get_level h' a j =
       (if i \<le> j \<and> j < i + length us then
          (let (u, r) = us ! (j - i); l = the (get_level h u j) in
           if a = u then Some (fst (linked x rank0 r l))
           else if a = x then Some (snd (linked x rank0 r l)) else get_level h a j)
        else get_level h a j))"
proof (rule level_loop [where L = "link_loop x rank0" and f = "\<lambda>i u. link_loop x rank0 i [u]"
      and P = "\<lambda>i u v g. i < v (fst u) \<and> i < v x \<and> fst u \<noteq> x"
      and E = "\<lambda>i ur g a. let (u, r) = ur; l = the (g u) in
           if a = u then Some (fst (linked x rank0 r l))
           else if a = x then Some (snd (linked x rank0 r l)) else g a"])
  fix i and ur :: "zaddr \<times> nat" and h :: "'a zheap"
  obtain u r where ur: "ur = (u, r)" by (cases ur)
  assume "i < lv h (fst ur) \<and> i < lv h x \<and> fst ur \<noteq> x"
  then have c: "i < lv h u" "i < lv h x" "u \<noteq> x" by (auto simp: ur)
  obtain l where l: "get_level h u i = Some l" using get_level_Some c(1) by blast
  obtain h' where "link_loop x rank0 i [(u, r)] h = Some h'" "meta h' = meta h"
    "\<forall>a j. get_level h' a j =
       (if j = i \<and> a = u then Some (fst (linked x rank0 r l))
        else if j = i \<and> a = x then Some (snd (linked x rank0 r l)) else get_level h a j)"
    using link_step [OF c l, of rank0 r "[]"] by auto
  then show "\<exists>h'. link_loop x rank0 i [ur] h = Some h' \<and> meta h' = meta h \<and>
    (\<forall>a j. get_level h' a j = (if j = i then
        (let (u, r) = ur; l = the (get_level h u i) in
         if a = u then Some (fst (linked x rank0 r l))
         else if a = x then Some (snd (linked x rank0 r l)) else get_level h a i) else get_level h a j))"
    using l by (auto simp: ur)
next
  fix i u us and h :: "'a zheap"
  show "link_loop x rank0 i (u # us) h = Option.bind (link_loop x rank0 i [u] h) (link_loop x rank0 (i + 1) us)"
    by (cases u) (simp add: Let_def)
qed (use assms in auto)

lemma untouched_loop_correct:
  assumes "\<forall>k<length us. i + k < lv h (fst (us ! k))"
  shows "\<exists>h'. untouched_loop i us h = Some h' \<and> meta h' = meta h \<and>
    (\<forall>a j. get_level h' a j =
       (if i \<le> j \<and> j < i + length us then
          (if a = fst (us ! (j - i)) then map_option (\<lambda>l. l\<lparr>span := addw 64 (span l) 1\<rparr>) (get_level h a j) else get_level h a j)
        else get_level h a j))"
proof (rule level_loop [where L = untouched_loop
      and f = "\<lambda>i u. put_level (fst u) i (\<lambda>l. l\<lparr>span := addw 64 (span l) 1\<rparr>)" and P = "\<lambda>i u v g. i < v (fst u)"
      and E = "\<lambda>i u g a. if a = fst u then map_option (\<lambda>l. l\<lparr>span := addw 64 (span l) 1\<rparr>) (g a) else g a"])
  fix i and u :: "zaddr \<times> nat" and h :: "'a zheap"
  let ?f = "\<lambda>l :: zlevel. l\<lparr>span := addw 64 (span l) 1\<rparr>"
  assume "i < lv h (fst u)"
  then obtain h' where "put_level (fst u) i ?f h = Some h'" "meta h' = meta h"
    "\<forall>b j. get_level h' b j = (if b = fst u \<and> j = i then map_option ?f (get_level h (fst u) i) else get_level h b j)"
    using put_level_Some by blast
  then show "\<exists>h'. put_level (fst u) i ?f h = Some h' \<and> meta h' = meta h \<and>
    (\<forall>a j. get_level h' a j = (if j = i then (if a = fst u then map_option ?f (get_level h a i) else get_level h a i) else get_level h a j))"
    by auto
next
  fix i u us and h :: "'a zheap"
  show "untouched_loop i (u # us) h =
    Option.bind (put_level (fst u) i (\<lambda>l. l\<lparr>span := addw 64 (span l) 1\<rparr>) h) (untouched_loop (i + 1) us)"
    by (cases u) simp
qed (use assms in auto)

end
