(* ===== verification/Zskiplist_Insert.thy ===== *)
theory Zskiplist_Insert
  imports Zskiplist_Correct
begin

text \<open>
  Insertion into a skip list and the random level of a node.
\<close>

section \<open>Linking a node\<close>

lemma stops_nth: "i < k \<Longrightarrow> lastat h i hdr 0 xs = (u, e) \<Longrightarrow> stops h hdr xs k ! i = (u, length xs - e)"
  by (simp add: stops_def)

lemma length_stops [simp]: "length (stops h hdr xs k) = k"
  by (simp add: stops_def)

lemma lseg0_first:
  "\<forall>b\<in>set ys. 0 < lv h b \<Longrightarrow> lseg h 0 a 0 ys \<Longrightarrow>
   \<exists>l. get_level h a 0 = Some l \<and> forward l = (case ys of [] \<Rightarrow> None | y # _ \<Rightarrow> Some y)"
  by (cases ys) auto

lemma lastat0: "\<forall>b\<in>set xs. 0 < lv h b \<Longrightarrow> lastat h 0 a 0 xs = (the (last_or (Some a) xs), 0)"
  by (induction xs arbitrary: a) auto

lemma meta_lv: "meta h' b = meta h b \<Longrightarrow> lv h' b = lv h b"
  by (simp add: lv_meta)

text \<open>Where the search for the position behind \<open>xs\<close> stops at level \<open>i\<close>.\<close>

lemma stop_at:
  assumes links: "zsl_links h hdr K (xs @ ys)" and iK: "i < K"
  shows "\<exists>u e l. lastat h i hdr 0 xs = (u, e) \<and> stops h hdr xs K ! i = (u, length xs - e) \<and> get_level h u i = Some l \<and>
    u \<in> set (hdr # xs) \<and> i < lv h u \<and> e \<le> span l \<and> e \<le> length xs \<and> span l \<le> length (xs @ ys)"
proof -
  have ok: "\<forall>i<K. lseg h i hdr 0 (xs @ ys)" "K \<le> 32" using links by (auto simp: zsl_links_def)
  obtain u e where ue: "lastat h i hdr 0 xs = (u, e)" by force
  have lu: "i < lv h u" using lastat_level [of i h hdr 0 xs] ue links_lv [OF links] ok(2) iK by simp
  obtain l where l: "get_level h u i = Some l" using get_level_Some lu by blast
  have "lseg h i hdr 0 (xs @ ys)" using ok(1) iK by blast
  then have "lseg h i u e ys" using ue by (simp add: lseg_append)
  from lseg_first [OF this l] show ?thesis
    using ue stops_nth [OF iK ue] l lu lastat_mem [of h i hdr 0 xs] lastat_le [of h i hdr 0 xs] by auto
qed

lemma link_levels:
  fixes h :: "'s zheap" and s ele jb jl
  assumes links: "zsl_links h hdr K (xs @ ys)" and L: "1 \<le> L" "L \<le> K" and fresh: "h x = None"
    and size: "length (xs @ ys) < 2 ^ 32 - 1"
  defines "h2 \<equiv> h(x := Some \<lparr>z_ele = Some ele, z_score = s, backward = jb, levels = map jl [0..<L]\<rparr>)"
  shows "\<exists>h3 h4. link_loop x (length xs) 0 (take L (stops h hdr xs K)) h2 = Some h3 \<and>
    untouched_loop L (drop L (stops h hdr xs K)) h3 = Some h4 \<and>
    meta h4 = (meta h)(x := Some (Some ele, s, jb, L)) \<and> (\<forall>i<K. lseg h4 i hdr 0 (xs @ x # ys)) \<and>
    (\<forall>i\<ge>K. get_level h4 hdr i = get_level h hdr i)"
proof -
  let ?us = "stops h hdr xs K"
  have ok: "\<forall>a\<in>set (xs @ ys). node_ok h K a" "distinct (hdr # xs @ ys)" "\<forall>i<K. lseg h i hdr 0 (xs @ ys)" "K \<le> 32"
    using links by (auto simp: zsl_links_def)
  have lvh: "lv h hdr = 32" using links_lv [OF links] .
  have xn: "x \<notin> set (hdr # xs @ ys)"
  proof
    assume "x \<in> set (hdr # xs @ ys)"
    then have "lv h x \<noteq> 0" using ok(1) lvh node_ok_lv by fastforce
    then show False using fresh by (simp add: lv_def)
  qed
  have lev2: "get_level h2 b j = get_level h b j" if "b \<noteq> x" for b j using that by (simp add: h2_def get_level_def)
  have meta2: "meta h2 = (meta h)(x := Some (Some ele, s, jb, L))" by (simp add: h2_def meta_def fun_eq_iff)
  have lv2: "lv h2 x = L" "\<And>b. b \<noteq> x \<Longrightarrow> lv h2 b = lv h b" by (simp_all add: lv_meta meta2)
  note stop = stop_at [OF links]
  have ux: "fst (?us ! i) \<noteq> x \<and> i < lv h2 (fst (?us ! i))" if iK: "i < K" for i
  proof -
    obtain u e where u: "?us ! i = (u, e)" "u \<in> set (hdr # xs)" "i < lv h u" using stop [OF iK] by blast
    then have "u \<noteq> x" using xn by auto
    then show ?thesis using u lv2(2) by simp
  qed
  have "\<forall>k<length (take L ?us). 0 + k < lv h2 (fst (take L ?us ! k)) \<and> 0 + k < lv h2 x \<and> fst (take L ?us ! k) \<noteq> x"
    using ux L lv2(1) by simp
  from link_loop_correct [OF this, of "length xs"] obtain h3 where h3:
    "link_loop x (length xs) 0 (take L ?us) h2 = Some h3" "meta h3 = meta h2"
    "\<And>a j. get_level h3 a j =
        (if j < L then
           (let (u, r) = ?us ! j; l = the (get_level h2 u j) in
            if a = u then Some (fst (linked x (length xs) r l))
            else if a = x then Some (snd (linked x (length xs) r l)) else get_level h2 a j)
         else get_level h2 a j)"
    using L by (auto simp: min_absorb2)
  have lv3: "lv h3 = lv h2" by (simp add: fun_eq_iff lv_meta h3(2))
  have "\<forall>k<length (drop L ?us). L + k < lv h3 (fst (drop L ?us ! k))" using ux L lv3 by simp
  from untouched_loop_correct [OF this] obtain h4 where h4:
    "untouched_loop L (drop L ?us) h3 = Some h4" "meta h4 = meta h3"
    "\<And>a j. get_level h4 a j =
       (if L \<le> j \<and> j < K then
          (if a = fst (?us ! j) then map_option (\<lambda>l. l\<lparr>span := addw 64 (span l) 1\<rparr>) (get_level h3 a j) else get_level h3 a j)
        else get_level h3 a j)"
    using L by auto
  have m4: "meta h4 = (meta h)(x := Some (Some ele, s, jb, L))" using h4(2) h3(2) meta2 by simp
  have lv4: "lv h4 x = L" "\<And>b. b \<noteq> x \<Longrightarrow> lv h4 b = lv h b" by (simp_all add: lv_meta m4)
  have seg: "lseg h4 i hdr 0 (xs @ x # ys)" if iK: "i < K" for i
  proof -
    obtain u e l where u: "lastat h i hdr 0 xs = (u, e)" "?us ! i = (u, length xs - e)" "get_level h u i = Some l"
      "u \<in> set (hdr # xs)" "i < lv h u" "e \<le> span l" "e \<le> length xs" "span l \<le> length (xs @ ys)"
      using stop [OF iK] by blast
    have ux: "u \<noteq> x" using u(4) xn by auto
    have s32: "subw 32 (length xs) (length xs - e) = e" using u(7) size by (simp add: subw_small)
    have a32: "addw 32 e 1 = e + 1" using u(7) size by (intro addw_small) simp
    have s64: "subw 64 (span l) e = span l - e" using u(6,8) size by (intro subw_small) simp_all
    have a64: "addw 64 (span l) 1 = span l + 1" using u(8) size by (intro addw_small) simp
    show ?thesis
    proof (rule lseg_insert [OF _ u(1,3)])
      show "lseg h i hdr 0 (xs @ ys)" using ok(3) iK by simp
      show "distinct (hdr # xs @ x # ys)" using ok(2) xn by auto
      show "\<forall>b\<in>set (hdr # xs @ ys). lv h4 b = lv h b" using lv4(2) xn by (metis (no_types))
      show "\<forall>b\<in>set (hdr # xs @ ys) - {u}. get_level h4 b i = get_level h b i"
      proof
        fix b
        assume b: "b \<in> set (hdr # xs @ ys) - {u}"
        then have "b \<noteq> x" using xn by blast
        then show "get_level h4 b i = get_level h b i" using b u(2) lev2 by (simp add: h4(3) h3(3) Let_def)
      qed
      show "if i < lv h4 x then get_level h4 u i = Some \<lparr>forward = Some x, span = e + 1\<rparr> \<and>
          get_level h4 x i = Some \<lparr>forward = forward l, span = span l - e\<rparr>
        else get_level h4 u i = Some (l\<lparr>span := span l + 1\<rparr>)"
      proof (cases "i < L")
        case True
        have "get_level h4 u i = Some \<lparr>forward = Some x, span = e + 1\<rparr>"
          using True u(2) by (simp add: h4(3) h3(3) Let_def linked_def s32 a32 del: One_nat_def)
        moreover have "get_level h4 x i = Some \<lparr>forward = forward l, span = span l - e\<rparr>"
          using True u(2,3) ux lev2 by (simp add: h4(3) h3(3) Let_def linked_def s32 s64)
        ultimately show ?thesis using True lv4(1) by simp
      next
        case False
        then have "get_level h4 u i = Some (l\<lparr>span := span l + 1\<rparr>)"
          using iK u(2,3) ux lev2 a64 by (simp add: h4(3) h3(3))
        then show ?thesis using False lv4(1) by simp
      qed
    qed
  qed
  have hd: "get_level h4 hdr i = get_level h hdr i" if "i \<ge> K" for i
    using that L xn lev2 by (simp add: h4(3) h3(3))
  show ?thesis using h3(1) h4(1) m4 seg hd by blast
qed

section \<open>What the backward links do not change\<close>

definition core :: "'s zheap \<Rightarrow> zaddr \<Rightarrow> (sds option \<times> 's \<times> nat) option" where
  "core h a = map_option (\<lambda>n. (z_ele n, z_score n, length (levels n))) (h a)"

lemma core_meta: "core h a = map_option (\<lambda>(e, s, b, k). (e, s, k)) (meta h a)"
  by (simp add: core_def meta_def option.map_comp comp_def)

lemma lv_core: "lv h a = (case core h a of None \<Rightarrow> 0 | Some (e, s, k) \<Rightarrow> k)"
  by (simp add: lv_def core_def split: option.split)

lemma zkey_core: "zkey h a = (case core h a of Some (e, s, k) \<Rightarrow> (s, text_of (the e)) | None \<Rightarrow> undefined)"
  by (simp add: zkey_def core_def meta_def split: option.split)

lemma node_ok_core: "node_ok h k a \<longleftrightarrow> (\<exists>e s m. core h a = Some (Some e, s, m) \<and> sds_ok e \<and> 1 \<le> m \<and> m \<le> k)"
  by (auto simp: node_ok_def core_def meta_def)

lemma put_back_ex:
  assumes "h a \<noteq> None"
  obtains h' where "put_back a b h = Some h'" "get_level h' = get_level h" "core h' = core h" "zback h' = (zback h)(a := b)"
proof -
  obtain n where n: "h a = Some n" using assms by auto
  show thesis
  proof (rule that)
    show "put_back a b h = Some (h(a := Some (n\<lparr>backward := b\<rparr>)))" using n by (simp add: put_back_def)
    show "get_level (h(a := Some (n\<lparr>backward := b\<rparr>))) = get_level h" using n by (auto simp: get_level_def fun_eq_iff)
    show "core (h(a := Some (n\<lparr>backward := b\<rparr>))) = core h" using n by (auto simp: core_def fun_eq_iff)
    show "zback (h(a := Some (n\<lparr>backward := b\<rparr>))) = (zback h)(a := b)" using n by (auto simp: zback_def meta_def fun_eq_iff)
  qed
qed

lemma lseg_cong: "lv h' = lv h \<Longrightarrow> get_level h' = get_level h \<Longrightarrow> lseg h' i a d xs = lseg h i a d xs"
  by (induction xs arbitrary: a d) auto

text \<open>The invariant in terms of the levels, the contents and the backward links.\<close>

lemma zsl_links_core:
  "zsl_links h hdr k ps \<longleftrightarrow>
     distinct (hdr # ps) \<and> 1 \<le> k \<and> k \<le> ZSKIPLIST_MAXLEVEL \<and> (\<exists>s. core h hdr = Some (None, s, ZSKIPLIST_MAXLEVEL)) \<and>
     (\<forall>a\<in>set ps. node_ok h k a) \<and> (\<forall>i<k. lseg h i hdr 0 ps) \<and>
     (\<forall>i. k \<le> i \<and> i < ZSKIPLIST_MAXLEVEL \<longrightarrow> (\<exists>l. get_level h hdr i = Some l \<and> forward l = None)) \<and>
     backs h None ps"
  by (auto simp: zsl_links_def core_meta)

section \<open>Insertion\<close>

lemma links_insert:
  assumes links: "zsl_links h hdr K (xs @ ys)" and L: "1 \<le> L" "L \<le> K" and fresh: "h x = None"
    and ele: "sds_ok ele"
    and h4: "meta h4 = (meta h)(x := Some (Some ele, s, jb, L))" "\<forall>i<K. lseg h4 i hdr 0 (xs @ x # ys)"
      "\<forall>i\<ge>K. get_level h4 hdr i = get_level h hdr i"
  obtains h5 h6 where "put_back x (last_or None xs) h4 = Some h5"
    "\<exists>l. get_level h5 x 0 = Some l \<and> forward l = (case ys of [] \<Rightarrow> None | y # _ \<Rightarrow> Some y)"
    "(case ys of [] \<Rightarrow> Some h5 | y # _ \<Rightarrow> put_back y (Some x) h5) = Some h6"
    "zsl_links h6 hdr K (xs @ x # ys)" "core h6 = (core h)(x := Some (Some ele, s, L))"
proof -
  have ok: "\<forall>a\<in>set (xs @ ys). node_ok h K a" "distinct (hdr # xs @ ys)" "K \<le> 32" "1 \<le> K"
    using links by (auto simp: zsl_links_def)
  have xn: "x \<notin> set (hdr # xs @ ys)"
  proof
    assume "x \<in> set (hdr # xs @ ys)"
    then have "lv h x \<noteq> 0" using ok(1) links_lv [OF links] node_ok_lv by fastforce
    then show False using fresh by (simp add: lv_def)
  qed
  have core4: "core h4 = (core h)(x := Some (Some ele, s, L))" by (simp add: fun_eq_iff core_meta h4(1))
  have "h4 x \<noteq> None" using fun_cong [OF core4, of x] by (auto simp: core_def)
  from put_back_ex [of h4 x, OF this] obtain h5 where h5: "put_back x (last_or None xs) h4 = Some h5" "get_level h5 = get_level h4"
    "core h5 = core h4" "zback h5 = (zback h4)(x := last_or None xs)" by blast
  have lv4: "lv h4 b = lv h b" if "b \<noteq> x" for b using that by (simp add: lv_core core4)
  have pos: "0 < lv h4 b" if "b \<in> set (xs @ x # ys)" for b
  proof (cases "b = x")
    case True
    then show ?thesis using L(1) by (simp add: lv_core core4)
  next
    case False
    then have "node_ok h K b" using that ok(1) by auto
    then show ?thesis using lv4 [OF False] node_ok_lv by fastforce
  qed
  have "lseg h4 0 hdr 0 ((xs @ [x]) @ ys)" using h4(2) ok(4) by auto
  then have "lseg h4 0 x 0 ys" using pos unfolding lseg_append lastat_append by auto
  from lseg0_first [OF _ this] pos have fw: "\<exists>l. get_level h5 x 0 = Some l \<and> forward l = (case ys of [] \<Rightarrow> None | y # _ \<Rightarrow> Some y)"
    by (simp add: h5(2))
  have "\<exists>h6. (case ys of [] \<Rightarrow> Some h5 | y # _ \<Rightarrow> put_back y (Some x) h5) = Some h6 \<and> get_level h6 = get_level h4 \<and>
     core h6 = core h4 \<and> zback h6 = (case ys of [] \<Rightarrow> zback h5 | y # _ \<Rightarrow> (zback h5)(y := Some x))"
  proof (cases ys)
    case (Cons y ys')
    have "core h5 y \<noteq> None" using pos [of y] Cons h5(3) by (auto simp: lv_core split: option.splits)
    then have "h5 y \<noteq> None" by (auto simp: core_def)
    from put_back_ex [of h5 y, OF this] obtain h6 where "put_back y (Some x) h5 = Some h6" "get_level h6 = get_level h5"
      "core h6 = core h5" "zback h6 = (zback h5)(y := Some x)" by blast
    then show ?thesis using Cons h5(2,3) by simp
  qed (use h5 in simp)
  then obtain h6 where h6: "(case ys of [] \<Rightarrow> Some h5 | y # _ \<Rightarrow> put_back y (Some x) h5) = Some h6" "get_level h6 = get_level h4"
     "core h6 = core h4" "zback h6 = (case ys of [] \<Rightarrow> zback h5 | y # _ \<Rightarrow> (zback h5)(y := Some x))" by blast
  have z4: "zback h4 b = zback h b" if "b \<noteq> x" for b using that by (simp add: zback_def h4(1))
  have bk: "backs h None xs" "backs h (last_or None xs) ys" using links by (auto simp: zsl_links_def)
  have dj: "set xs \<inter> set ys = {}" "distinct ys" using ok(2) by auto
  have "zback h6 b = zback h b" if "b \<in> set xs" for b
  proof -
    have "b \<noteq> x" "b \<notin> set ys" using that xn dj(1) by auto
    then show ?thesis using h6(4) h5(4) z4 by (cases ys) auto
  qed
  then have b1: "backs h6 None xs" using bk(1) backs_same by metis
  have b2: "zback h6 x = last_or None xs" using h6(4) h5(4) xn by (cases ys) auto
  have b3: "backs h6 (Some x) ys"
  proof (cases ys)
    case (Cons y ys')
    have "\<forall>b\<in>set ys'. zback h6 b = zback h b"
    proof
      fix b
      assume "b \<in> set ys'"
      then have "b \<noteq> x" "b \<noteq> y" using xn dj(2) Cons by auto
      then show "zback h6 b = zback h b" using h6(4) h5(4) z4 Cons by auto
    qed
    then show ?thesis using Cons bk(2) backs_same [of ys' h6 h "Some y"] h6(4) by simp
  qed simp
  have "zsl_links h6 hdr K (xs @ x # ys)"
    unfolding zsl_links_core
  proof (intro conjI)
    show "distinct (hdr # xs @ x # ys)" using ok(2) xn by auto
    show "\<exists>s. core h6 hdr = Some (None, s, 32)" using links xn by (auto simp: zsl_links_core h6(3) core4)
    show "\<forall>a\<in>set (xs @ x # ys). node_ok h6 K a"
    proof
      fix a
      assume "a \<in> set (xs @ x # ys)"
      then show "node_ok h6 K a" using ok(1) ele L by (cases "a = x") (auto simp: node_ok_core h6(3) core4)
    qed
    show "\<forall>i<K. lseg h6 i hdr 0 (xs @ x # ys)" using h4(2) lseg_cong [OF _ h6(2)] by (simp add: fun_eq_iff lv_core h6(3))
    show "\<forall>i. K \<le> i \<and> i < 32 \<longrightarrow> (\<exists>l. get_level h6 hdr i = Some l \<and> forward l = None)"
      using links h4(3) h6(2) by (simp add: zsl_links_core)
    show "backs h6 None (xs @ x # ys)" using b1 b2 b3 by simp
  qed (use ok in auto)
  then show thesis using that [OF h5(1) fw h6(1)] h6(3) core4 by simp
qed

lemma links_raise:
  assumes links: "zsl_links h hdr k ps" and L: "k \<le> L" "L \<le> ZSKIPLIST_MAXLEVEL"
  obtains h' where "raise_loop hdr (length ps) [k..<L] h = Some h'" "meta h' = meta h" "zsl_links h' hdr L ps"
    "\<And>xs ys. ps = xs @ ys \<Longrightarrow> stops h hdr xs k @ replicate (L - k) (hdr, 0) = stops h' hdr xs L"
proof -
  have lvh: "lv h hdr = 32" using links_lv [OF links] .
  have ok: "\<forall>a\<in>set ps. node_ok h k a" "hdr \<notin> set ps" "\<forall>i<k. lseg h i hdr 0 ps"
    "\<And>i. k \<le> i \<Longrightarrow> i < 32 \<Longrightarrow> \<exists>l. get_level h hdr i = Some l \<and> forward l = None"
    using links by (auto simp: zsl_links_def)
  have "L \<le> lv h hdr" using L(2) lvh by simp
  from raise_loop_correct [OF L(1) this, of "length ps"] obtain h' where h':
    "raise_loop hdr (length ps) [k..<L] h = Some h'" "meta h' = meta h"
    "\<And>a j. get_level h' a j =
       (if a = hdr \<and> k \<le> j \<and> j < L then map_option (\<lambda>l. l\<lparr>span := length ps\<rparr>) (get_level h a j) else get_level h a j)"
    by blast
  have lv': "lv h' = lv h" by (simp add: fun_eq_iff lv_meta h'(2))
  have above: "\<forall>b\<in>set ps. lv h' b \<le> i" if "k \<le> i" for i
  proof
    fix b
    assume "b \<in> set ps"
    then have "node_ok h k b" using ok(1) by blast
    then show "lv h' b \<le> i" using that node_ok_lv by (fastforce simp: lv')
  qed
  have seg: "lseg h' i hdr 0 ps" if iL: "i < L" for i
  proof (cases "i < k")
    case True
    then have "get_level h' a i = get_level h a i" for a by (simp add: h'(3))
    then have "lseg h' i hdr 0 ps = lseg h i hdr 0 ps" by (intro lseg_same) (simp_all add: same_level_def lv')
    then show ?thesis using ok(3) True by blast
  next
    case False
    then obtain l where l: "get_level h hdr i = Some l" "forward l = None" using ok(4) [of i] iL L(2) by auto
    then have "get_level h' hdr i = Some \<lparr>forward = None, span = length ps\<rparr>" using False iL by (cases l) (simp add: h'(3))
    then show ?thesis using lseg_above [OF above] False by simp
  qed
  have st: "stops h hdr xs k @ replicate (L - k) (hdr, 0) = stops h' hdr xs L" if "ps = xs @ ys" for xs ys
  proof (rule nth_equalityI)
    fix i
    assume "i < length (stops h hdr xs k @ replicate (L - k) (hdr, 0))"
    then have iL: "i < L" using L(1) by simp
    show "(stops h hdr xs k @ replicate (L - k) (hdr, 0)) ! i = stops h' hdr xs L ! i"
    proof (cases "i < k")
      case True
      have "lastat h' i hdr 0 xs = lastat h i hdr 0 xs" by (rule lastat_same) (simp add: lv')
      then show ?thesis using True iL by (simp add: stops_def nth_append)
    next
      case False
      have "\<forall>b\<in>set xs. lv h' b \<le> i" using above [of i] False that by auto
      then have "lastat h' i hdr 0 xs = (hdr, 0 + length xs)" using lseg_above by blast
      then show ?thesis using False iL by (simp add: stops_def nth_append)
    qed
  qed (use L(1) in simp)
  have "zsl_links h' hdr L ps"
    unfolding zsl_links_def
  proof (intro conjI)
    show "\<forall>a\<in>set ps. node_ok h' L a" using ok(1) L(1) by (fastforce simp: node_ok_def h'(2))
    show "\<forall>i. L \<le> i \<and> i < 32 \<longrightarrow> (\<exists>l. get_level h' hdr i = Some l \<and> forward l = None)"
      using ok(4) L(1) by (simp add: h'(3))
    show "backs h' None ps" using links backs_same [of ps h' h None] by (simp add: zsl_links_def zback_def h'(2))
  qed (use links L h'(2) seg in \<open>auto simp: zsl_links_def\<close>)
  then show thesis using that h'(1,2) st by blast
qed

section \<open>Searching for an entry\<close>

lemma node_ok_key:
  assumes "node_ok h k a"
  obtains n e where "h a = Some n" "z_ele n = Some e" "sds_ok e" "zkey h a = (z_score n, text_of e)"
  using assms by (auto simp: node_ok_def meta_def zkey_def)

lemma sdscmp_less: "sds_ok a \<Longrightarrow> sds_ok b \<Longrightarrow> sdscmp a b < 0 \<longleftrightarrow> byte_less (text_of a) (text_of b)"
  by (simp add: sdscmp_eq cmp_spec_def)

lemma sdscmp_zero: "sds_ok a \<Longrightarrow> sds_ok b \<Longrightarrow> sdscmp a b = 0 \<longleftrightarrow> text_of a = text_of b"
  using byte_less_antisym by (auto simp: sdscmp_eq cmp_spec_def)

lemma down_closed_prefix:
  assumes "sorted_wrt R (map f ps)" "\<And>a b. R a b \<Longrightarrow> Q b \<Longrightarrow> Q a" "j < length ps"
  shows "Q (f (ps ! j)) \<longleftrightarrow> j < length (takeWhile (\<lambda>a. Q (f a)) ps)"
proof
  assume q: "Q (f (ps ! j))"
  let ?l = "length (takeWhile (\<lambda>a. Q (f a)) ps)"
  show "j < ?l"
  proof (rule ccontr)
    assume "\<not> j < ?l"
    then have l: "?l \<le> j" "?l < length ps" using assms(3) by auto
    then have n: "\<not> Q (f (ps ! ?l))" using nth_length_takeWhile by blast
    then have "?l < j" using q l(1) by (metis le_neq_implies_less)
    then have "R (f (ps ! ?l)) (f (ps ! j))" using assms(1,3) l(2) by (simp add: sorted_wrt_iff_nth_less)
    then show False using assms(2) q n by blast
  qed
next
  assume "j < length (takeWhile (\<lambda>a. Q (f a)) ps)"
  then show "Q (f (ps ! j))" by (metis nth_mem set_takeWhileD takeWhile_nth)
qed

abbreviation zprefix :: "(('s \<times> string) \<Rightarrow> bool) \<Rightarrow> 's zheap \<Rightarrow> zaddr list \<Rightarrow> zaddr list" where
  "zprefix Q h ps \<equiv> takeWhile (\<lambda>a. Q (zkey h a)) ps"

lemma cuts_prefix:
  assumes "sorted_wrt key_less (map (zkey h) ps)" "\<And>a b. key_less a b \<Longrightarrow> Q b \<Longrightarrow> Q a"
    "\<And>a. a \<in> set ps \<Longrightarrow> \<exists>n. h a = Some n \<and> (\<forall>r. cond r n = Some (Q (zkey h a)))"
  shows "cuts h cond 0 ps (length (zprefix Q h ps))"
  unfolding cuts_def
proof (intro allI impI)
  fix j
  assume j: "j < length ps"
  then obtain n where "h (ps ! j) = Some n" "\<forall>r. cond r n = Some (Q (zkey h (ps ! j)))" using assms(3) by force
  then show "\<exists>n. h (ps ! j) = Some n \<and> cond (0 + j + 1) n = Some (j < length (zprefix Q h ps))"
    using down_closed_prefix [OF assms(1,2) j] by simp
qed

lemma zsl_before_key:
  assumes "node_ok h k a" "sds_ok ele"
  shows "\<exists>n. h a = Some n \<and> (\<forall>r. zsl_before score ele r n = Some (key_less (zkey h a) (score, text_of ele)))"
  using assms(1)
proof (rule node_ok_key)
  fix n e
  assume "h a = Some n" "z_ele n = Some e" "sds_ok e" "zkey h a = (z_score n, text_of e)"
  then show ?thesis using assms(2) by (auto simp: zsl_before_def sdscmp_less)
qed

lemma zsl_descend_prefix:
  assumes "\<forall>i<k. lseg h i hdr 0 ps" "cuts h cond 0 ps (length (zprefix Q h ps))" "length ps < 2 ^ w"
  shows "zsl_descend h cond w k 0 hdr = Some (stops h hdr (zprefix Q h ps) k)"
proof -
  let ?xs = "zprefix Q h ps" and ?ys = "dropWhile (\<lambda>a. Q (zkey h a)) ps"
  have s: "?xs @ ?ys = ps" by simp
  have "\<forall>i<k. lseg h i hdr 0 (?xs @ ?ys)" "cuts h cond 0 (?xs @ ?ys) (length ?xs)" "length (?xs @ ?ys) < 2 ^ w"
    unfolding s using assms .
  from zsl_descend_correct [OF this, of "[]" ?xs hdr] show ?thesis by (simp add: on_path_def)
qed

lemma zsl_descend_ok:
  assumes "zsl_links h hdr k ps" "sorted_wrt key_less (map (zkey h) ps)" "length ps < 2 ^ w" "sds_ok ele"
  shows "zsl_descend h (zsl_before score ele) w k 0 hdr =
    Some (stops h hdr (zprefix (\<lambda>e. key_less e (score, text_of ele)) h ps) k)"
proof (rule zsl_descend_prefix)
  have ok: "\<forall>a\<in>set ps. node_ok h k a" "\<forall>i<k. lseg h i hdr 0 ps" using assms(1) by (auto simp: zsl_links_def)
  show "cuts h (zsl_before score ele) 0 ps (length (zprefix (\<lambda>e. key_less e (score, text_of ele)) h ps))"
    using assms(2) key_less_trans zsl_before_key [OF _ assms(4)] ok(1) by (intro cuts_prefix) blast+
  show "\<forall>i<k. lseg h i hdr 0 ps" by (rule ok(2))
qed (rule assms(3))

section \<open>The level of a new node\<close>

lemma random_level_loop_ge: "random_level_loop m rs = Some k \<Longrightarrow> m \<le> k"
  by (induction m rs rule: random_level_loop.induct) (auto split: if_splits)

lemma zslRandomLevel_range: "zslRandomLevel rs = Some k \<Longrightarrow> 1 \<le> k \<and> k \<le> ZSKIPLIST_MAXLEVEL"
  using random_level_loop_ge [of 1 rs] by (auto simp: zslRandomLevel_def)

section \<open>The whole insertion\<close>

text \<open>Memory that is finite always has room for a new node.\<close>

definition zalloc_ok :: "'s zalloc \<Rightarrow> bool" where
  "zalloc_ok al \<longleftrightarrow> (\<forall>h. finite (dom h) \<longrightarrow> h (za_addr al h) = None)"

lemma dom_core: "dom (core h) = dom h"
  by (auto simp: core_def dom_def)

lemma dom_meta: "dom (meta h) = dom h"
  by (auto simp: meta_def dom_def)

lemma key_sorted_insert:
  assumes "sorted_wrt key_less (map f (xs @ ys))" "\<forall>a\<in>set xs. key_less (f a) k" "\<forall>a\<in>set ys. key_less k (f a)"
  shows "sorted_wrt key_less (map f xs @ k # map f ys)"
  using assms by (auto simp: sorted_wrt_append)

lemma after_prefix:
  assumes "sorted_wrt key_less (map f ps)" "k \<notin> f ` set ps" "a \<in> set (dropWhile (\<lambda>a. key_less (f a) k) ps)"
  shows "key_less k (f a)"
proof -
  obtain y ys where y: "dropWhile (\<lambda>a. key_less (f a) k) ps = y # ys" using assms(3) by (cases "dropWhile (\<lambda>a. key_less (f a) k) ps") auto
  have "sorted_wrt key_less (map f (takeWhile (\<lambda>a. key_less (f a) k) ps @ y # ys))" using assms(1) y by (metis takeWhile_dropWhile_id)
  then have "a = y \<or> key_less (f y) (f a)" using assms(3) y by (auto simp: sorted_wrt_append)
  moreover have "\<not> key_less (f y) k" using y by (metis hd_dropWhile list.distinct(1) list.sel(1))
  moreover have "y \<in> set ps" using y by (metis list.set_intros(1) set_dropWhileD)
  ultimately show ?thesis using key_less_total [of "f y" k] key_less_trans assms(2) by blast
qed

lemma zslInsert_correct:
  assumes ok: "zsl_ok h z ps" and fin: "finite (dom h)" and al: "zalloc_ok al" and L: "zslRandomLevel rs = Some L"
    and ele: "sds_ok ele" and new: "(s, text_of ele) \<notin> zkey h ` set ps" and size: "length ps < 2 ^ 32 - 1"
  defines "xs \<equiv> zprefix (\<lambda>e. key_less e (s, text_of ele)) h ps"
    and "ys \<equiv> dropWhile (\<lambda>a. key_less (zkey h a) (s, text_of ele)) ps"
  obtains h' z' x where "zslInsert al rs h z (Some s) ele = Some (h', z', x)" "zsl_ok h' z' (xs @ x # ys)" "h x = None"
    "header z' = header z" "core h' = (core h)(x := Some (Some ele, s, L))"
proof -
  let ?hdr = "header z"
  define K where "K = max (level z) L"
  have Lr: "1 \<le> L" "L \<le> 32" using zslRandomLevel_range [OF L] by auto
  have ps: "ps = xs @ ys" by (simp add: xs_def ys_def)
  have z: "zsl_links h ?hdr (level z) ps" "ztail z = last_or None ps" "zlength z = length ps"
    "sorted_wrt key_less (map (zkey h) ps)" "level z = 1 \<or> (\<exists>a\<in>set ps. lv h a = level z)"
    using ok by (auto simp: zsl_ok_def)
  have kz: "1 \<le> level z" "level z \<le> 32" using z(1) by (auto simp: zsl_links_def)
  define us0 where "us0 = stops h ?hdr xs (level z)"
  have desc: "zsl_descend h (zsl_before s ele) 32 (level z) 0 ?hdr = Some us0"
    unfolding xs_def us0_def using zsl_descend_ok [OF z(1,4) _ ele] size by simp
  have "\<exists>h1. (if L > level z then do {
               h \<leftarrow> raise_loop ?hdr (zlength z) [level z..<L] h;
               Some (h, us0 @ replicate (L - level z) (?hdr, 0), z\<lparr>level := L\<rparr>) }
             else Some (h, us0, z)) = Some (h1, stops h1 ?hdr xs K, z\<lparr>level := K\<rparr>) \<and>
           meta h1 = meta h \<and> zsl_links h1 ?hdr K ps"
  proof (cases "L > level z")
    case True
    then have "level z \<le> L" by simp
    from links_raise [OF z(1) this Lr(2)] obtain h1 where "raise_loop ?hdr (length ps) [level z..<L] h = Some h1" "meta h1 = meta h"
      "zsl_links h1 ?hdr L ps" "stops h ?hdr xs (level z) @ replicate (L - level z) (?hdr, 0) = stops h1 ?hdr xs L"
      using ps by metis
    then show ?thesis using True z(3) by (simp add: K_def max_def us0_def)
  next
    case False
    then show ?thesis using z(1) by (simp add: K_def max_def us0_def)
  qed
  then obtain h1 where h1: "(if L > level z then do {
               h \<leftarrow> raise_loop ?hdr (zlength z) [level z..<L] h;
               Some (h, us0 @ replicate (L - level z) (?hdr, 0), z\<lparr>level := L\<rparr>) }
             else Some (h, us0, z)) = Some (h1, stops h1 ?hdr xs K, z\<lparr>level := K\<rparr>)"
           "meta h1 = meta h" "zsl_links h1 ?hdr K (xs @ ys)"
    using ps by metis
  have core1: "core h1 = core h" by (simp add: fun_eq_iff core_meta h1(2))
  define x where "x = za_addr al h1"
  have d1: "dom h1 = dom h" using h1(2) dom_meta by metis
  have fresh: "h1 x = None" using al fin d1 by (simp add: zalloc_ok_def x_def)
  have K: "L \<le> K" "1 \<le> K" using Lr by (auto simp: K_def)
  have sz: "length (xs @ ys) < 2 ^ 32 - 1" using size ps by simp
  define h2 where "h2 = h1(x := Some \<lparr>z_ele = Some ele, z_score = s, backward = za_back al, levels = map (za_level al) [0..<L]\<rparr>)"
  from link_levels [OF h1(3) Lr(1) K(1) fresh sz, of ele s "za_back al" "za_level al"] obtain h3 h4 where h34:
    "link_loop x (length xs) 0 (take L (stops h1 ?hdr xs K)) h2 = Some h3"
    "untouched_loop L (drop L (stops h1 ?hdr xs K)) h3 = Some h4"
    "meta h4 = (meta h1)(x := Some (Some ele, s, za_back al, L))" "\<forall>i<K. lseg h4 i ?hdr 0 (xs @ x # ys)"
    "\<forall>i\<ge>K. get_level h4 ?hdr i = get_level h1 ?hdr i"
    unfolding h2_def by blast
  from links_insert [OF h1(3) Lr(1) K(1) fresh ele h34(3-5)] obtain h5 h6 where h56:
    "put_back x (last_or None xs) h4 = Some h5"
    "\<exists>l. get_level h5 x 0 = Some l \<and> forward l = (case ys of [] \<Rightarrow> None | y # _ \<Rightarrow> Some y)"
    "(case ys of [] \<Rightarrow> Some h5 | y # _ \<Rightarrow> put_back y (Some x) h5) = Some h6"
    "zsl_links h6 ?hdr K (xs @ x # ys)" "core h6 = (core h1)(x := Some (Some ele, s, L))" by blast
  from h56(2) obtain xl where xl: "get_level h5 x 0 = Some xl" "forward xl = (case ys of [] \<Rightarrow> None | y # _ \<Rightarrow> Some y)" by blast
  have lv0: "\<forall>b\<in>set xs. 0 < lv h1 b" using h1(3) node_ok_lv by (fastforce simp: zsl_links_def)
  have dh: "?hdr \<notin> set xs" using h1(3) by (auto simp: zsl_links_def)
  have s0: "stops h1 ?hdr xs K ! 0 = (the (last_or (Some ?hdr) xs), length xs)"
    using stops_nth [OF _ lastat0 [OF lv0]] K(2) by simp
  have lo: "(if the (last_or (Some ?hdr) xs) = ?hdr then None else Some (the (last_or (Some ?hdr) xs))) = last_or None xs"
    using dh by (cases xs rule: rev_cases) (auto simp: last_or_def)
  define z' where "z' = z\<lparr>level := K, ztail := last_or None (xs @ x # ys), zlength := length ps + 1\<rparr>"
  have tl: "ys \<noteq> [] \<Longrightarrow> ztail z = last_or None (xs @ x # ys)" using z(2) ps by (auto simp: last_or_def)
  have len: "addw 64 (zlength z) (Suc 0) = Suc (length ps)" using z(3) size by (simp add: addw_small)
  have "zslInsert al rs h z (Some s) ele = Some (h6, z', x)"
  proof (cases ys)
    case Nil
    then show ?thesis using xl h56(3) ps
      by (simp add: zslInsert_def desc L h1(1) zslCreateNode_def Let_def x_def [symmetric] h2_def [symmetric] s0 h34(1,2) lo h56(1) len z'_def)
  next
    case (Cons y ys')
    then show ?thesis using xl h56(3) tl ps
      by (simp add: zslInsert_def desc L h1(1) zslCreateNode_def Let_def x_def [symmetric] h2_def [symmetric] s0 h34(1,2) lo h56(1) len z'_def)
  qed
  moreover have "zsl_ok h6 z' (xs @ x # ys)"
  proof -
    have xn: "x \<notin> set ps" using h1(3) fresh node_ok_lv ps by (fastforce simp: zsl_links_def)
    have key: "zkey h6 b = zkey h b" if "b \<in> set ps" for b
      using that xn h56(5) by (auto simp: zkey_core core1)
    have kx: "zkey h6 x = (s, text_of ele)" by (simp add: zkey_core h56(5))
    have "sorted_wrt key_less (map (zkey h) xs @ (s, text_of ele) # map (zkey h) ys)"
    proof (rule key_sorted_insert)
      show "sorted_wrt key_less (map (zkey h) (xs @ ys))" using z(4) ps by simp
      show "\<forall>a\<in>set xs. key_less (zkey h a) (s, text_of ele)" unfolding xs_def by (meson set_takeWhileD)
      show "\<forall>a\<in>set ys. key_less (s, text_of ele) (zkey h a)"
        unfolding ys_def using after_prefix [OF z(4) new] by blast
    qed
    then have srt: "sorted_wrt key_less (map (zkey h6) (xs @ x # ys))" using key kx ps by (simp cong: map_cong)
    have mx: "K = 1 \<or> (\<exists>a\<in>set (xs @ x # ys). lv h6 a = K)"
    proof (cases "K = L")
      case True
      then show ?thesis by (simp add: lv_core h56(5))
    next
      case False
      then have "K = level z" by (auto simp: K_def)
      moreover have "lv h6 a = lv h a" if "a \<in> set ps" for a using that xn by (auto simp: lv_core h56(5) core1)
      ultimately show ?thesis using z(5) ps by auto
    qed
    show ?thesis using h56(4) srt mx size ps by (simp add: zsl_ok_def z'_def)
  qed
  moreover have "h x = None" using fresh d1 by blast
  moreover have "header z' = header z" by (simp add: z'_def)
  ultimately show thesis using that h56(5) core1 by metis
qed

end
