(* ===== verification/Zskiplist_Delete.thy ===== *)
theory Zskiplist_Delete
  imports Zskiplist_Insert
begin

text \<open>
  Deletion from a skip list: unlinking a node at each of its levels, lowering the level of the
  list, and the change of a score.
\<close>

section \<open>Unlinking a node\<close>

definition unlinked :: "zaddr \<Rightarrow> zlevel \<Rightarrow> zlevel \<Rightarrow> zlevel" where
  "unlinked x xl ul =
     (if forward ul = Some x then \<lparr>forward = forward xl, span = addw 64 (span ul) (subw 64 (span xl) 1)\<rparr>
      else ul\<lparr>span := subw 64 (span ul) 1\<rparr>)"

lemma unlink_step:
  assumes ul: "get_level h u i = Some ul" and x: "forward ul = Some x \<Longrightarrow> i < lv h x" "u \<noteq> x"
  shows "\<exists>h'. unlink_loop x i [u] h = Some h' \<and> meta h' = meta h \<and>
    (\<forall>a j. get_level h' a j = (if j = i \<and> a = u then Some (unlinked x (the (get_level h x i)) ul) else get_level h a j))"
proof (cases "forward ul = Some x")
  case True
  obtain xl where xl: "get_level h x i = Some xl" using x(1) [OF True] get_level_Some by blast
  define sp where "sp = addw 64 (span ul) (subw 64 (span xl) 1)"
  obtain h1 where h1: "put_level u i (\<lambda>l. l\<lparr>span := addw 64 (span l) (subw 64 (span xl) 1)\<rparr>) h = Some h1" "meta h1 = meta h"
    "\<And>b j. get_level h1 b j = (if b = u \<and> j = i then Some (ul\<lparr>span := sp\<rparr>) else get_level h b j)"
    using put_level_ex [OF ul] unfolding sp_def by blast
  have "get_level h1 u i = Some (ul\<lparr>span := sp\<rparr>)" by (simp add: h1(3))
  from put_level_ex [OF this] obtain h2 where h2: "put_level u i (\<lambda>l. l\<lparr>forward := forward xl\<rparr>) h1 = Some h2" "meta h2 = meta h1"
    "\<And>b j. get_level h2 b j = (if b = u \<and> j = i then Some (ul\<lparr>span := sp, forward := forward xl\<rparr>) else get_level h1 b j)"
    by blast
  have "ul\<lparr>span := sp, forward := forward xl\<rparr> = unlinked x xl ul" using True by (cases ul) (simp add: unlinked_def sp_def)
  then have "get_level h2 a j = (if j = i \<and> a = u then Some (unlinked x xl ul) else get_level h a j)" for a j
    by (simp add: h2(3) h1(3))
  moreover have "unlink_loop x i [u] h = Some h2" using ul True xl h1(1) h2(1) by simp
  moreover have "meta h2 = meta h" using h1(2) h2(2) by simp
  ultimately show ?thesis using xl by auto
next
  case False
  from put_level_ex [OF ul] obtain h1 where "put_level u i (\<lambda>l. l\<lparr>span := subw 64 (span l) 1\<rparr>) h = Some h1" "meta h1 = meta h"
    "\<And>b j. get_level h1 b j = (if b = u \<and> j = i then Some (ul\<lparr>span := subw 64 (span ul) 1\<rparr>) else get_level h b j)"
    by blast
  then show ?thesis using ul False by (simp add: unlinked_def)
qed

lemma unlink_loop_correct:
  assumes "\<forall>k<length us. \<exists>l. get_level h (us ! k) (i + k) = Some l \<and> (forward l = Some x \<longrightarrow> i + k < lv h x) \<and> us ! k \<noteq> x"
  shows "\<exists>h'. unlink_loop x i us h = Some h' \<and> meta h' = meta h \<and>
    (\<forall>a j. get_level h' a j =
       (if i \<le> j \<and> j < i + length us then
          (if a = us ! (j - i) then map_option (unlinked x (the (get_level h x j))) (get_level h a j) else get_level h a j)
        else get_level h a j))"
proof (rule level_loop [where L = "unlink_loop x" and f = "\<lambda>i u. unlink_loop x i [u]"
      and P = "\<lambda>i u v g. \<exists>l. g u = Some l \<and> (forward l = Some x \<longrightarrow> i < v x) \<and> u \<noteq> x"
      and E = "\<lambda>i u g a. if a = u then map_option (unlinked x (the (g x))) (g a) else g a"])
  fix i u and h :: "'a zheap"
  assume "\<exists>l. get_level h u i = Some l \<and> (forward l = Some x \<longrightarrow> i < lv h x) \<and> u \<noteq> x"
  then obtain l where l: "get_level h u i = Some l" "forward l = Some x \<Longrightarrow> i < lv h x" "u \<noteq> x" by blast
  from unlink_step [OF l] obtain h' where "unlink_loop x i [u] h = Some h'" "meta h' = meta h"
    "\<forall>a j. get_level h' a j = (if j = i \<and> a = u then Some (unlinked x (the (get_level h x i)) l) else get_level h a j)"
    by blast
  then show "\<exists>h'. unlink_loop x i [u] h = Some h' \<and> meta h' = meta h \<and>
    (\<forall>a j. get_level h' a j = (if j = i then (if a = u then map_option (unlinked x (the (get_level h x i))) (get_level h a i)
       else get_level h a i) else get_level h a j))"
    using l(1) by auto
next
  fix i u us and h :: "'a zheap"
  show "unlink_loop x i (u # us) h = Option.bind (unlink_loop x i [u] h) (unlink_loop x (i + 1) us)"
    by (cases "get_level h u i") auto
qed (use assms in auto)

text \<open>The sum of the spans is right also where the unlinked span is zero and its decrement wraps around.\<close>

lemma addw_subw: "1 \<le> a \<Longrightarrow> a + b < 2 ^ 64 \<Longrightarrow> addw 64 a (subw 64 b 1) = a + b - 1"
proof (cases "b = 0")
  case True
  assume h: "1 \<le> a" "a + b < 2 ^ 64"
  have e: "a + (2 ^ 64 - 1) = (a - 1) + 2 ^ 64" using h by simp
  have "subw 64 b 1 = 2 ^ 64 - 1" using True by (simp add: subw_def)
  then have "addw 64 a (subw 64 b 1) = (a - 1) mod 2 ^ 64" unfolding addw_def by (simp only: e mod_add_self2)
  then show ?thesis using True h by simp
next
  case False
  assume h: "1 \<le> a" "a + b < 2 ^ 64"
  then have "subw 64 b 1 = b - 1" using False by (intro subw_small) auto
  then show ?thesis using h False by (simp add: addw_def)
qed

lemma unlink_levels:
  fixes h :: "'s zheap"
  assumes links: "zsl_links h hdr K (xs @ x # ys)" and size: "length (xs @ x # ys) < 2 ^ 32"
  obtains h' where "unlink_loop x 0 (map fst (stops h hdr xs K)) h = Some h'" "meta h' = meta h"
    "\<forall>i<K. lseg h' i hdr 0 (xs @ ys)" "\<forall>i\<ge>K. get_level h' hdr i = get_level h hdr i" "\<forall>i. get_level h' x i = get_level h x i"
proof -
  let ?us = "stops h hdr xs K"
  have ok: "distinct (hdr # xs @ x # ys)" "\<forall>i<K. lseg h i hdr 0 (xs @ x # ys)" using links by (auto simp: zsl_links_def)
  have level: "\<exists>u e l. lastat h i hdr 0 xs = (u, e) \<and> ?us ! i = (u, length xs - e) \<and> get_level h u i = Some l \<and> u \<noteq> x \<and>
      (if i < lv h x then \<exists>xl. get_level h x i = Some xl \<and> forward l = Some x \<and> span l = e + 1 \<and> span l + span xl < 2 ^ 64
       else forward l \<noteq> Some x \<and> 1 \<le> span l \<and> span l < 2 ^ 64)" if iK: "i < K" for i
  proof -
    obtain u e l where u: "lastat h i hdr 0 xs = (u, e)" "?us ! i = (u, length xs - e)" "get_level h u i = Some l"
      "u \<in> set (hdr # xs)" "e \<le> length xs" "span l \<le> length (xs @ x # ys)"
      using stop_at [OF links iK] by blast
    have "u \<noteq> x" using u(4) ok(1) by auto
    have "lseg h i hdr 0 (xs @ x # ys)" using ok(2) iK by blast
    then have seg: "lseg h i u e (x # ys)" using u(1) unfolding lseg_append by (auto split: if_splits)
    show ?thesis
    proof (cases "i < lv h x")
      case True
      then obtain xl where xl: "get_level h x i = Some xl" using get_level_Some by blast
      have "l = \<lparr>forward = Some x, span = e + 1\<rparr>" "lseg h i x 0 ys" using seg True u(3) by auto
      moreover have "span xl \<le> length ys" using lseg_first [OF calculation(2) xl] by simp
      ultimately show ?thesis using u \<open>u \<noteq> x\<close> True xl size by auto
    next
      case False
      then have "lseg h i u (e + 1) ys" using seg by simp
      from lseg_first [OF this u(3)] have f: "e + 1 \<le> span l" "span l \<le> e + 1 + length ys"
        "\<And>f. forward l = Some f \<Longrightarrow> e + 1 < span l \<and> f = ys ! (span l - (e + 1) - 1)" by auto
      have "forward l \<noteq> Some x"
      proof
        assume "forward l = Some x"
        from f(3) [OF this] f(2) have "x \<in> set ys" by auto
        then show False using ok(1) by simp
      qed
      then show ?thesis using u \<open>u \<noteq> x\<close> False f(1) size by auto
    qed
  qed
  have "\<forall>k<length (map fst ?us). \<exists>l. get_level h (map fst ?us ! k) (0 + k) = Some l \<and>
      (forward l = Some x \<longrightarrow> 0 + k < lv h x) \<and> map fst ?us ! k \<noteq> x"
  proof (intro allI impI)
    fix k
    assume "k < length (map fst ?us)"
    then have k: "k < K" by simp
    from level [OF this] show "\<exists>l. get_level h (map fst ?us ! k) (0 + k) = Some l \<and>
      (forward l = Some x \<longrightarrow> 0 + k < lv h x) \<and> map fst ?us ! k \<noteq> x"
      using k by (auto split: if_splits)
  qed
  from unlink_loop_correct [OF this] obtain h' where h': "unlink_loop x 0 (map fst ?us) h = Some h'" "meta h' = meta h"
    "\<And>a j. get_level h' a j =
       (if j < K then
          (if a = map fst ?us ! j then map_option (unlinked x (the (get_level h x j))) (get_level h a j) else get_level h a j)
        else get_level h a j)"
    by auto
  have "lseg h' i hdr 0 (xs @ ys)" if iK: "i < K" for i
  proof -
    obtain u e l where u: "lastat h i hdr 0 xs = (u, e)" "?us ! i = (u, length xs - e)" "get_level h u i = Some l" "u \<noteq> x"
      "if i < lv h x then \<exists>xl. get_level h x i = Some xl \<and> forward l = Some x \<and> span l = e + 1 \<and> span l + span xl < 2 ^ 64
       else forward l \<noteq> Some x \<and> 1 \<le> span l \<and> span l < 2 ^ 64"
      using level [OF iK] by blast
    have us: "map fst ?us ! i = u" using u(2) iK by simp
    show ?thesis
    proof (rule lseg_delete [OF _ u(1,3) ok(1)])
      show "lseg h i hdr 0 (xs @ x # ys)" using ok(2) iK by blast
      show "\<forall>b\<in>set (hdr # xs @ ys). lv h' b = lv h b" by (simp add: lv_meta h'(2))
      show "\<forall>b\<in>set (hdr # xs @ ys) - {u}. get_level h' b i = get_level h b i" by (simp add: h'(3) us)
      show "if i < lv h x then \<exists>xl. get_level h x i = Some xl \<and> get_level h' u i = Some \<lparr>forward = forward xl, span = span l + span xl - 1\<rparr>
        else get_level h' u i = Some (l\<lparr>span := span l - 1\<rparr>)"
      proof (cases "i < lv h x")
        case True
        then obtain xl where xl: "get_level h x i = Some xl" "forward l = Some x" "span l = e + 1" "span l + span xl < 2 ^ 64"
          using u(5) by auto
        then have "addw 64 (span l) (subw 64 (span xl) 1) = span l + span xl - 1" by (intro addw_subw) auto
        then show ?thesis using True xl iK us u(3) by (simp add: h'(3) unlinked_def)
      next
        case False
        then have "forward l \<noteq> Some x" "subw 64 (span l) 1 = span l - 1" using u(5) by (auto intro: subw_small)
        then show ?thesis using False iK us u(3) by (simp add: h'(3) unlinked_def)
      qed
    qed
  qed
  moreover have "get_level h' x i = get_level h x i" for i
  proof (cases "i < K")
    case True
    then show ?thesis using level [OF True] by (auto simp: h'(3))
  qed (simp add: h'(3))
  ultimately show thesis using that h'(1,2) by (simp add: h'(3))
qed

section \<open>Lowering the level\<close>

lemma lseg_forward_None: "lseg h i a d ps \<Longrightarrow> get_level h a i = Some l \<Longrightarrow> forward l = None \<longleftrightarrow> (\<forall>b\<in>set ps. lv h b \<le> i)"
  by (induction ps arbitrary: d) (auto split: if_splits)

lemma links_lower:
  assumes "zsl_links h hdr (Suc (Suc k)) ps" "\<forall>b\<in>set ps. lv h b \<le> Suc k" "get_level h hdr (Suc k) = Some l" "forward l = None"
  shows "zsl_links h hdr (Suc k) ps"
proof -
  have n: "node_ok h (Suc k) a" if "a \<in> set ps" for a
    using assms(1,2) that by (fastforce simp: zsl_links_def node_ok_def lv_meta)
  have f: "\<exists>l. get_level h hdr i = Some l \<and> forward l = None" if "Suc k \<le> i" "i < 32" for i
    using assms(1,3,4) that by (cases "i = Suc k") (auto simp: zsl_links_def)
  show ?thesis using assms(1) n f by (auto simp: zsl_links_def)
qed

lemma lower_loop_correct:
  "zsl_links h hdr k ps \<Longrightarrow>
   \<exists>k'. lower_loop h hdr k = Some k' \<and> k' \<le> k \<and> zsl_links h hdr k' ps \<and> (k' = 1 \<or> (\<exists>a\<in>set ps. lv h a = k'))"
proof (induction k)
  case (Suc k)
  show ?case
  proof (cases k)
    case (Suc m)
    have ok: "lseg h k hdr 0 ps" "\<forall>a\<in>set ps. node_ok h (Suc k) a" using Suc.prems by (auto simp: zsl_links_def)
    obtain l where l: "get_level h hdr k = Some l" using lseg_level [OF ok(1)] by blast
    show ?thesis
    proof (cases "forward l = None")
      case True
      then have "zsl_links h hdr k ps" using links_lower [of h hdr m ps l] Suc.prems Suc l lseg_forward_None [OF ok(1) l] by simp
      from Suc.IH [OF this] obtain k' where "lower_loop h hdr k = Some k'" "k' \<le> k" "zsl_links h hdr k' ps"
        "k' = 1 \<or> (\<exists>a\<in>set ps. lv h a = k')" by blast
      then show ?thesis using True l Suc by auto
    next
      case False
      then obtain b where b: "b \<in> set ps" "k < lv h b" using lseg_forward_None [OF ok(1) l] by (meson not_le)
      then have "node_ok h (Suc k) b" using ok(2) by blast
      then have "lv h b = Suc k" using b(2) node_ok_lv [of h "Suc k" b] by simp
      then show ?thesis using b(1) False l Suc Suc.prems by auto
    qed
  qed (use Suc.prems in auto)
qed (auto simp: zsl_links_def)

section \<open>Deletion of a node\<close>

lemma links_unlinked:
  assumes links: "zsl_links h hdr K (xs @ x # ys)"
    and h1: "meta h1 = meta h" "\<forall>i<K. lseg h1 i hdr 0 (xs @ ys)" "\<forall>i\<ge>K. get_level h1 hdr i = get_level h hdr i"
      "\<forall>i. get_level h1 x i = get_level h x i"
  obtains h2 xl xn where "h1 x = Some xn" "backward xn = last_or None xs" "get_level h1 x 0 = Some xl"
    "forward xl = (case ys of [] \<Rightarrow> None | y # _ \<Rightarrow> Some y)"
    "(case ys of [] \<Rightarrow> Some h1 | y # _ \<Rightarrow> put_back y (backward xn) h1) = Some h2"
    "zsl_links h2 hdr K (xs @ ys)" "core h2 = core h"
proof -
  have ok: "\<forall>a\<in>set (xs @ x # ys). node_ok h K a" "distinct (hdr # xs @ x # ys)" "K \<le> 32" "1 \<le> K" "\<forall>i<K. lseg h i hdr 0 (xs @ x # ys)"
    "backs h None (xs @ x # ys)"
    using links by (auto simp: zsl_links_def)
  have core1: "core h1 = core h" by (simp add: fun_eq_iff core_meta h1(1))
  have z1: "zback h1 = zback h" by (simp add: fun_eq_iff zback_def h1(1))
  have dm: "dom h1 = dom h" using h1(1) dom_meta by metis
  have ex: "\<exists>n. h1 b = Some n" if "b \<in> set (xs @ x # ys)" for b
  proof -
    have "h b \<noteq> None" using ok(1) that node_ok_lv by blast
    then show ?thesis using dm by blast
  qed
  obtain xn where xn: "h1 x = Some xn" using ex by fastforce
  then have bx: "backward xn = last_or None xs" using ok(6) fun_cong [OF z1, of x] by (simp add: zback_def meta_def)
  have pos: "0 < lv h b" if "b \<in> set (xs @ x # ys)" for b using ok(1) that node_ok_lv by fastforce
  have "lseg h 0 hdr 0 ((xs @ [x]) @ ys)" using ok(4,5) by auto
  then have "lseg h 0 x 0 ys" using pos unfolding lseg_append lastat_append by auto
  from lseg0_first [OF _ this] pos h1(4) obtain xl where
    xl: "get_level h1 x 0 = Some xl" "forward xl = (case ys of [] \<Rightarrow> None | y # _ \<Rightarrow> Some y)" by auto
  have "\<exists>h2. (case ys of [] \<Rightarrow> Some h1 | y # _ \<Rightarrow> put_back y (backward xn) h1) = Some h2 \<and> get_level h2 = get_level h1 \<and>
     core h2 = core h1 \<and> zback h2 = (case ys of [] \<Rightarrow> zback h1 | y # _ \<Rightarrow> (zback h1)(y := backward xn))"
  proof (cases ys)
    case (Cons y ys')
    have "h1 y \<noteq> None" using ex [of y] Cons by auto
    from put_back_ex [of h1 y, OF this] obtain h2 where "put_back y (backward xn) h1 = Some h2" "get_level h2 = get_level h1"
      "core h2 = core h1" "zback h2 = (zback h1)(y := backward xn)" by blast
    then show ?thesis using Cons by simp
  qed simp
  then obtain h2 where h2: "(case ys of [] \<Rightarrow> Some h1 | y # _ \<Rightarrow> put_back y (backward xn) h1) = Some h2" "get_level h2 = get_level h1"
     "core h2 = core h1" "zback h2 = (case ys of [] \<Rightarrow> zback h1 | y # _ \<Rightarrow> (zback h1)(y := backward xn))" by blast
  have "\<forall>b\<in>set xs. zback h2 b = zback h b" using h2(4) z1 ok(2) by (cases ys) auto
  then have b1: "backs h2 None xs" using ok(6) backs_same [of xs h2 h None] by simp
  have b2: "backs h2 (last_or None xs) ys"
  proof (cases ys)
    case (Cons y ys')
    have "\<forall>b\<in>set ys'. zback h2 b = zback h b" using h2(4) z1 ok(2) Cons by auto
    then have "backs h2 (Some y) ys'" using ok(6) Cons backs_same [of ys' h2 h "Some y"] by simp
    then show ?thesis using Cons h2(4) bx by simp
  qed simp
  have "zsl_links h2 hdr K (xs @ ys)"
    unfolding zsl_links_core
  proof (intro conjI)
    show "\<exists>s. core h2 hdr = Some (None, s, 32)" using links by (simp add: zsl_links_core h2(3) core1)
    show "\<forall>a\<in>set (xs @ ys). node_ok h2 K a" using ok(1) by (simp add: node_ok_core h2(3) core1)
    show "\<forall>i<K. lseg h2 i hdr 0 (xs @ ys)" using h1(2) lseg_cong [OF _ h2(2)] by (simp add: fun_eq_iff lv_core h2(3))
    show "\<forall>i. K \<le> i \<and> i < 32 \<longrightarrow> (\<exists>l. get_level h2 hdr i = Some l \<and> forward l = None)"
      using links h1(3) h2(2) by (simp add: zsl_links_core)
    show "backs h2 None (xs @ ys)" using b1 b2 by simp
  qed (use ok in auto)
  then show thesis using that [OF xn bx xl h2(1)] h2(3) core1 by simp
qed

lemma zslDeleteNode_correct:
  assumes ok: "zsl_ok h z (xs @ x # ys)"
  obtains h' z' where "zslDeleteNode h z x (map fst (stops h (header z) xs (level z))) = Some (h', z')"
    "zsl_ok h' z' (xs @ ys)" "core h' = core h" "header z' = header z" "level z' \<le> level z"
proof -
  let ?hdr = "header z"
  have z: "zsl_links h ?hdr (level z) (xs @ x # ys)" "ztail z = last_or None (xs @ x # ys)" "zlength z = length (xs @ x # ys)"
    "sorted_wrt key_less (map (zkey h) (xs @ x # ys))" "length (xs @ x # ys) < 2 ^ 32"
    using ok by (auto simp: zsl_ok_def)
  from unlink_levels [OF z(1,5)] obtain h1 where h1: "unlink_loop x 0 (map fst (stops h ?hdr xs (level z))) h = Some h1" "meta h1 = meta h"
    "\<forall>i<level z. lseg h1 i ?hdr 0 (xs @ ys)" "\<forall>i\<ge>level z. get_level h1 ?hdr i = get_level h ?hdr i"
    "\<forall>i. get_level h1 x i = get_level h x i" by blast
  from links_unlinked [OF z(1) h1(2-5)] obtain h2 xl xn where h2: "h1 x = Some xn" "backward xn = last_or None xs" "get_level h1 x 0 = Some xl"
    "forward xl = (case ys of [] \<Rightarrow> None | y # _ \<Rightarrow> Some y)"
    "(case ys of [] \<Rightarrow> Some h1 | y # _ \<Rightarrow> put_back y (backward xn) h1) = Some h2"
    "zsl_links h2 ?hdr (level z) (xs @ ys)" "core h2 = core h" by blast
  from lower_loop_correct [OF h2(6)] obtain k where k: "lower_loop h2 ?hdr (level z) = Some k" "zsl_links h2 ?hdr k (xs @ ys)"
    "k = 1 \<or> (\<exists>a\<in>set (xs @ ys). lv h2 a = k)" "k \<le> level z" by blast
  define z' where "z' = z\<lparr>ztail := last_or None (xs @ ys), level := k, zlength := length (xs @ ys)\<rparr>"
  have len: "subw 64 (zlength z) (Suc 0) = length (xs @ ys)" using z(3,5) by (simp add: subw_small)
  have tk: "take (level z) (map fst (stops h ?hdr xs (level z))) = map fst (stops h ?hdr xs (level z))" by simp
  have "zslDeleteNode h z x (map fst (stops h ?hdr xs (level z))) = Some (h2, z')"
  proof (cases ys)
    case Nil
    then show ?thesis using h2(1-5) k(1) len unfolding zslDeleteNode_def tk
      by (simp add: h1(1) z'_def)
  next
    case (Cons y ys')
    then have "ztail z = last_or None (xs @ ys)" using z(2) by simp
    then show ?thesis using Cons h2(1-5) k(1) len unfolding zslDeleteNode_def tk
      by (simp add: h1(1) z'_def)
  qed
  moreover have "zsl_ok h2 z' (xs @ ys)"
  proof -
    have "zkey h2 = zkey h" by (simp add: fun_eq_iff zkey_core h2(7))
    moreover have "sorted_wrt key_less (map (zkey h) (xs @ ys))" using z(4) by (auto simp: sorted_wrt_append)
    ultimately show ?thesis using k(2,3) z(5) by (simp add: zsl_ok_def z'_def)
  qed
  ultimately show thesis using that h2(7) k(4) by (simp add: z'_def)
qed

section \<open>Releasing a node\<close>

lemma lseg_agree:
  "\<forall>a\<in>set ps. lv h' a = lv h a \<and> get_level h' a i = get_level h a i \<Longrightarrow> get_level h' b i = get_level h b i \<Longrightarrow>
   lseg h' i b d ps = lseg h i b d ps"
  by (induction ps arbitrary: b d) auto

lemma zsl_ok_agree:
  assumes "zsl_ok h z ps" "\<forall>a\<in>set (header z # ps). h' a = h a"
  shows "zsl_ok h' z ps"
proof -
  have m: "meta h' a = meta h a" "lv h' a = lv h a" "\<And>i. get_level h' a i = get_level h a i" "zkey h' a = zkey h a" "zback h' a = zback h a"
    if "a \<in> set (header z # ps)" for a
    using assms(2) that by (auto simp: meta_def lv_def get_level_def zkey_def zback_def)
  have sg: "lseg h' i (header z) 0 ps = lseg h i (header z) 0 ps" for i by (rule lseg_agree) (simp_all add: m)
  have bk: "backs h' None ps = backs h None ps" by (rule backs_same) (simp add: m)
  have me: "map (zkey h') ps = map (zkey h) ps" by (rule map_cong) (simp_all add: m)
  have "zsl_links h' (header z) (level z) ps"
    using assms(1) by (simp add: zsl_ok_def zsl_links_def m sg bk node_ok_def)
  moreover have "(\<exists>a\<in>set ps. lv h' a = level z) = (\<exists>a\<in>set ps. lv h a = level z)" by (simp add: m)
  ultimately show ?thesis using assms(1) unfolding zsl_ok_def me by simp
qed

section \<open>Deletion of an entry\<close>

text \<open>Searching for a key stops right before the node that carries it, if there is one.\<close>

lemma search_forward:
  assumes ok: "zsl_ok h z ps" and ps: "ps = xs @ ys"
  shows "\<exists>l. get_level h (fst (stops h (header z) xs (level z) ! 0)) 0 = Some l \<and>
    forward l = (case ys of [] \<Rightarrow> None | y # _ \<Rightarrow> Some y)"
proof -
  have z: "zsl_links h (header z) (level z) (xs @ ys)" using ok ps by (simp add: zsl_ok_def)
  then have k: "1 \<le> level z" "lseg h 0 (header z) 0 (xs @ ys)" "\<forall>b\<in>set (xs @ ys). 0 < lv h b"
    using node_ok_lv by (fastforce simp: zsl_links_def)+
  obtain u e where u: "lastat h 0 (header z) 0 xs = (u, e)" by force
  have "e = 0" using lastat0 [of xs h "header z"] k(3) u by simp
  then have "lseg h 0 u 0 ys" using k(2) u unfolding lseg_append by simp
  then show ?thesis using lseg0_first [of ys h u] k(1,3) stops_nth [OF _ u, of "level z"] by simp
qed

lemma split_at_key:
  assumes "sorted_wrt key_less (map (zkey h) ps)" "k \<in> zkey h ` set ps"
  obtains x ys where "ps = zprefix (\<lambda>e. key_less e k) h ps @ x # ys" "zkey h x = k"
proof -
  obtain as x ys where x: "ps = as @ x # ys" "zkey h x = k" using assms(2) by (auto dest: split_list)
  have "\<forall>a\<in>set as. key_less (zkey h a) k" using assms(1) x by (auto simp: sorted_wrt_append)
  then have "zprefix (\<lambda>e. key_less e k) h ps = as" using x by (simp add: takeWhile_append2)
  then show thesis using that [of x ys] x by simp
qed

lemma zslDelete_missing:
  assumes ok: "zsl_ok h z ps" and ele: "sds_ok ele" and new: "(score, text_of ele) \<notin> zkey h ` set ps"
  shows "zslDelete h z score ele keep = Some (False, None, h, z)"
proof -
  let ?k = "(score, text_of ele)"
  define xs where "xs = zprefix (\<lambda>e. key_less e ?k) h ps"
  define ys where "ys = dropWhile (\<lambda>a. key_less (zkey h a) ?k) ps"
  have z: "zsl_links h (header z) (level z) ps" "sorted_wrt key_less (map (zkey h) ps)" "length ps < 2 ^ 64"
    using ok by (auto simp: zsl_ok_def)
  have desc: "zsl_descend h (zsl_before score ele) 64 (level z) 0 (header z) = Some (stops h (header z) xs (level z))"
    unfolding xs_def by (rule zsl_descend_ok [OF z ele])
  from search_forward [OF ok, of xs ys] obtain l where l: "get_level h (fst (stops h (header z) xs (level z) ! 0)) 0 = Some l"
    "forward l = (case ys of [] \<Rightarrow> None | y # _ \<Rightarrow> Some y)" by (auto simp: xs_def ys_def)
  show ?thesis
  proof (cases ys)
    case Nil
    then show ?thesis by (simp add: zslDelete_def desc l)
  next
    case (Cons y ys')
    then have y: "y \<in> set ps" unfolding ys_def by (metis list.set_intros(1) set_dropWhileD)
    then have "node_ok h (level z) y" using z(1) by (simp add: zsl_links_def)
    then obtain n e where n: "h y = Some n" "z_ele n = Some e" "sds_ok e" "zkey h y = (z_score n, text_of e)" by (rule node_ok_key)
    have "zkey h y \<noteq> ?k" using new imageI [OF y, of "zkey h"] by auto
    then have "\<not> (score = z_score n \<and> sdscmp e ele = 0)" using n(3,4) ele by (auto simp: sdscmp_zero)
    then show ?thesis by (auto simp add: zslDelete_def desc l Cons n(1,2))
  qed
qed

lemma zslDelete_found:
  assumes ok: "zsl_ok h z ps" and ele: "sds_ok ele" and ps: "ps = xs @ x # ys" and key: "zkey h x = (score, text_of ele)"
  obtains h' z' where "zslDelete h z score ele keep = Some (True, if keep then Some x else None, h', z')"
    "zsl_ok h' z' (xs @ ys)" "core h' = (if keep then core h else (core h)(x := None))" "header z' = header z"
proof -
  let ?k = "(score, text_of ele)" and ?hdr = "header z"
  have z: "zsl_links h ?hdr (level z) ps" "sorted_wrt key_less (map (zkey h) ps)" "length ps < 2 ^ 64"
    using ok by (auto simp: zsl_ok_def)
  have "\<forall>a\<in>set xs. key_less (zkey h a) ?k" using z(2) ps key by (auto simp: sorted_wrt_append)
  then have xs: "zprefix (\<lambda>e. key_less e ?k) h ps = xs" using ps key by (simp add: takeWhile_append2)
  have desc: "zsl_descend h (zsl_before score ele) 64 (level z) 0 ?hdr = Some (stops h ?hdr xs (level z))"
    using zsl_descend_ok [OF z ele, of score] unfolding xs .
  from search_forward [OF ok ps] obtain l where l: "get_level h (fst (stops h ?hdr xs (level z) ! 0)) 0 = Some l"
    "forward l = Some x" by auto
  have "node_ok h (level z) x" using z(1) ps by (simp add: zsl_links_def)
  then obtain n e where n: "h x = Some n" "z_ele n = Some e" "sds_ok e" "zkey h x = (z_score n, text_of e)" by (rule node_ok_key)
  have eq: "z_score n = score" "sdscmp e ele = 0" using key n(3,4) ele by (auto simp: sdscmp_zero)
  from zslDeleteNode_correct [OF ok [unfolded ps]] obtain h1 z' where
    d: "zslDeleteNode h z x (map fst (stops h ?hdr xs (level z))) = Some (h1, z')" "zsl_ok h1 z' (xs @ ys)" "core h1 = core h" "header z' = ?hdr"
    by blast
  have "x \<notin> set (?hdr # xs @ ys)" using z(1) ps by (auto simp: zsl_links_def)
  then have f1: "zsl_ok (zslFreeNode x h1) z' (xs @ ys)" using zsl_ok_agree [OF d(2), of "zslFreeNode x h1"] d(4) by (auto simp: zslFreeNode_def)
  have f2: "core (zslFreeNode x h1) = (core h)(x := None)" using d(3) by (auto simp: zslFreeNode_def core_def fun_eq_iff)
  show thesis
  proof (cases keep)
    case True
    have "zslDelete h z score ele keep = Some (True, if keep then Some x else None, h1, z')"
      using True by (simp add: zslDelete_def desc l n(1,2) eq d(1))
    then show ?thesis using that d(2-4) True by simp
  next
    case False
    have "zslDelete h z score ele keep = Some (True, if keep then Some x else None, zslFreeNode x h1, z')"
      using False by (simp add: zslDelete_def desc l n(1,2) eq d(1))
    then show ?thesis using that f1 f2 d(4) False by simp
  qed
qed

end
