(* ===== verification/Zskiplist_Rank.thy ===== *)
theory Zskiplist_Rank
  imports Zskiplist_Delete
begin

text \<open>
  The empty skip list, the change of a score, and ranks: the rank of an entry and the entry of a
  rank are each other's inverse.
\<close>

section \<open>The empty list\<close>

lemma init_loop_correct:
  "\<forall>j\<in>set js. j < lv h a \<Longrightarrow> distinct js \<Longrightarrow>
   \<exists>h'. init_loop a js h = Some h' \<and> meta h' = meta h \<and>
     (\<forall>b j. get_level h' b j = (if b = a \<and> j \<in> set js then Some \<lparr>forward = None, span = 0\<rparr> else get_level h b j))"
proof (induction js arbitrary: h)
  case (Cons j js)
  have "\<exists>l. get_level h a j = Some l" unfolding get_level_Some using Cons.prems(1) by simp
  then obtain l where l: "get_level h a j = Some l" by blast
  from put_level_ex [OF l] obtain h1 where h1: "put_level a j (\<lambda>l. l\<lparr>forward := None\<rparr>) h = Some h1" "meta h1 = meta h"
    "\<And>b i. get_level h1 b i = (if b = a \<and> i = j then Some (l\<lparr>forward := None\<rparr>) else get_level h b i)" by blast
  have "get_level h1 a j = Some (l\<lparr>forward := None\<rparr>)" by (simp add: h1(3))
  from put_level_ex [OF this] obtain h2 where h2: "put_level a j (\<lambda>l. l\<lparr>span := 0\<rparr>) h1 = Some h2" "meta h2 = meta h1"
    "\<And>b i. get_level h2 b i = (if b = a \<and> i = j then Some (l\<lparr>forward := None, span := 0\<rparr>) else get_level h1 b i)" by blast
  have "\<forall>j\<in>set js. j < lv h2 a" using Cons.prems(1) by (simp add: lv_meta h2(2) h1(2))
  moreover have "distinct js" using Cons.prems(2) by simp
  ultimately obtain h' where h': "init_loop a js h2 = Some h'" "meta h' = meta h2"
    "\<forall>b i. get_level h' b i = (if b = a \<and> i \<in> set js then Some \<lparr>forward = None, span = 0\<rparr> else get_level h2 b i)"
    using Cons.IH by blast
  have "init_loop a (j # js) h = Some h'" using h1(1) h2(1) h'(1) by simp
  moreover have "meta h' = meta h" using h1(2) h2(2) h'(2) by simp
  moreover have "get_level h' b i = (if b = a \<and> i \<in> set (j # js) then Some \<lparr>forward = None, span = 0\<rparr> else get_level h b i)" for b i
    by (subst h'(3) [rule_format], subst h2(3), subst h1(3), subst zlevel_upd) auto
  ultimately show ?case by blast
qed simp

lemma zslCreate_correct:
  assumes "zalloc_ok al" "finite (dom h)"
  obtains h' z where "zslCreate al h = Some (h', z)" "zsl_ok h' z []" "h (header z) = None" "dom h' = insert (header z) (dom h)"
proof -
  define a where "a = za_addr al h"
  define h1 where "h1 = h(a := Some \<lparr>z_ele = None, z_score = 0, backward = za_back al, levels = map (za_level al) [0..<32]\<rparr>)"
  have c1: "core h1 = (core h)(a := Some (None, 0, 32))" by (simp add: h1_def core_def fun_eq_iff)
  have "\<forall>j\<in>set [0..<32]. j < lv h1 a" by (simp add: lv_core c1)
  from init_loop_correct [OF this] obtain h2 where h2: "init_loop a [0..<32] h1 = Some h2" "meta h2 = meta h1"
    "\<And>b j. get_level h2 b j = (if b = a \<and> j < 32 then Some \<lparr>forward = None, span = 0\<rparr> else get_level h1 b j)" by auto
  have c2: "core h2 = core h1" by (simp add: fun_eq_iff core_meta h2(2))
  have "core h2 a \<noteq> None" by (simp add: c2 c1)
  then have "h2 a \<noteq> None" by (simp add: core_def)
  from put_back_ex [of h2 a, OF this] obtain h3 where h3: "put_back a None h2 = Some h3" "get_level h3 = get_level h2" "core h3 = core h2"
    by blast
  define z where "z = \<lparr>header = a, ztail = None, zlength = 0, level = 1\<rparr>"
  have "zslCreate al h = Some (h3, z)"
    using h2(1) h3(1) by (simp add: zslCreate_def zslCreateNode_def Let_def a_def [symmetric] h1_def [symmetric] z_def)
  moreover have "zsl_ok h3 z []"
    by (simp add: zsl_ok_def zsl_links_core z_def h3(2,3) c2 c1 h2(3) last_or_def)
  moreover have "dom h3 = insert a (dom h)" using dom_core [of h3] dom_core [of h] by (simp add: h3(3) c2 c1)
  ultimately show thesis using that assms by (simp add: z_def zalloc_ok_def a_def)
qed

section \<open>Ranks\<close>

lemma on_path_last: "on_path h hdr k xs x \<Longrightarrow> x = (if xs = [] then hdr else last xs)"
  by (auto simp: on_path_def)

lemma cuts_rank: "\<forall>a\<in>set ps. h a \<noteq> None \<Longrightarrow> cuts h (\<lambda>t n. Some (t \<le> rank)) 0 ps (length (take rank ps))"
  by (auto simp: cuts_def)

lemma by_rank_loop_correct:
  assumes "\<forall>i<k. lseg h i hdr 0 ps" "\<forall>b\<in>set ps. 0 < lv h b" "length ps < 2 ^ 64"
    "take rank ps = xs1 @ xs2" "on_path h hdr k xs1 x" "length xs1 \<noteq> rank"
  shows "by_rank_loop h rank k (length xs1) x = Some (if 0 < k \<and> rank \<le> length ps then Some (last (take rank ps)) else None)"
  using assms(1,4-6)
proof (induction k arbitrary: xs1 xs2 x)
  case (Suc i)
  let ?c = "\<lambda>t n. Some (t \<le> rank)"
  have "\<forall>a\<in>set ps. h a \<noteq> None" using assms(2) by (fastforce simp: lv_def split: option.splits)
  then have cut: "cuts h ?c 0 (take rank ps @ drop rank ps) (length (take rank ps))" using cuts_rank [of ps h rank] by simp
  have "lseg h i hdr 0 (take rank ps @ drop rank ps)" "length (take rank ps @ drop rank ps) < 2 ^ 64"
    unfolding append_take_drop_id using Suc.prems(1) assms(3) by auto
  from descend_step [OF this(1) cut this(2) Suc.prems(2,3)] obtain u ys1 ys2 where
    u: "zsl_walk h ?c 64 i (length xs1) x = Some (u, length ys1)" "take rank ps = ys1 @ ys2"
      "lastat h i hdr 0 (take rank ps) = (u, length ys2)" "on_path h hdr i ys1 u" by blast
  show ?case
  proof (cases "length ys1 = rank")
    case True
    have le: "length (take rank ps) \<le> rank" "length (take rank ps) = length ys1 + length ys2" using arg_cong [OF u(2), of length] by simp_all
    then have "length ys2 = 0" "length (take rank ps) = rank" using True by linarith+
    then have y: "ys2 = []" "rank \<le> length ps" by (auto simp: min_def split: if_splits)
    have "ys1 \<noteq> []" using Suc.prems(2,4) True u(2) y(1) by auto
    then have "u = last (take rank ps)" using on_path_last [OF u(4)] u(2) y(1) by simp
    then show ?thesis using u(1) True y(2) by simp
  next
    case False
    have "i = 0 \<Longrightarrow> length ps < rank"
    proof -
      assume i: "i = 0"
      have "\<forall>b\<in>set (take rank ps). 0 < lv h b" using assms(2) by (meson in_set_takeD)
      then have "length ys2 = 0" using u(3) lastat0 [of "take rank ps" h hdr] i by simp
      then have "length (take rank ps) = length ys1" using u(2) by simp
      then show ?thesis using False by simp
    qed
    then show ?thesis using Suc.IH [OF _ u(2,4) False] Suc.prems(1) u(1) False by (cases i) auto
  qed
qed simp

lemma zslGetElementByRank_correct:
  assumes "zsl_ok h z ps" "1 \<le> rank"
  shows "zslGetElementByRank h z rank = Some (if rank \<le> length ps then Some (ps ! (rank - 1)) else None)"
proof -
  have z: "\<forall>i<level z. lseg h i (header z) 0 ps" "\<forall>b\<in>set ps. 0 < lv h b" "length ps < 2 ^ 64" "0 < level z"
    using assms(1) node_ok_lv by (fastforce simp: zsl_ok_def zsl_links_def)+
  have "by_rank_loop h rank (level z) (length []) (header z) = Some (if 0 < level z \<and> rank \<le> length ps then Some (last (take rank ps)) else None)"
    using by_rank_loop_correct [OF z(1-3), of rank "[]" "take rank ps" "header z"] assms(2) by (simp add: on_path_def)
  moreover have "last (take rank ps) = ps ! (rank - 1)" if "rank \<le> length ps"
    using that assms(2) by (subst last_conv_nth) (auto simp: min_def)
  ultimately show ?thesis using z(4) by (simp add: zslGetElementByRank_def)
qed

text \<open>Elements are compared without their scores, so the rank is that of the entry when no element occurs twice.\<close>

lemma zsl_upto_key:
  assumes "node_ok h k a" "sds_ok ele"
  shows "\<exists>n. h a = Some n \<and>
    (\<forall>r. zsl_upto score ele r n = Some (key_less (zkey h a) (score, text_of ele) \<or> zkey h a = (score, text_of ele)))"
  using assms(1)
proof (rule node_ok_key)
  fix n e
  assume n: "h a = Some n" "z_ele n = Some e" "sds_ok e" "zkey h a = (z_score n, text_of e)"
  have "sdscmp e ele \<le> 0 \<longleftrightarrow> byte_less (text_of e) (text_of ele) \<or> text_of e = text_of ele"
    using sdscmp_less [OF n(3) assms(2)] sdscmp_zero [OF n(3) assms(2)] by linarith
  then show ?thesis using n by (auto simp: zsl_upto_def)
qed

lemma get_rank_loop_correct:
  assumes ok: "zsl_ok h z ps" and ele: "sds_ok ele" and ps: "ps = as @ a # bs" and key: "zkey h a = (score, text_of ele)"
    and dist: "distinct (map (\<lambda>b. snd (zkey h b)) ps)"
  shows "k \<le> level z \<Longrightarrow> as @ [a] = xs1 @ xs2 \<Longrightarrow> on_path h (header z) k xs1 x \<Longrightarrow> xs2 \<noteq> [] \<Longrightarrow> 0 < k \<Longrightarrow>
    get_rank_loop h score ele k (length xs1) x = Some (length as + 1)"
proof (induction k arbitrary: xs1 xs2 x)
  case (Suc i)
  let ?k = "(score, text_of ele)" and ?hdr = "header z"
  let ?Q = "\<lambda>e. key_less e ?k \<or> e = ?k"
  have z: "zsl_links h ?hdr (level z) ps" "sorted_wrt key_less (map (zkey h) ps)" "length ps < 2 ^ 64" using ok by (auto simp: zsl_ok_def)
  have nk: "\<forall>b\<in>set ps. node_ok h (level z) b" "\<forall>i<level z. lseg h i ?hdr 0 ps" "?hdr \<notin> set ps" using z(1) by (auto simp: zsl_links_def)
  have lv0: "\<forall>b\<in>set (as @ [a]). 0 < lv h b" using nk(1) node_ok_lv ps by fastforce
  have "\<forall>b\<in>set (as @ [a]). ?Q (zkey h b)" using z(2) ps key by (auto simp: sorted_wrt_append)
  moreover have "\<not> ?Q (zkey h b)" if "b \<in> set bs" for b
  proof -
    have "key_less ?k (zkey h b)" using z(2) ps key that by (auto simp: sorted_wrt_append)
    then show ?thesis using key_less_trans [of ?k "zkey h b" ?k] by auto
  qed
  ultimately have pre: "zprefix ?Q h ps = as @ [a]"
    using ps takeWhile_append2 [of "as @ [a]" "\<lambda>b. ?Q (zkey h b)" bs] by (cases bs) auto
  have "cuts h (zsl_upto score ele) 0 ps (length (zprefix ?Q h ps))"
    using z(2) key_less_trans zsl_upto_key [OF _ ele] nk(1) by (intro cuts_prefix) blast+
  then have cut: "cuts h (zsl_upto score ele) 0 ((as @ [a]) @ bs) (length (as @ [a]))" unfolding pre using ps by simp
  have "lseg h i ?hdr 0 ((as @ [a]) @ bs)" "length ((as @ [a]) @ bs) < 2 ^ 64" using nk(2) Suc.prems(1) z(3) ps by auto
  from descend_step [OF this(1) cut this(2) Suc.prems(2,3)] obtain u ys1 ys2 where
    u: "zsl_walk h (zsl_upto score ele) 64 i (length xs1) x = Some (u, length ys1)" "as @ [a] = ys1 @ ys2"
      "lastat h i ?hdr 0 (as @ [a]) = (u, length ys2)" "on_path h ?hdr i ys1 u" by blast
  show ?case
  proof (cases "ys2 = []")
    case True
    then have y1: "ys1 = as @ [a]" using u(2) by simp
    then have y: "ys1 = as @ [a]" "u = a" using on_path_last [OF u(4)] by simp_all
    have "node_ok h (level z) a" using nk(1) ps by simp
    then obtain n e where n: "h a = Some n" "z_ele n = Some e" "sds_ok e" "zkey h a = (z_score n, text_of e)" by (rule node_ok_key)
    then have "sdscmp e ele = 0" using key ele by (simp add: sdscmp_zero)
    then show ?thesis using u(1) y n(1,2) by simp
  next
    case False
    have i: "i \<noteq> 0" using False u(3) lastat0 [OF lv0, of ?hdr] by (cases i) auto
    obtain n where n: "h u = Some n" "\<not> (case z_ele n of None \<Rightarrow> False | Some e \<Rightarrow> sdscmp e ele = 0)"
    proof (cases "ys1 = []")
      case True
      then have "u = ?hdr" using on_path_last [OF u(4)] by simp
      then show ?thesis using that z(1) by (auto simp: zsl_links_def meta_def)
    next
      case ne: False
      then have ul: "u = last ys1" using on_path_last [OF u(4)] by simp
      have "\<exists>zs. ys2 = zs @ [a]" using u(2) False by (cases ys2 rule: rev_cases) auto
      then obtain zs where zs: "as = ys1 @ zs" using u(2) by auto
      then have "u \<in> set as" using ul ne by simp
      then have "node_ok h (level z) u" using nk(1) ps by simp
      have "snd (zkey h a) \<notin> (\<lambda>b. snd (zkey h b)) ` set as" using dist ps by simp
      then have nu: "snd (zkey h u) \<noteq> snd (zkey h a)" using imageI [OF \<open>u \<in> set as\<close>, of "\<lambda>b. snd (zkey h b)"] by force
      from \<open>node_ok h (level z) u\<close> obtain n e where n: "h u = Some n" "z_ele n = Some e" "sds_ok e" "zkey h u = (z_score n, text_of e)"
        by (rule node_ok_key)
      then have "sdscmp e ele \<noteq> 0" using nu key ele by (simp add: sdscmp_zero)
      then show ?thesis using that n(1,2) by simp
    qed
    then show ?thesis using Suc.IH [OF _ u(2,4) False] Suc.prems(1) u(1) i by simp
  qed
qed simp

lemma zslGetRank_correct:
  assumes "zsl_ok h z ps" "sds_ok ele" "ps = as @ a # bs" "zkey h a = (score, text_of ele)" "distinct (map (\<lambda>b. snd (zkey h b)) ps)"
  shows "zslGetRank h z score ele = Some (length as + 1)"
proof -
  have "0 < level z" using assms(1) by (auto simp: zsl_ok_def zsl_links_def)
  then show ?thesis
    using get_rank_loop_correct [OF assms, of "level z" "[]" "as @ [a]" "header z"] by (simp add: zslGetRank_def on_path_def)
qed

end
