(* ===== verification/Zskiplist_Range_Correct.thy ===== *)
theory Zskiplist_Range_Correct
  imports Zskiplist_Range Zskiplist_Rank Dict_Update
begin

text \<open>
  Ranges of skip lists: the first and the last node of a range, and the deletion of a range from the
  list and from the dictionary. What the code needs of the two tests of a range is the contract
  \<open>zsl_range\<close>; ranges by score and by element meet it.
\<close>

section \<open>Deleting consecutive nodes\<close>

definition zele :: "'s zheap \<Rightarrow> zaddr \<Rightarrow> sds" where
  "zele h a = (case core h a of Some (Some e, s, k) \<Rightarrow> e | _ \<Rightarrow> undefined)"

definition drop_keys :: "'k dictType \<Rightarrow> 'k set \<Rightarrow> ('k \<Rightarrow> 'w option) \<Rightarrow> 'k \<Rightarrow> 'w option" where
  "drop_keys ty K m = (\<lambda>x. if \<exists>k\<in>K. keq ty x k then None else m x)"

lemma drop_keys_simps: "drop_keys ty {} m = m" "drop_keys ty K (upd_eq ty m k None) = drop_keys ty (insert k K) m"
  by (auto simp: drop_keys_def upd_eq_def)

lemma stops_take:
  assumes "\<forall>b\<in>set xs. lv h' b = lv h b" "k' \<le> k"
  shows "take k' (stops h hdr xs k) = stops h' hdr xs k'"
proof -
  have "lastat h' i hdr 0 xs = lastat h i hdr 0 xs" for i by (rule lastat_same [OF assms(1)])
  then show ?thesis using assms(2) by (simp add: stops_def take_map)
qed

lemma zslDeleteNode_take: "zslDeleteNode h z x us = zslDeleteNode h z x (take (level z) us)"
  by (simp add: zslDeleteNode_def)

lemma node_core:
  assumes "zsl_ok h z ps" "a \<in> set ps"
  obtains n where "h a = Some n" "z_ele n = Some (zele h a)" "sds_ok (zele h a)" "zkey h a = (z_score n, text_of (zele h a))"
    "core h a = Some (Some (zele h a), z_score n, length (levels n))"
  using assms by (auto simp: zsl_ok_def zsl_links_def node_ok_core core_def zele_def zkey_core)

definition first_of :: "'a list \<Rightarrow> 'a option" where
  "first_of ys = (case ys of [] \<Rightarrow> None | y # _ \<Rightarrow> Some y)"

lemma first_of_simps [simp]: "first_of [] = None" "first_of (y # ys) = Some y"
  by (simp_all add: first_of_def)

lemma zsl_ok_pos: "zsl_ok h z ps \<Longrightarrow> b \<in> set ps \<Longrightarrow> 0 < lv h b"
  using node_ok_lv [of h "level z" b] by (simp add: zsl_ok_def zsl_links_def)

lemma node_forward:
  assumes "zsl_ok h z (xs @ y # ys)"
  shows "\<exists>l. get_level h y 0 = Some l \<and> forward l = first_of ys"
proof -
  have "lseg h 0 (header z) 0 ((xs @ [y]) @ ys)" using assms by (auto simp: zsl_ok_def zsl_links_def)
  then have "lseg h 0 y 0 ys" using zsl_ok_pos [OF assms, of y] unfolding lseg_append lastat_append by simp
  then show ?thesis using lseg0_first [of ys h y] zsl_ok_pos [OF assms] by (simp add: first_of_def)
qed

lemma delete_range_loop_correct:
  fixes h :: "('s :: linorder) zheap" and d :: "(sds, 'v) dict"
  assumes cong: "\<And>t n m. z_ele n = z_ele m \<Longrightarrow> z_score n = z_score m \<Longrightarrow> test t n = test t m"
  shows "zsl_ok h z (xs @ ys @ zs) \<Longrightarrow> dict_inv d \<Longrightarrow> take (level z) us = map fst (stops h (header z) xs (level z)) \<Longrightarrow>
    (\<And>j n. j < length ys \<Longrightarrow> h (ys ! j) = Some n \<Longrightarrow> test (t + j) n = Some True) \<Longrightarrow>
    (\<And>n. zs \<noteq> [] \<Longrightarrow> h (hd zs) = Some n \<Longrightarrow> test (t + length ys) n = Some False) \<Longrightarrow>
    t + length ys < 2 ^ 64 \<Longrightarrow> r + length ys < 2 ^ 64 \<Longrightarrow>
    \<exists>h' z' d'. delete_range_loop test us h z d (first_of (ys @ zs)) t r = Some (r + length ys, h', z', d') \<and>
      zsl_ok h' z' (xs @ zs) \<and> header z' = header z \<and> core h' = (\<lambda>a. if a \<in> set ys then None else core h a) \<and>
      dict_inv d' \<and> dict_type d' = dict_type d \<and> dict_map d' = drop_keys (dict_type d) (zele h ` set ys) (dict_map d)"
proof (induction ys arbitrary: h z d t r)
  case Nil
  show ?case
  proof (cases zs)
    case Nil
    then show ?thesis using Nil.prems(1,2) by (subst delete_range_loop.simps) (simp add: drop_keys_simps)
  next
    case (Cons c zs')
    from Nil.prems(1) obtain n where n: "h c = Some n" using node_core [of h z _ c] Cons by (metis append_Nil in_set_conv_decomp)
    then have "test t n = Some False" using Nil.prems(5) Cons by simp
    then show ?thesis using Nil.prems(1,2) Cons n by (subst delete_range_loop.simps) (simp add: drop_keys_simps)
  qed
next
  case (Cons y ys)
  have ok: "zsl_ok h z (xs @ y # (ys @ zs))" using Cons.prems(1) by simp
  then obtain n where n: "h y = Some n" "z_ele n = Some (zele h y)" by (rule node_core) auto
  have t0: "test t n = Some True" using Cons.prems(4) [of 0] n(1) by simp
  from zslDeleteNode_correct [OF ok] obtain h1 z1 where
    del: "zslDeleteNode h z y (map fst (stops h (header z) xs (level z))) = Some (h1, z1)" "zsl_ok h1 z1 (xs @ ys @ zs)"
      "core h1 = core h" "header z1 = header z" "level z1 \<le> level z" by blast
  have del': "zslDeleteNode h z y us = Some (h1, z1)" using del(1) Cons.prems(3) zslDeleteNode_take by metis
  from dictDelete_correct [OF Cons.prems(2), of "zele h y"] obtain r1 d1 where
    d1: "dictDelete d (zele h y) = Some (r1, d1)" "dict_inv d1" "dict_type d1 = dict_type d"
      "dict_map d1 = upd_eq (dict_type d) (dict_map d) (zele h y) None" by blast
  have dist: "distinct (header z # xs @ y # ys @ zs)" using ok by (simp add: zsl_ok_def zsl_links_def)
  let ?h = "zslFreeNode y h1"
  have h1y: "?h a = h1 a" if "a \<noteq> y" for a using that by (simp add: zslFreeNode_def)
  have "y \<notin> set (header z1 # xs @ ys @ zs)" using dist del(4) by auto
  then have "\<forall>a\<in>set (header z1 # xs @ ys @ zs). ?h a = h1 a" using h1y by metis
  then have ok1: "zsl_ok ?h z1 (xs @ ys @ zs)" by (rule zsl_ok_agree [OF del(2)])
  have core1: "core ?h = (core h)(y := None)" using del(3) by (auto simp: zslFreeNode_def core_def fun_eq_iff)
  have lvx: "\<forall>b\<in>set xs. lv ?h b = lv h b" using dist by (auto simp: lv_core core1)
  have us1: "take (level z1) us = map fst (stops ?h (header z1) xs (level z1))"
  proof -
    have "take (level z1) us = take (level z1) (take (level z) us)" using del(5) by (simp add: min_absorb1)
    also have "\<dots> = map fst (take (level z1) (stops h (header z) xs (level z)))" using Cons.prems(3) by (simp add: take_map)
    finally show ?thesis using stops_take [OF lvx del(5)] del(4) by simp
  qed
  have same: "z_ele m = z_ele n' \<and> z_score m = z_score n'" if "?h a = Some m" "h a = Some n'" for a m n'
    using that fun_cong [OF core1, of a] by (auto simp: core_def split: if_splits)
  have src: "\<exists>n'. h a = Some n'" if "?h a = Some m" for a m
    using that fun_cong [OF core1, of a] by (cases "h a") (auto simp: core_def split: if_splits)
  have step: "delete_range_loop test us h z d (Some y) t r = delete_range_loop test us ?h z1 d1 (first_of (ys @ zs)) (t + 1) (r + 1)"
  proof -
    from node_forward [OF ok] obtain l where l: "get_level h y 0 = Some l" "forward l = first_of (ys @ zs)" by blast
    have "addw 64 t 1 = t + 1" "addw 64 r 1 = r + 1" using Cons.prems(6,7) by (simp_all add: addw_small)
    then show ?thesis using n t0 l del' d1(1) by (subst delete_range_loop.simps) (simp del: One_nat_def)
  qed
  have "\<exists>h' z' d'. delete_range_loop test us ?h z1 d1 (first_of (ys @ zs)) (t + 1) (r + 1) = Some ((r + 1) + length ys, h', z', d') \<and>
      zsl_ok h' z' (xs @ zs) \<and> header z' = header z1 \<and> core h' = (\<lambda>a. if a \<in> set ys then None else core ?h a) \<and>
      dict_inv d' \<and> dict_type d' = dict_type d1 \<and> dict_map d' = drop_keys (dict_type d1) (zele ?h ` set ys) (dict_map d1)"
  proof (rule Cons.IH [OF ok1 d1(2) us1])
    fix j m
    assume j: "j < length ys" "?h (ys ! j) = Some m"
    then obtain n' where n': "h (ys ! j) = Some n'" using src by blast
    then have "test (t + 1 + j) n' = Some True" using Cons.prems(4) [of "Suc j" n'] j(1) by simp
    then show "test (t + 1 + j) m = Some True" using same [OF j(2) n'] cong [of m n'] by simp
  next
    fix m
    assume j: "zs \<noteq> []" "?h (hd zs) = Some m"
    then obtain n' where n': "h (hd zs) = Some n'" using src by blast
    then have "test (t + 1 + length ys) n' = Some False" using Cons.prems(5) [of n'] j(1) by simp
    then show "test (t + 1 + length ys) m = Some False" using same [OF j(2) n'] cong [of m n'] by simp
  qed (use Cons.prems(6,7) in auto)
  then obtain h' z' d' where r: "delete_range_loop test us ?h z1 d1 (first_of (ys @ zs)) (t + 1) (r + 1) = Some ((r + 1) + length ys, h', z', d')"
    "zsl_ok h' z' (xs @ zs)" "header z' = header z1" "core h' = (\<lambda>a. if a \<in> set ys then None else core ?h a)"
    "dict_inv d'" "dict_type d' = dict_type d1" "dict_map d' = drop_keys (dict_type d1) (zele ?h ` set ys) (dict_map d1)" by blast
  have "zele ?h ` set ys = zele h ` set ys" using dist by (intro image_cong) (auto simp: zele_def core1)
  then have "dict_map d' = drop_keys (dict_type d) (zele h ` set (y # ys)) (dict_map d)"
    using r(7) d1(3,4) by (simp add: drop_keys_simps)
  moreover have "core h' = (\<lambda>a. if a \<in> set (y # ys) then None else core h a)" using r(4) by (auto simp: core1 fun_eq_iff)
  moreover have "delete_range_loop test us h z d (first_of ((y # ys) @ zs)) t r = Some (r + length (y # ys), h', z', d')"
    using step r(1) by simp
  ultimately show ?case using r(2,3,5,6) del(4) d1(3) by (intro exI [of _ h'] exI [of _ z'] exI [of _ d']) simp
qed

lemma sorted_last: "sorted_wrt R (map f ps) \<Longrightarrow> a \<in> set ps \<Longrightarrow> a = last ps \<or> R (f a) (f (last ps))"
  by (induction ps) auto

lemma sorted_hd: "sorted_wrt R (map f ps) \<Longrightarrow> a \<in> set ps \<Longrightarrow> a = hd ps \<or> R (f (hd ps)) (f a)"
  by (cases ps) auto

section \<open>The contract of a range\<close>

text \<open>
  The tests of nodes decide membership bounds \<open>G\<close> and \<open>L\<close> of the entries, which are monotone along an
  order \<open>R\<close>; a range that is found void holds no entry.
\<close>

locale zsl_range =
  fixes valid :: bool and void :: bool and gte :: "('s :: linorder) ztest" and lte :: "'s ztest"
    and G :: "'s \<times> string \<Rightarrow> bool" and L :: "'s \<times> string \<Rightarrow> bool" and R :: "'s \<times> string \<Rightarrow> 's \<times> string \<Rightarrow> bool"
  assumes gte_node: "valid \<Longrightarrow> z_ele n = Some e \<Longrightarrow> sds_ok e \<Longrightarrow> gte n = Some (G (z_score n, text_of e))"
    and lte_node: "valid \<Longrightarrow> z_ele n = Some e \<Longrightarrow> sds_ok e \<Longrightarrow> lte n = Some (L (z_score n, text_of e))"
    and gte_up: "valid \<Longrightarrow> R a b \<Longrightarrow> G a \<Longrightarrow> G b"
    and lte_down: "valid \<Longrightarrow> R a b \<Longrightarrow> L b \<Longrightarrow> L a"
    and void_law: "valid \<Longrightarrow> void \<Longrightarrow> \<not> (G a \<and> L a)"
    and lte_cong: "z_ele n = z_ele m \<Longrightarrow> z_score n = z_score m \<Longrightarrow> lte n = lte m"
begin

abbreviation member :: "'s zheap \<Rightarrow> zaddr \<Rightarrow> bool" where
  "member h a \<equiv> G (zkey h a) \<and> L (zkey h a)"

lemma node_tests:
  assumes "valid" "zsl_ok h z ps" "a \<in> set ps"
  shows "\<exists>n. h a = Some n \<and> gte n = Some (G (zkey h a)) \<and> lte n = Some (L (zkey h a))"
  using assms(2,3)
proof (rule node_core)
  fix n
  assume "h a = Some n" "z_ele n = Some (zele h a)" "sds_ok (zele h a)" "zkey h a = (z_score n, text_of (zele h a))"
  then show ?thesis using gte_node [OF assms(1)] lte_node [OF assms(1)] by simp
qed

lemma members:
  assumes "valid" "sorted_wrt R (map (zkey h) ps)"
  shows "filter (member h) ps = takeWhile (\<lambda>a. L (zkey h a)) (dropWhile (\<lambda>a. \<not> G (zkey h a)) ps)"
    and "filter (\<lambda>a. \<not> member h a) ps =
      takeWhile (\<lambda>a. \<not> G (zkey h a)) ps @ dropWhile (\<lambda>a. L (zkey h a)) (dropWhile (\<lambda>a. \<not> G (zkey h a)) ps)"
proof -
  have up: "G (zkey h b)" if "sorted_wrt R (map (zkey h) (a # qs))" "G (zkey h a)" "b \<in> set (a # qs)" for a b qs
    using that gte_up [OF assms(1), of "zkey h a" "zkey h b"] by auto
  have down: "\<not> L (zkey h b)" if "sorted_wrt R (map (zkey h) (a # qs))" "\<not> L (zkey h a)" "b \<in> set (a # qs)" for a b qs
    using that lte_down [OF assms(1), of "zkey h a" "zkey h b"] by auto
  have L: "filter (\<lambda>a. L (zkey h a)) qs = takeWhile (\<lambda>a. L (zkey h a)) qs \<and> filter (\<lambda>a. \<not> L (zkey h a)) qs = dropWhile (\<lambda>a. L (zkey h a)) qs"
    if "sorted_wrt R (map (zkey h) qs)" for qs
    using that
  proof (induction qs)
    case (Cons a qs)
    show ?case
    proof (cases "L (zkey h a)")
      case False
      then have "\<forall>b\<in>set (a # qs). \<not> L (zkey h b)" using down [OF Cons.prems False] by blast
      then show ?thesis using False by (simp add: filter_empty_conv)
    qed (use Cons in simp)
  qed simp
  have "filter (member h) ps = takeWhile (\<lambda>a. L (zkey h a)) (dropWhile (\<lambda>a. \<not> G (zkey h a)) ps) \<and>
    filter (\<lambda>a. \<not> member h a) ps =
      takeWhile (\<lambda>a. \<not> G (zkey h a)) ps @ dropWhile (\<lambda>a. L (zkey h a)) (dropWhile (\<lambda>a. \<not> G (zkey h a)) ps)"
    using assms(2)
  proof (induction ps)
    case (Cons a qs)
    show ?case
    proof (cases "G (zkey h a)")
      case True
      have g: "\<forall>b\<in>set (a # qs). G (zkey h b)" using up [OF Cons.prems True] by blast
      have "filter (member h) (a # qs) = filter (\<lambda>a. L (zkey h a)) (a # qs)"
        "filter (\<lambda>a. \<not> member h a) (a # qs) = filter (\<lambda>a. \<not> L (zkey h a)) (a # qs)"
        using g by (auto intro!: filter_cong)
      then show ?thesis using L [OF Cons.prems] True by simp
    qed (use Cons in simp)
  qed simp
  then show "filter (member h) ps = takeWhile (\<lambda>a. L (zkey h a)) (dropWhile (\<lambda>a. \<not> G (zkey h a)) ps)"
    "filter (\<lambda>a. \<not> member h a) ps =
      takeWhile (\<lambda>a. \<not> G (zkey h a)) ps @ dropWhile (\<lambda>a. L (zkey h a)) (dropWhile (\<lambda>a. \<not> G (zkey h a)) ps)"
    by blast+
qed

lemma in_range_eq:
  assumes "valid" "zsl_ok h z ps"
  shows "list_in_range void gte lte h z = Some (\<not> void \<and> ps \<noteq> [] \<and> G (zkey h (last ps)) \<and> L (zkey h (hd ps)))"
proof (cases ps)
  case Nil
  then have "ztail z = None" using assms(2) by (simp add: zsl_ok_def)
  then show ?thesis using Nil by (simp add: list_in_range_def)
next
  case (Cons p qs)
  then have t: "ztail z = Some (last ps)" using assms(2) by (auto simp: zsl_ok_def last_or_def)
  have "last ps \<in> set ps" using Cons by simp
  from node_tests [OF assms this] obtain n where n: "h (last ps) = Some n" "gte n = Some (G (zkey h (last ps)))" by blast
  obtain m where m: "h p = Some m" "lte m = Some (L (zkey h p))" using node_tests [OF assms, of p] Cons by auto
  have "lseg h 0 (header z) 0 ps" using assms(2) by (auto simp: zsl_ok_def zsl_links_def)
  then obtain l where "get_level h (header z) 0 = Some l" "forward l = Some p"
    using lseg0_first [of ps h "header z"] zsl_ok_pos [OF assms(2)] Cons by auto
  then show ?thesis using t n m Cons by (simp add: list_in_range_def)
qed

lemma descend_gte:
  assumes "valid" "zsl_ok h z ps" "sorted_wrt R (map (zkey h) ps)"
  shows "zsl_descend h (\<lambda>t n. map_option Not (gte n)) 64 (level z) 0 (header z) =
    Some (stops h (header z) (takeWhile (\<lambda>a. \<not> G (zkey h a)) ps) (level z))"
proof (rule zsl_descend_prefix [where Q = "\<lambda>k. \<not> G k"])
  show "cuts h (\<lambda>t n. map_option Not (gte n)) 0 ps (length (zprefix (\<lambda>k. \<not> G k) h ps))"
    unfolding cuts_def
  proof (intro allI impI)
    fix j
    assume j: "j < length ps"
    then have "ps ! j \<in> set ps" by simp
    from node_tests [OF assms(1,2) this] obtain n where "h (ps ! j) = Some n" "gte n = Some (G (zkey h (ps ! j)))" by blast
    then show "\<exists>n. h (ps ! j) = Some n \<and> map_option Not (gte n) = Some (j < length (zprefix (\<lambda>k. \<not> G k) h ps))"
      using down_closed_prefix [of R "zkey h" ps "\<lambda>k. \<not> G k" j, OF assms(3) _ j] gte_up [OF assms(1)] by auto
  qed
qed (use assms(2) in \<open>auto simp: zsl_ok_def zsl_links_def\<close>)

lemma descend_lte:
  assumes "valid" "zsl_ok h z ps" "sorted_wrt R (map (zkey h) ps)"
  shows "zsl_descend h (\<lambda>t n. lte n) 64 (level z) 0 (header z) =
    Some (stops h (header z) (takeWhile (\<lambda>a. L (zkey h a)) ps) (level z))"
proof (rule zsl_descend_prefix [where Q = L])
  show "cuts h (\<lambda>t n. lte n) 0 ps (length (zprefix L h ps))"
    unfolding cuts_def
  proof (intro allI impI)
    fix j
    assume j: "j < length ps"
    then have "ps ! j \<in> set ps" by simp
    from node_tests [OF assms(1,2) this] obtain n where "h (ps ! j) = Some n" "lte n = Some (L (zkey h (ps ! j)))" by blast
    then show "\<exists>n. h (ps ! j) = Some n \<and> lte n = Some (j < length (zprefix L h ps))"
      using down_closed_prefix [of R "zkey h" ps L j, OF assms(3) _ j] lte_down [OF assms(1)] by auto
  qed
qed (use assms(2) in \<open>auto simp: zsl_ok_def zsl_links_def\<close>)

lemma empty_range:
  assumes "valid" "sorted_wrt R (map (zkey h) ps)" "void \<or> ps = [] \<or> \<not> G (zkey h (last ps)) \<or> \<not> L (zkey h (hd ps))"
  shows "filter (member h) ps = []"
proof -
  have "\<not> member h a" if a: "a \<in> set ps" for a
  proof
    assume m: "member h a"
    have "G (zkey h (last ps))" using sorted_last [OF assms(2) a] gte_up [OF assms(1), of "zkey h a" "zkey h (last ps)"] m by auto
    moreover have "L (zkey h (hd ps))" using sorted_hd [OF assms(2) a] lte_down [OF assms(1), of "zkey h (hd ps)" "zkey h a"] m by auto
    ultimately show False using assms(3) a m void_law [OF assms(1), of "zkey h a"] by auto
  qed
  then show ?thesis by (simp add: filter_empty_conv)
qed

lemma first_correct:
  assumes "valid" "zsl_ok h z ps" "sorted_wrt R (map (zkey h) ps)"
  shows "first_in_range void gte lte h z = Some (first_of (filter (member h) ps))"
proof (cases "\<not> void \<and> ps \<noteq> [] \<and> G (zkey h (last ps)) \<and> L (zkey h (hd ps))")
  case False
  then show ?thesis using in_range_eq [OF assms(1,2)] empty_range [OF assms(1,3)] by (simp add: first_in_range_def)
next
  case True
  define xs where "xs = takeWhile (\<lambda>a. \<not> G (zkey h a)) ps"
  define ys where "ys = dropWhile (\<lambda>a. \<not> G (zkey h a)) ps"
  have ps: "ps = xs @ ys" by (simp add: xs_def ys_def)
  have "last ps \<in> set ps" using True by simp
  then have "ys \<noteq> []" using True by (auto simp: ys_def)
  then obtain y ys' where y: "ys = y # ys'" by (cases ys) auto
  from search_forward [OF assms(2) ps] obtain l where l: "get_level h (fst (stops h (header z) xs (level z) ! 0)) 0 = Some l" "forward l = Some y"
    using y by auto
  have "y \<in> set ps" using ps y by simp
  from node_tests [OF assms(1,2) this] obtain n where n: "h y = Some n" "lte n = Some (L (zkey h y))" by blast
  have "filter (member h) ps = takeWhile (\<lambda>a. L (zkey h a)) (y # ys')" using members(1) [OF assms(1,3)] y by (simp add: ys_def)
  then have "first_of (filter (member h) ps) = (if L (zkey h y) then Some y else None)" by simp
  then show ?thesis using True in_range_eq [OF assms(1,2)] descend_gte [OF assms] l n by (simp add: first_in_range_def xs_def)
qed

lemma last_correct:
  assumes "valid" "zsl_ok h z ps" "sorted_wrt R (map (zkey h) ps)"
  shows "last_in_range void gte lte h z = Some (last_or None (filter (member h) ps))"
proof (cases "\<not> void \<and> ps \<noteq> [] \<and> G (zkey h (last ps)) \<and> L (zkey h (hd ps))")
  case False
  then show ?thesis using in_range_eq [OF assms(1,2)] empty_range [OF assms(1,3)] by (simp add: last_in_range_def)
next
  case True
  define xs where "xs = takeWhile (\<lambda>a. L (zkey h a)) ps"
  define ys where "ys = dropWhile (\<lambda>a. L (zkey h a)) ps"
  have ps: "ps = xs @ ys" by (simp add: xs_def ys_def)
  have "xs \<noteq> []" using True by (cases ps) (auto simp: xs_def)
  then obtain as x where x: "xs = as @ [x]" by (cases xs rule: rev_cases) auto
  have k: "1 \<le> level z" "\<forall>b\<in>set xs. 0 < lv h b" using assms(2) zsl_ok_pos [OF assms(2)] ps by (auto simp: zsl_ok_def zsl_links_def)
  have st: "stops h (header z) xs (level z) ! 0 = (x, length xs)"
    using stops_nth [OF _ lastat0 [OF k(2)], of "level z"] k(1) x by simp
  have xm: "x \<in> set ps" "L (zkey h x)" using ps x set_takeWhileD [of x "\<lambda>a. L (zkey h a)" ps] by (auto simp: xs_def)
  from node_tests [OF assms(1,2) xm(1)] obtain n where n: "h x = Some n" "gte n = Some (G (zkey h x))" by blast
  have nL: "\<forall>b\<in>set ys. \<not> L (zkey h b)"
  proof (cases ys)
    case (Cons y ys')
    have "\<not> L (zkey h y)" using Cons hd_dropWhile [of "\<lambda>a. L (zkey h a)" ps] unfolding ys_def by simp
    moreover have "\<forall>b\<in>set ys'. R (zkey h y) (zkey h b)" using assms(3) ps Cons by (auto simp: sorted_wrt_append)
    ultimately show ?thesis using Cons lte_down [OF assms(1)] by (metis set_ConsD)
  qed simp
  have "last_or None (filter (member h) ps) = (if G (zkey h x) then Some x else None)"
  proof (cases "G (zkey h x)")
    case True
    have "filter (member h) ps = filter (member h) as @ [x]" using ps x True xm(2) nL by (simp add: filter_empty_conv)
    then show ?thesis using True by simp
  next
    case False
    have "\<forall>b\<in>set as. R (zkey h b) (zkey h x)" using assms(3) ps x by (auto simp: sorted_wrt_append)
    then have "\<forall>b\<in>set as. \<not> G (zkey h b)" using False gte_up [OF assms(1)] by metis
    then have "filter (member h) ps = []" using ps x False nL by (simp add: filter_empty_conv)
    then show ?thesis using False by simp
  qed
  then show ?thesis using True in_range_eq [OF assms(1,2)] descend_lte [OF assms] st n by (simp add: last_in_range_def xs_def)
qed

lemma delete_correct:
  fixes d :: "(sds, 'v) dict"
  assumes "valid" "zsl_ok h z ps" "sorted_wrt R (map (zkey h) ps)" "dict_inv d"
  shows "\<exists>h' z' d'.
    do { us \<leftarrow> zsl_descend h (\<lambda>t n. map_option Not (gte n)) 64 (level z) 0 (header z);
         l \<leftarrow> get_level h (fst (us ! 0)) 0;
         delete_range_loop (\<lambda>t. lte) (map fst us) h z d (forward l) 0 0 } = Some (length (filter (member h) ps), h', z', d') \<and>
    zsl_ok h' z' (filter (\<lambda>a. \<not> member h a) ps) \<and> header z' = header z \<and>
    core h' = (\<lambda>a. if a \<in> set ps \<and> member h a then None else core h a) \<and>
    dict_inv d' \<and> dict_type d' = dict_type d \<and>
    dict_map d' = drop_keys (dict_type d) (zele h ` set (filter (member h) ps)) (dict_map d)"
proof -
  define xs where "xs = takeWhile (\<lambda>a. \<not> G (zkey h a)) ps"
  define ys where "ys = filter (member h) ps"
  define zs where "zs = dropWhile (\<lambda>a. L (zkey h a)) (dropWhile (\<lambda>a. \<not> G (zkey h a)) ps)"
  have ps: "ps = xs @ ys @ zs" using members(1) [OF assms(1,3)] by (simp add: xs_def ys_def zs_def)
  have rest: "filter (\<lambda>a. \<not> member h a) ps = xs @ zs" using members(2) [OF assms(1,3)] by (simp add: xs_def zs_def)
  from search_forward [OF assms(2) ps] obtain l where l: "get_level h (fst (stops h (header z) xs (level z) ! 0)) 0 = Some l" "forward l = first_of (ys @ zs)"
    by (auto simp: first_of_def)
  have len: "length ys < 2 ^ 64" using assms(2) ps by (simp add: zsl_ok_def)
  have "\<exists>h' z' d'. delete_range_loop (\<lambda>t. lte) (map fst (stops h (header z) xs (level z))) h z d (first_of (ys @ zs)) 0 0 = Some (0 + length ys, h', z', d') \<and>
      zsl_ok h' z' (xs @ zs) \<and> header z' = header z \<and> core h' = (\<lambda>a. if a \<in> set ys then None else core h a) \<and>
      dict_inv d' \<and> dict_type d' = dict_type d \<and> dict_map d' = drop_keys (dict_type d) (zele h ` set ys) (dict_map d)"
  proof (rule delete_range_loop_correct [OF lte_cong assms(2) [unfolded ps] assms(4)])
    fix j n
    assume j: "j < length ys" "h (ys ! j) = Some n"
    have "ys ! j \<in> set ys" using j(1) by simp
    then have m: "ys ! j \<in> set ps" "L (zkey h (ys ! j))" by (auto simp: ys_def)
    from node_tests [OF assms(1,2) m(1)] show "lte n = Some True" using j(2) m(2) by auto
  next
    fix n
    assume zs: "zs \<noteq> []" "h (hd zs) = Some n"
    have "hd zs \<in> set ps" using zs(1) ps by simp
    moreover have "\<not> L (zkey h (hd zs))" using zs(1) hd_dropWhile unfolding zs_def by blast
    ultimately show "lte n = Some False" using node_tests [OF assms(1,2)] zs(2) by force
  qed (use len in auto)
  then obtain h' z' d' where r: "delete_range_loop (\<lambda>t. lte) (map fst (stops h (header z) xs (level z))) h z d (first_of (ys @ zs)) 0 0 = Some (length ys, h', z', d')"
    "zsl_ok h' z' (xs @ zs)" "header z' = header z" "core h' = (\<lambda>a. if a \<in> set ys then None else core h a)"
    "dict_inv d'" "dict_type d' = dict_type d" "dict_map d' = drop_keys (dict_type d) (zele h ` set ys) (dict_map d)" by auto
  have "core h' = (\<lambda>a. if a \<in> set ps \<and> member h a then None else core h a)" unfolding r(4) by (simp add: ys_def)
  moreover have "do { us \<leftarrow> zsl_descend h (\<lambda>t n. map_option Not (gte n)) 64 (level z) 0 (header z);
       l \<leftarrow> get_level h (fst (us ! 0)) 0;
       delete_range_loop (\<lambda>t. lte) (map fst us) h z d (forward l) 0 0 } = Some (length ys, h', z', d')"
    using descend_gte [OF assms(1-3)] l r(1) by (simp add: xs_def [symmetric])
  ultimately show ?thesis unfolding rest ys_def [symmetric] using r(2,3,5-7)
    by (intro exI [of _ h'] exI [of _ z'] exI [of _ d'] conjI)
qed

end

section \<open>The two kinds of range\<close>

interpretation by_score: zsl_range True "void_range r" "score_gte r" "score_lte r"
  "\<lambda>k. zslValueGteMin (fst k) r" "\<lambda>k. zslValueLteMax (fst k) r" "\<lambda>a b. fst a \<le> fst b"
  for r :: "('s :: linorder) zrangespec"
  by unfold_locales
    (auto simp: score_gte_def score_lte_def zslValueGteMin_def zslValueLteMax_def void_range_def split: if_splits)

text \<open>The bounds of a range by element, on the contents of the strings.\<close>

definition lex_above :: "zlexrangespec \<Rightarrow> string \<Rightarrow> bool" where
  "lex_above r t = (case lex_min r of
     Minstring \<Rightarrow> True | Maxstring \<Rightarrow> False
   | Lex_string m \<Rightarrow> byte_less (text_of m) t \<or> \<not> lex_minex r \<and> text_of m = t)"

definition lex_below :: "zlexrangespec \<Rightarrow> string \<Rightarrow> bool" where
  "lex_below r t = (case lex_max r of
     Minstring \<Rightarrow> False | Maxstring \<Rightarrow> True
   | Lex_string m \<Rightarrow> byte_less t (text_of m) \<or> \<not> lex_maxex r \<and> text_of m = t)"

fun lexstr_ok :: "lexstr \<Rightarrow> bool" where
  "lexstr_ok (Lex_string s) = sds_ok s"
| "lexstr_ok _ = True"

definition lexrange_ok :: "zlexrangespec \<Rightarrow> bool" where
  "lexrange_ok r \<longleftrightarrow> lexstr_ok (lex_min r) \<and> lexstr_ok (lex_max r)"

lemma sdscmp_cases:
  assumes "sds_ok a" "sds_ok b"
  shows "sdscmp a b < 0 \<longleftrightarrow> byte_less (text_of a) (text_of b)" "sdscmp a b > 0 \<longleftrightarrow> byte_less (text_of b) (text_of a)"
    "sdscmp a b \<ge> 0 \<longleftrightarrow> byte_less (text_of b) (text_of a) \<or> text_of a = text_of b"
    "sdscmp a b \<le> 0 \<longleftrightarrow> byte_less (text_of a) (text_of b) \<or> text_of a = text_of b"
  using byte_less_total [of "text_of a" "text_of b"] byte_less_antisym [of "text_of a" "text_of b"]
    byte_less_antisym [of "text_of a" "text_of a"]
  by (auto simp: sdscmp_eq [OF assms] cmp_spec_def)

lemma zslLexValueGteMin_eq: "lexrange_ok r \<Longrightarrow> sds_ok e \<Longrightarrow> zslLexValueGteMin e r = lex_above r (text_of e)"
  by (cases "lex_min r") (auto simp: zslLexValueGteMin_def lex_above_def lexrange_ok_def sdscmp_cases)

lemma zslLexValueLteMax_eq: "lexrange_ok r \<Longrightarrow> sds_ok e \<Longrightarrow> zslLexValueLteMax e r = lex_below r (text_of e)"
  by (cases "lex_max r") (auto simp: zslLexValueLteMax_def lex_below_def lexrange_ok_def sdscmp_cases)

lemma void_lexrange_law:
  assumes "lexrange_ok r" "void_lexrange r"
  shows "\<not> (lex_above r t \<and> lex_below r t)"
proof (cases "lex_min r"; cases "lex_max r")
  fix a b
  assume ab: "lex_min r = Lex_string a" "lex_max r = Lex_string b"
  then have ok: "sds_ok a" "sds_ok b" using assms(1) by (auto simp: lexrange_ok_def)
  have v: "byte_less (text_of b) (text_of a) \<or> text_of a = text_of b \<and> (lex_minex r \<or> lex_maxex r)"
    using assms(2) ab sdscmp_cases(2) [OF ok] sdscmp_zero [OF ok] by (auto simp: void_lexrange_def Let_def)
  show ?thesis
  proof
    assume m: "lex_above r t \<and> lex_below r t"
    have "byte_less (text_of a) (text_of b) \<or> text_of a = text_of b \<and> \<not> lex_minex r \<and> \<not> lex_maxex r"
      using m ab byte_less_trans [of "text_of a" t "text_of b"] by (auto simp: lex_above_def lex_below_def)
    then show False using v byte_less_antisym [of "text_of a" "text_of b"] byte_less_antisym [of "text_of a" "text_of a"] by auto
  qed
qed (use assms(2) in \<open>auto simp: lex_above_def lex_below_def void_lexrange_def\<close>)

interpretation by_lex: zsl_range "lexrange_ok r" "void_lexrange r" "lex_gte r" "lex_lte r"
  "\<lambda>k. lex_above r (snd k)" "\<lambda>k. lex_below r (snd k)" "\<lambda>a b. byte_less (snd a) (snd b)"
  for r
proof unfold_locales
  fix n :: "('s :: linorder) znode" and e
  assume h: "lexrange_ok r" "z_ele n = Some e" "sds_ok e"
  show "lex_gte r n = Some (lex_above r (snd (z_score n, text_of e)))" using h by (simp add: lex_gte_def zslLexValueGteMin_eq)
  show "lex_lte r n = Some (lex_below r (snd (z_score n, text_of e)))" using h by (simp add: lex_lte_def zslLexValueLteMax_eq)
next
  fix a b :: "'s \<times> string"
  assume h: "byte_less (snd a) (snd b)"
  then show "lex_above r (snd a) \<Longrightarrow> lex_above r (snd b)"
    by (auto simp: lex_above_def split: lexstr.splits intro: byte_less_trans)
  show "lex_below r (snd b) \<Longrightarrow> lex_below r (snd a)"
    using h by (auto simp: lex_below_def split: lexstr.splits intro: byte_less_trans)
next
  fix a :: "'s \<times> string"
  assume "lexrange_ok r" "void_lexrange r"
  then show "\<not> (lex_above r (snd a) \<and> lex_below r (snd a))" by (rule void_lexrange_law)
qed (auto simp: lex_lte_def)

text \<open>Sorted lists meet the order of both.\<close>

lemma sorted_scores: "sorted_wrt key_less ks \<Longrightarrow> sorted_wrt (\<lambda>a b. fst a \<le> fst b) ks"
  by (erule sorted_wrt_mono_rel [rotated]) auto

lemma sorted_elements:
  assumes "sorted_wrt key_less ks" "\<forall>k\<in>set ks. fst k = s"
  shows "sorted_wrt (\<lambda>a b. byte_less (snd a) (snd b)) ks"
proof (rule sorted_wrt_mono_rel [OF _ assms(1)])
  fix a b
  assume ab: "a \<in> set ks" "b \<in> set ks" "key_less a b"
  have "fst a = s" "fst b = s" using ab(1,2) assms(2) by blast+
  then have "key_less (s, snd a) (s, snd b)" using ab(3) by (metis prod.collapse)
  then show "byte_less (snd a) (snd b)" by simp
qed

end
