(* ===== verification/Zskiplist_Update.thy ===== *)
theory Zskiplist_Update
  imports Zskiplist_Range_Correct
begin

text \<open>Changing the score of an entry, in place or by moving it, and deletion by rank.\<close>

section \<open>Changing a score\<close>

lemma zback_last: "zsl_ok h z (xs @ x # ys) \<Longrightarrow> h x = Some n \<Longrightarrow> backward n = last_or None xs"
  by (auto simp: zsl_ok_def zsl_links_def zback_def meta_def)

lemma sorted_replace:
  assumes "sorted_wrt key_less (map f (xs @ x # ys))" "xs \<noteq> [] \<Longrightarrow> fst (f (last xs)) < fst k" "ys \<noteq> [] \<Longrightarrow> fst k < fst (f (hd ys))"
  shows "sorted_wrt key_less (map f xs @ k # map f ys)"
proof -
  have s: "sorted_wrt key_less (map f xs)" "sorted_wrt key_less (map f ys)" "\<forall>a\<in>set xs. \<forall>b\<in>set ys. key_less (f a) (f b)"
    using assms(1) by (auto simp: sorted_wrt_append)
  have "key_less (f a) k" if a: "a \<in> set xs" for a
  proof -
    have "fst (f (last xs)) < fst k" using a assms(2) by force
    moreover have "fst (f a) \<le> fst (f (last xs))" using sorted_last [OF sorted_scores [OF s(1)] a] by auto
    ultimately show ?thesis by (cases "f a"; cases k) auto
  qed
  moreover have "key_less k (f b)" if b: "b \<in> set ys" for b
  proof -
    have "fst k < fst (f (hd ys))" using b assms(3) by force
    moreover have "fst (f (hd ys)) \<le> fst (f b)" using sorted_hd [OF sorted_scores [OF s(2)] b] by auto
    ultimately show ?thesis by (cases "f b"; cases k) auto
  qed
  ultimately show ?thesis using s by (auto simp: sorted_wrt_append)
qed

lemma rescore_in_place:
  assumes ok: "zsl_ok h z (xs @ x # ys)" and n: "h x = Some n"
    and lo: "xs \<noteq> [] \<Longrightarrow> fst (zkey h (last xs)) < new" and hi: "ys \<noteq> [] \<Longrightarrow> new < fst (zkey h (hd ys))"
  defines "h' \<equiv> h(x := Some (n\<lparr>z_score := new\<rparr>))"
  shows "zsl_ok h' z (xs @ x # ys)" "core h' = (core h)(x := Some (z_ele n, new, length (levels n)))"
proof -
  let ?ps = "xs @ x # ys"
  show c: "core h' = (core h)(x := Some (z_ele n, new, length (levels n)))" by (auto simp: h'_def core_def fun_eq_iff)
  have gl: "get_level h' = get_level h" using n by (auto simp: h'_def get_level_def fun_eq_iff)
  have lv': "lv h' = lv h" using n by (auto simp: h'_def lv_def fun_eq_iff)
  have zb: "zback h' = zback h" using n by (auto simp: h'_def zback_def meta_def fun_eq_iff)
  have z: "zsl_links h (header z) (level z) ?ps" "sorted_wrt key_less (map (zkey h) ?ps)" using ok by (auto simp: zsl_ok_def)
  have xh: "header z \<noteq> x" "x \<notin> set xs" "x \<notin> set ys" using z(1) by (auto simp: zsl_links_def)
  have cx: "core h x = Some (z_ele n, z_score n, length (levels n))" using n by (simp add: core_def)
  have nk: "\<forall>a\<in>set ?ps. node_ok h' (level z) a"
  proof
    fix a
    assume "a \<in> set ?ps"
    then have "node_ok h (level z) a" using z(1) by (auto simp: zsl_links_def)
    then show "node_ok h' (level z) a" using cx by (cases "a = x") (auto simp: node_ok_core c)
  qed
  have kk: "map (zkey h') xs = map (zkey h) xs" "map (zkey h') ys = map (zkey h) ys"
    using xh by (auto simp: zkey_core c)
  have "zsl_links h' (header z) (level z) ?ps"
    using z(1) nk xh(1) lseg_cong [OF lv' gl] backs_same [of ?ps h' h None]
    unfolding zsl_links_core by (auto simp: c gl zb)
  moreover have "sorted_wrt key_less (map (zkey h) xs @ zkey h' x # map (zkey h) ys)"
  proof (rule sorted_replace [OF z(2)])
    have "fst (zkey h' x) = new" by (simp add: zkey_core c)
    then show "xs \<noteq> [] \<Longrightarrow> fst (zkey h (last xs)) < fst (zkey h' x)" "ys \<noteq> [] \<Longrightarrow> fst (zkey h' x) < fst (zkey h (hd ys))"
      using lo hi by auto
  qed
  then have "sorted_wrt key_less (map (zkey h') ?ps)" by (simp only: map_append list.map kk)
  ultimately show "zsl_ok h' z ?ps" using ok by (simp add: zsl_ok_def lv')
qed

text \<open>What a change of the score of node \<open>x\<close>, now \<open>y\<close>, does to the contents of the nodes.\<close>

definition rescored :: "'s zheap \<Rightarrow> 's zheap \<Rightarrow> zaddr \<Rightarrow> zaddr \<Rightarrow> 's \<Rightarrow> bool" where
  "rescored h h' x y new \<longleftrightarrow>
     (\<exists>k. core h' y = Some (Some (zele h x), new, k)) \<and> (\<forall>a. a \<noteq> x \<and> a \<noteq> y \<longrightarrow> core h' a = core h a) \<and>
     (y \<noteq> x \<longrightarrow> core h' x = None \<and> core h y = None)"

lemma zslUpdateScore_correct:
  assumes ok: "zsl_ok h z (xs @ x # ys)" and fin: "finite (dom h)" and al: "zalloc_ok al" and L: "zslRandomLevel rs = Some L"
    and ele: "sds_ok ele" and key: "zkey h x = (cur, text_of ele)" and new: "(new, text_of ele) \<notin> zkey h ` set (xs @ ys)"
  obtains h' z' y ps' where "zslUpdateScore al rs h z cur ele new = Some (h', z', y)" "zsl_ok h' z' ps'"
    "set ps' = insert y (set (xs @ ys))" "rescored h h' x y new" "header z' = header z"
proof -
  let ?ps = "xs @ x # ys" and ?k = "(cur, text_of ele)" and ?hdr = "header z"
  have z: "zsl_links h ?hdr (level z) ?ps" "sorted_wrt key_less (map (zkey h) ?ps)" "length ?ps < 2 ^ 64" "length ?ps < 2 ^ 32"
    using ok by (auto simp: zsl_ok_def)
  have "\<forall>a\<in>set xs. key_less (zkey h a) ?k" using z(2) key by (auto simp: sorted_wrt_append)
  then have xs: "zprefix (\<lambda>e. key_less e ?k) h ?ps = xs" using key by (simp add: takeWhile_append2)
  have desc: "zsl_descend h (zsl_before cur ele) 64 (level z) 0 ?hdr = Some (stops h ?hdr xs (level z))"
    using zsl_descend_ok [OF z(1-3) ele, of cur] unfolding xs .
  from search_forward [OF ok refl] obtain l where l: "get_level h (fst (stops h ?hdr xs (level z) ! 0)) 0 = Some l" "forward l = Some x" by auto
  obtain n where n: "h x = Some n" "z_ele n = Some (zele h x)" "sds_ok (zele h x)" "zkey h x = (z_score n, text_of (zele h x))"
    by (rule node_core [OF ok, of x]) auto
  have eq: "z_score n = cur" "sdscmp (zele h x) ele = 0" using key n(3,4) ele by (auto simp: sdscmp_zero)
  have bk: "backward n = last_or None xs" by (rule zback_last [OF ok n(1)])
  from node_forward [OF ok] obtain xl where xl: "get_level h x 0 = Some xl" "forward xl = first_of ys" by blast
  define lo where "lo \<longleftrightarrow> (xs \<noteq> [] \<longrightarrow> fst (zkey h (last xs)) < new)"
  define hi where "hi \<longleftrightarrow> (ys \<noteq> [] \<longrightarrow> new < fst (zkey h (hd ys)))"
  have back_ok: "(case backward n of None \<Rightarrow> Some True | Some b \<Rightarrow> map_option (\<lambda>m. z_score m < new) (h b)) = Some lo"
  proof (cases "xs = []")
    case False
    then have "last xs \<in> set ?ps" by simp
    from node_core [OF ok this] obtain m where "h (last xs) = Some m" "zkey h (last xs) = (z_score m, text_of (zele h (last xs)))" by metis
    then show ?thesis using False bk by (simp add: lo_def last_or_def)
  qed (simp add: bk lo_def)
  have forw_ok: "(case forward xl of None \<Rightarrow> Some True | Some f \<Rightarrow> map_option (\<lambda>m. z_score m > new) (h f)) = Some hi"
  proof (cases ys)
    case (Cons y ys')
    then have "y \<in> set ?ps" by simp
    from node_core [OF ok this] obtain m where "h y = Some m" "zkey h y = (z_score m, text_of (zele h y))" by metis
    then show ?thesis using Cons xl(2) by (simp add: hi_def)
  qed (simp add: xl hi_def)
  note run = zslUpdateScore_def desc l n(1,2) eq back_ok xl(1) forw_ok
  show thesis
  proof (cases "lo \<and> hi")
    case True
    let ?h = "h(x := Some (n\<lparr>z_score := new\<rparr>))"
    have r: "zsl_ok ?h z ?ps" "core ?h = (core h)(x := Some (z_ele n, new, length (levels n)))"
      using rescore_in_place [OF ok n(1)] True by (auto simp: lo_def hi_def)
    have "zslUpdateScore al rs h z cur ele new = Some (?h, z, x)" using True by (simp add: run)
    moreover have "rescored h ?h x x new" using n(2) by (simp add: rescored_def r(2))
    ultimately show ?thesis using that r(1) by auto
  next
    case False
    from zslDeleteNode_correct [OF ok] obtain h1 z1 where
      d: "zslDeleteNode h z x (map fst (stops h ?hdr xs (level z))) = Some (h1, z1)" "zsl_ok h1 z1 (xs @ ys)" "core h1 = core h" "header z1 = ?hdr"
      by blast
    have dm: "dom h1 = dom h" using d(3) dom_core by metis
    have k1: "zkey h1 = zkey h" by (simp add: fun_eq_iff zkey_core d(3))
    have n1: "(new, text_of (zele h x)) \<notin> zkey h1 ` set (xs @ ys)" using new key n(4) k1 by simp
    have "finite (dom h1)" "length (xs @ ys) < 2 ^ 32 - 1" using fin dm z(4) by auto
    define ws where "ws = zprefix (\<lambda>e. key_less e (new, text_of (zele h x))) h1 (xs @ ys)"
    define vs where "vs = dropWhile (\<lambda>a. key_less (zkey h1 a) (new, text_of (zele h x))) (xs @ ys)"
    have wv: "ws @ vs = xs @ ys" by (simp add: ws_def vs_def)
    from zslInsert_correct [OF d(2) \<open>finite (dom h1)\<close> al L n(3) n1 \<open>length (xs @ ys) < 2 ^ 32 - 1\<close>] obtain h2 z2 y where
      i: "zslInsert al rs h1 z1 (Some new) (zele h x) = Some (h2, z2, y)" "zsl_ok h2 z2 (ws @ y # vs)" "h1 y = None"
        "header z2 = header z1" "core h2 = (core h1)(y := Some (Some (zele h x), new, L))"
      unfolding ws_def vs_def by blast
    have "h x \<noteq> None" using n(1) by simp
    then have yx: "y \<noteq> x" using i(3) dm by blast
    have xn: "x \<notin> set (header z2 # ws @ y # vs)"
    proof -
      have "x \<notin> set (?hdr # xs @ ys)" using z(1) by (auto simp: zsl_links_def)
      moreover have "set ws \<union> set vs = set (xs @ ys)" using wv by (metis set_append)
      ultimately show ?thesis using yx i(4) d(4) by auto
    qed
    then have "\<forall>a\<in>set (header z2 # ws @ y # vs). zslFreeNode x h2 a = h2 a" by (auto simp: zslFreeNode_def)
    then have o2: "zsl_ok (zslFreeNode x h2) z2 (ws @ y # vs)" by (rule zsl_ok_agree [OF i(2)])
    have c2: "core (zslFreeNode x h2) = (core h)(x := None, y := Some (Some (zele h x), new, L))"
      using i(5) d(3) yx by (auto simp: zslFreeNode_def core_def fun_eq_iff)
    have "core h y = None" using i(3) dm dom_core [of h] by blast
    then have rs: "rescored h (zslFreeNode x h2) x y new" using yx by (simp add: rescored_def c2)
    have "zslUpdateScore al rs h z cur ele new = Some (zslFreeNode x h2, z2, y)" using False by (auto simp add: run d(1) i(1))
    moreover have "set (ws @ y # vs) = insert y (set (xs @ ys))" using wv by (metis Un_insert_right list.simps(15) set_append)
    ultimately show ?thesis using that o2 rs i(4) d(4) by metis
  qed
qed

section \<open>Deletion by rank\<close>

lemma zslDeleteRangeByRank_correct:
  fixes d :: "(sds, 'v) dict"
  assumes ok: "zsl_ok h z ps" and d: "dict_inv d" and st: "1 \<le> start" "stop < 2 ^ 32"
  defines "ys \<equiv> take (stop + 1 - start) (drop (start - 1) ps)"
  shows "\<exists>h' z' d'. zslDeleteRangeByRank h z start stop d = Some (length ys, h', z', d') \<and>
    zsl_ok h' z' (take (start - 1) ps @ drop (stop + 1 - start) (drop (start - 1) ps)) \<and> header z' = header z \<and>
    core h' = (\<lambda>a. if a \<in> set ys then None else core h a) \<and>
    dict_inv d' \<and> dict_type d' = dict_type d \<and> dict_map d' = drop_keys (dict_type d) (zele h ` set ys) (dict_map d)"
proof -
  let ?hdr = "header z"
  define xs where "xs = take (start - 1) ps"
  define zs where "zs = drop (stop + 1 - start) (drop (start - 1) ps)"
  have ps: "ps = xs @ ys @ zs" by (simp only: xs_def ys_def zs_def append_take_drop_id)
  have len: "length ps < 2 ^ 32" using ok by (simp add: zsl_ok_def)
  have lx: "length xs = min (length ps) (start - 1)" by (simp add: xs_def)
  have z: "\<forall>i<level z. lseg h i ?hdr 0 (xs @ ys @ zs)" "1 \<le> level z" using ok ps by (auto simp: zsl_ok_def zsl_links_def)
  have "cuts h (\<lambda>t n. Some (t < start)) 0 (xs @ ys @ zs) (length xs)"
    unfolding cuts_def
  proof (intro allI impI)
    fix j
    assume "j < length (xs @ ys @ zs)"
    then have j: "j < length ps" unfolding ps [symmetric] .
    then have "ps ! j \<in> set ps" by (rule nth_mem)
    from node_core [OF ok this] obtain n where "h (ps ! j) = Some n" by metis
    moreover have "j + 1 < start \<longleftrightarrow> j < length xs" using j st(1) lx by auto
    ultimately show "\<exists>n. h ((xs @ ys @ zs) ! j) = Some n \<and> Some (0 + j + 1 < start) = Some (j < length xs)"
      unfolding ps [symmetric] by simp
  qed
  from zsl_descend_correct [OF z(1) this _ _ , of 64 "[]" xs ?hdr] have desc:
    "zsl_descend h (\<lambda>t n. Some (t < start)) 64 (level z) 0 ?hdr = Some (stops h ?hdr xs (level z))"
    using len ps by (simp add: on_path_def)
  have pos: "\<forall>b\<in>set xs. 0 < lv h b" using zsl_ok_pos [OF ok] ps by simp
  have s0: "stops h ?hdr xs (level z) ! 0 = (the (last_or (Some ?hdr) xs), length xs)"
    using stops_nth [OF _ lastat0 [OF pos], of "level z"] z(2) by simp
  from search_forward [OF ok ps] obtain l where l: "get_level h (the (last_or (Some ?hdr) xs)) 0 = Some l" "forward l = first_of (ys @ zs)"
    by (auto simp: first_of_def s0)
  have a1: "addw 64 (length xs) 1 = length xs + 1" using len lx by (intro addw_small) simp
  have "\<exists>h' z' d'. delete_range_loop (\<lambda>t n. Some (t \<le> stop)) (map fst (stops h ?hdr xs (level z))) h z d (first_of (ys @ zs)) (length xs + 1) 0 =
        Some (0 + length ys, h', z', d') \<and>
      zsl_ok h' z' (xs @ zs) \<and> header z' = header z \<and> core h' = (\<lambda>a. if a \<in> set ys then None else core h a) \<and>
      dict_inv d' \<and> dict_type d' = dict_type d \<and> dict_map d' = drop_keys (dict_type d) (zele h ` set ys) (dict_map d)"
  proof (rule delete_range_loop_correct [OF _ ok [unfolded ps] d])
    fix j n
    assume "j < length ys"
    then show "Some (length xs + 1 + j \<le> stop) = Some True" using st(1) lx by (auto simp: ys_def)
  next
    assume "zs \<noteq> []"
    then have "length ys = stop + 1 - start" "length xs = start - 1" using lx by (auto simp: zs_def ys_def)
    then show "Some (length xs + 1 + length ys \<le> stop) = Some False"
      using st(1) by auto
  qed (use len ps in auto)
  then obtain h' z' d' where r: "delete_range_loop (\<lambda>t n. Some (t \<le> stop)) (map fst (stops h ?hdr xs (level z))) h z d (first_of (ys @ zs)) (length xs + 1) 0 =
        Some (length ys, h', z', d')"
      "zsl_ok h' z' (xs @ zs)" "header z' = header z" "core h' = (\<lambda>a. if a \<in> set ys then None else core h a)"
      "dict_inv d'" "dict_type d' = dict_type d" "dict_map d' = drop_keys (dict_type d) (zele h ` set ys) (dict_map d)" by auto
  have "zslDeleteRangeByRank h z start stop d = Some (length ys, h', z', d')"
    using r(1) l by (simp add: zslDeleteRangeByRank_def desc s0 Let_def a1 del: One_nat_def)
  then show ?thesis using r(2-7) unfolding xs_def [symmetric] zs_def [symmetric] by blast
qed

section \<open>Freeing a list\<close>

lemma zsl_free_loop_correct:
  "lseg h 0 a 0 ps \<Longrightarrow> \<forall>c\<in>set ps. 0 < lv h c \<Longrightarrow> distinct (a # ps) \<Longrightarrow>
   zsl_free_loop h (Some a) = Some (\<lambda>c. if c \<in> set (a # ps) then None else h c)"
proof (induction ps arbitrary: a h)
  case Nil
  then have "get_level h a 0 = Some \<lparr>forward = None, span = 0\<rparr>" by simp
  then have "zsl_free_loop h (Some a) = zsl_free_loop (zslFreeNode a h) None" by (subst zsl_free_loop.simps) simp
  also have "\<dots> = Some (zslFreeNode a h)" by (subst zsl_free_loop.simps) simp
  finally show ?case by (auto simp: zslFreeNode_def)
next
  case (Cons c ps)
  let ?h = "zslFreeNode a h"
  have l: "get_level h a 0 = Some \<lparr>forward = Some c, span = 1\<rparr>" "lseg h 0 c 0 ps" using Cons.prems(1,2) by auto
  have same: "lv ?h d = lv h d" "get_level ?h d 0 = get_level h d 0" if "d \<in> set (c # ps)" for d
    using that Cons.prems(3) by (auto simp: zslFreeNode_def lv_def get_level_def)
  have "lseg ?h 0 c 0 ps" using lseg_agree [of ps ?h h 0 c 0] same l(2) by simp
  then have "zsl_free_loop ?h (Some c) = Some (\<lambda>d. if d \<in> set (c # ps) then None else ?h d)"
    using Cons.IH [of ?h c] Cons.prems(2,3) same(1) by simp
  moreover have "zsl_free_loop h (Some a) = zsl_free_loop ?h (Some c)" using l(1) by (subst zsl_free_loop.simps) simp
  ultimately show ?case by (auto simp: zslFreeNode_def)
qed

lemma zslFree_correct:
  assumes "zsl_ok h z ps"
  shows "zslFree h z = Some (\<lambda>a. if a \<in> set (header z # ps) then None else h a)"
proof -
  let ?h = "h(header z := None)"
  have z: "lseg h 0 (header z) 0 ps" "distinct (header z # ps)" using assms by (auto simp: zsl_ok_def zsl_links_def)
  have pos: "\<forall>b\<in>set ps. 0 < lv h b" using zsl_ok_pos [OF assms] by blast
  obtain l where l: "get_level h (header z) 0 = Some l" "forward l = first_of ps"
    using lseg0_first [OF pos z(1)] by (auto simp: first_of_def)
  show ?thesis
  proof (cases ps)
    case Nil
    then show ?thesis using l by (simp add: zslFree_def) (subst zsl_free_loop.simps, auto)
  next
    case (Cons p qs)
    have same: "lv ?h d = lv h d" "get_level ?h d 0 = get_level h d 0" if "d \<in> set ps" for d
      using that z(2) by (auto simp: lv_def get_level_def)
    have "lseg h 0 p 0 qs" using z(1) pos Cons by simp
    then have "lseg ?h 0 p 0 qs" using lseg_agree [of qs ?h h 0 p 0] same Cons by simp
    then have "zsl_free_loop ?h (Some p) = Some (\<lambda>c. if c \<in> set (p # qs) then None else ?h c)"
      using zsl_free_loop_correct [of ?h p qs] pos z(2) same(1) Cons by simp
    then show ?thesis using l Cons by (auto simp: zslFree_def)
  qed
qed

end
