(* ===== verification/Zset_Correct.thy ===== *)
theory Zset_Correct
  imports Zset Zskiplist_Update
begin

text \<open>
  A sorted set represents a finite map from elements to scores. Its invariant ties the dictionary
  to the skip list: each element is found in the dictionary under exactly the node that carries it.
\<close>

section \<open>The dictionary type\<close>

lemma ccode_eq: "ccode a = ccode b \<Longrightarrow> a = b"
  by (simp add: ccode_def)

lemma memcmp_area: "memcmp s t n = 0 \<longleftrightarrow> area s n = area t n"
proof (induction n arbitrary: s t)
  case (Suc n)
  then show ?case using ccode_eq [of "hd s" "hd t"] by (auto simp: not_less)
qed simp

lemma area_take: "n \<le> length b \<Longrightarrow> area b n = take n b"
  by (induction n arbitrary: b) (auto simp: take_Suc Suc_le_length_iff)

lemma keq_zset: "keq (zsetDictType f) a b \<longleftrightarrow> area (buf a) (sdslen a) = area (buf b) (sdslen b) \<and> sdslen a = sdslen b"
  by (auto simp: keq_def dictCompareKeys_def zsetDictType_def dictSdsKeyCompare_def Let_def memcmp_area)

lemma zset_type_ok: "dtype_ok (zsetDictType f)"
  unfolding dtype_ok_def keq_zset by (auto simp: zsetDictType_def dictSdsHash_def)

lemma area_text: "sds_ok s \<Longrightarrow> area (buf s) (sdslen s) = text_of s"
  by (simp add: area_take sds_ok_def sdslen_def text_of_def)

lemma keq_text: "sds_ok a \<Longrightarrow> sds_ok b \<Longrightarrow> keq (zsetDictType f) a b \<longleftrightarrow> text_of a = text_of b"
  using length_text_of [of a] length_text_of [of b] by (auto simp: keq_zset area_text)

section \<open>The invariant\<close>

definition zdict :: "'s zheap \<Rightarrow> (sds, zaddr) dict \<Rightarrow> zaddr set \<Rightarrow> bool" where
  "zdict h d A \<longleftrightarrow>
     (\<forall>e v. sds_ok e \<longrightarrow> dict_map d e = Some v \<longleftrightarrow> (\<exists>a\<in>A. v = Some a \<and> text_of (zele h a) = text_of e))"

definition zset_inv :: "(string \<Rightarrow> u64) \<Rightarrow> ('s :: linorder) zheap \<Rightarrow> zset \<Rightarrow> zaddr list \<Rightarrow> bool" where
  "zset_inv f h zs ps \<longleftrightarrow>
     zsl_ok h (zs_zsl zs) ps \<and> finite (dom h) \<and> dict_inv (zs_dict zs) \<and> dict_type (zs_dict zs) = zsetDictType f \<and>
     dictSize (zs_dict zs) = length ps \<and> zdict h (zs_dict zs) (set ps)"

text \<open>The sorted set represents the map \<open>m\<close> from elements to scores.\<close>

definition zset_repr :: "(string \<Rightarrow> u64) \<Rightarrow> ('s :: linorder) zheap \<Rightarrow> zset \<Rightarrow> (string \<Rightarrow> 's option) \<Rightarrow> bool" where
  "zset_repr f h zs m \<longleftrightarrow> (\<exists>ps. zset_inv f h zs ps \<and> (\<forall>s t. m t = Some s \<longleftrightarrow> (s, t) \<in> zkey h ` set ps))"

lemma zkey_zele: "zsl_ok h z ps \<Longrightarrow> a \<in> set ps \<Longrightarrow> snd (zkey h a) = text_of (zele h a) \<and> sds_ok (zele h a)"
  by (rule node_core) auto

lemma same_text:
  assumes "zset_inv f h zs ps" "a \<in> set ps" "b \<in> set ps" "text_of (zele h a) = text_of (zele h b)"
  shows "a = b"
proof -
  have "sds_ok (zele h a)" "zdict h (zs_dict zs) (set ps)" using assms(1,2) zkey_zele by (auto simp: zset_inv_def)
  then have d: "dict_map (zs_dict zs) (zele h a) = Some v \<longleftrightarrow> (\<exists>c\<in>set ps. v = Some c \<and> text_of (zele h c) = text_of (zele h a))" for v
    unfolding zdict_def by blast
  have "dict_map (zs_dict zs) (zele h a) = Some (Some a)" "dict_map (zs_dict zs) (zele h a) = Some (Some b)"
    unfolding d using assms(2-4) by auto
  then show ?thesis by simp
qed

lemma distinct_texts:
  assumes "zset_inv f h zs ps"
  shows "distinct (map (\<lambda>b. snd (zkey h b)) ps)"
proof -
  have z: "zsl_ok h (zs_zsl zs) ps" using assms by (simp add: zset_inv_def)
  have "inj_on (\<lambda>b. snd (zkey h b)) (set ps)"
    using same_text [OF assms] zkey_zele [OF z] by (intro inj_onI) simp
  then show ?thesis using z by (auto simp: distinct_map zsl_ok_def zsl_links_def)
qed

lemma zset_lookup:
  assumes inv: "zset_inv f h zs ps" and ele: "sds_ok ele"
  obtains (missing) d' where "dictFind (zs_dict zs) ele = Some (None, d')" "dict_map d' = dict_map (zs_dict zs)"
      "zset_inv f h (zs\<lparr>zs_dict := d'\<rparr>) ps" "\<forall>a\<in>set ps. text_of (zele h a) \<noteq> text_of ele" "dict_map d' ele = None"
  | (found) d' r e a where "dictFind (zs_dict zs) ele = Some (Some r, d')" "dict_map d' = dict_map (zs_dict zs)"
      "zset_inv f h (zs\<lparr>zs_dict := d'\<rparr>) ps" "deref d' r = Some e" "keq (zsetDictType f) ele (fst e)" "snd e = Some a" "a \<in> set ps"
      "text_of (zele h a) = text_of ele" "entry_score h e = Some (fst (zkey h a))"
proof -
  let ?d = "zs_dict zs"
  have i: "zsl_ok h (zs_zsl zs) ps" "dict_inv ?d" "dict_type ?d = zsetDictType f" "zdict h ?d (set ps)" "dictSize ?d = length ps"
    using inv by (auto simp: zset_inv_def)
  obtain r d' where r: "dictFind ?d ele = Some (r, d')" "dict_inv d'" "same_content ?d d'" "ref_ok d' ele r"
    using dictFind_correct [OF i(2)] by blast
  have m: "dict_map d' = dict_map ?d" by (rule same_content_map [OF i(2) r(3)])
  have ty: "dict_type d' = zsetDictType f" using r(3) i(3) by (simp add: same_content_def)
  have sz: "dictSize d' = length ps" using same_content_size [OF i(2) r(2,3)] i(5) by simp
  have inv': "zset_inv f h (zs\<lparr>zs_dict := d'\<rparr>) ps" using inv r(2) ty sz m by (simp add: zset_inv_def zdict_def)
  have z: "dict_map ?d ele = Some v \<longleftrightarrow> (\<exists>a\<in>set ps. v = Some a \<and> text_of (zele h a) = text_of ele)" for v
    using i(4) ele unfolding zdict_def by blast
  show thesis
  proof (cases r)
    case None
    then have n: "dict_map ?d ele = None" using r(4) m by (simp add: ref_ok_def)
    then have "\<forall>a\<in>set ps. text_of (zele h a) \<noteq> text_of ele" using z by fastforce
    then show ?thesis using missing None r(1) m inv' n by simp
  next
    case (Some p)
    then obtain e where e: "deref d' p = Some e" "keq (zsetDictType f) ele (fst e)" "dict_map ?d ele = Some (snd e)"
      using r(4) m ty by (auto simp: ref_ok_def)
    then obtain a where a: "a \<in> set ps" "snd e = Some a" "text_of (zele h a) = text_of ele" using z by auto
    from node_core [OF i(1) a(1)] obtain n where "h a = Some n" "zkey h a = (z_score n, text_of (zele h a))" by metis
    then have "entry_score h e = Some (fst (zkey h a))" using a(2) by (simp add: entry_score_def)
    then show ?thesis using found Some r(1) m inv' e(1,2) a by blast
  qed
qed

text \<open>
  Replacing what is stored under one element, by a node with a score or by nothing, keeps the
  invariant.
\<close>

lemma zset_change:
  fixes v :: "(zaddr \<times> ('s :: linorder)) option"
  assumes inv: "zset_inv f h zs ps" and rep: "\<forall>s t. m t = Some s \<longleftrightarrow> (s, t) \<in> zkey h ` set ps"
    and ele: "sds_ok ele" and z: "zsl_ok h' z' ps'" and fin: "finite (dom h')"
    and d: "dict_inv d'" "dict_type d' = zsetDictType f" "dictSize d' = length ps'"
      "dict_map d' = upd_eq (zsetDictType f) (dict_map (zs_dict zs)) ele (map_option (Some \<circ> fst) v)"
    and set': "set ps' = set_option (map_option fst v) \<union> {a\<in>set ps. text_of (zele h a) \<noteq> text_of ele}"
    and old: "\<And>a. a \<in> set ps \<Longrightarrow> text_of (zele h a) \<noteq> text_of ele \<Longrightarrow> core h' a = core h a"
    and y: "\<And>y s. v = Some (y, s) \<Longrightarrow> zkey h' y = (s, text_of ele)"
  shows "zset_repr f h' (zs\<lparr>zs_dict := d', zs_zsl := z'\<rparr>) (m(text_of ele := map_option snd v))"
proof -
  let ?A = "{a\<in>set ps. text_of (zele h a) \<noteq> text_of ele}"
  have zs: "zdict h (zs_dict zs) (set ps)" "zsl_ok h (zs_zsl zs) ps" using inv by (auto simp: zset_inv_def)
  have same: "zele h' a = zele h a" "zkey h' a = zkey h a" if "a \<in> ?A" for a using old that by (simp_all add: zele_def zkey_core)
  have yt: "text_of (zele h' y) = text_of ele" if "v = Some (y, s)" for y s
  proof -
    have "y \<in> set ps'" using set' that by simp
    then show ?thesis using zkey_zele [OF z] y [OF that] by fastforce
  qed
  have "zdict h' d' (set ps')"
    unfolding zdict_def
  proof (intro allI impI)
    fix e w
    assume e: "sds_ok e"
    show "dict_map d' e = Some w \<longleftrightarrow> (\<exists>a\<in>set ps'. w = Some a \<and> text_of (zele h' a) = text_of e)"
    proof (cases "text_of e = text_of ele")
      case True
      then have "dict_map d' e = map_option (Some \<circ> fst) v" using keq_text [OF e ele] by (simp add: d(4) upd_eq_def)
      moreover have "(\<exists>a\<in>set ps'. w = Some a \<and> text_of (zele h' a) = text_of e) \<longleftrightarrow> (\<exists>y s. v = Some (y, s) \<and> w = Some y)"
        using True yt same(1) by (cases v) (force simp: set')+
      ultimately show ?thesis by (cases v) (auto simp: split_paired_all)
    next
      case False
      then have "dict_map d' e = dict_map (zs_dict zs) e" using keq_text [OF e ele] by (simp add: d(4) upd_eq_def)
      moreover have "(\<exists>a\<in>set ps'. w = Some a \<and> text_of (zele h' a) = text_of e) \<longleftrightarrow> (\<exists>a\<in>set ps. w = Some a \<and> text_of (zele h a) = text_of e)"
        using False yt same(1) by (cases v) (force simp: set')+
      ultimately show ?thesis using zs(1) e unfolding zdict_def by simp
    qed
  qed
  then have "zset_inv f h' (zs\<lparr>zs_dict := d', zs_zsl := z'\<rparr>) ps'" using z fin d by (simp add: zset_inv_def)
  moreover have "(m(text_of ele := map_option snd v)) t = Some s \<longleftrightarrow> (s, t) \<in> zkey h' ` set ps'" for s t
  proof (cases "t = text_of ele")
    case True
    have "(s, t) \<in> zkey h' ` set ps' \<longleftrightarrow> (\<exists>y. v = Some (y, s))"
    proof
      assume "(s, t) \<in> zkey h' ` set ps'"
      then obtain a where a: "a \<in> set ps'" "zkey h' a = (s, t)" by force
      have "a \<notin> ?A"
      proof
        assume A: "a \<in> ?A"
        then have "snd (zkey h a) = t" using same(2) [OF A] a(2) by (metis snd_conv)
        then show False using A zkey_zele [OF zs(2), of a] True by simp
      qed
      then show "\<exists>y. v = Some (y, s)" using a y set' by fastforce
    next
      assume "\<exists>y. v = Some (y, s)"
      then show "(s, t) \<in> zkey h' ` set ps'" using y True by (force simp: set')
    qed
    then show ?thesis using True by (cases v) auto
  next
    case False
    have "(s, t) \<in> zkey h' ` set ps' \<longleftrightarrow> (s, t) \<in> zkey h ` set ps"
    proof
      assume "(s, t) \<in> zkey h' ` set ps'"
      then obtain a where a: "a \<in> set ps'" "zkey h' a = (s, t)" by force
      then have "a \<in> ?A" using y set' False by (cases v) force+
      then show "(s, t) \<in> zkey h ` set ps" using a(2) same(2) by (metis (no_types, lifting) image_eqI mem_Collect_eq)
    next
      assume "(s, t) \<in> zkey h ` set ps"
      then obtain a where a: "a \<in> set ps" "zkey h a = (s, t)" by force
      then have "text_of (zele h a) = t" using zkey_zele [OF zs(2), of a] by simp
      then have A: "a \<in> ?A" using a(1) False by simp
      then have "zkey h' a = (s, t)" "a \<in> set ps'" using a(2) same(2) [OF A] set' by auto
      then show "(s, t) \<in> zkey h' ` set ps'" by force
    qed
    then show ?thesis using False rep by simp
  qed
  ultimately show ?thesis unfolding zset_repr_def by blast
qed

section \<open>Adding\<close>

text \<open>What \<^verbatim>\<open>zsetAdd\<close> does to a map from elements to scores.\<close>

definition zadd_spec ::
  "(('s :: linorder) \<Rightarrow> 's \<Rightarrow> 's option) \<Rightarrow> zadd_flags \<Rightarrow> (string \<Rightarrow> 's option) \<Rightarrow> string \<Rightarrow> 's option \<Rightarrow>
   bool \<times> zadd_out \<times> 's option \<times> (string \<Rightarrow> 's option)" where
  "zadd_spec add_double fl m t score =
     (case score of
        None \<Rightarrow> (False, ZADD_OUT_NAN, None, m)
      | Some s \<Rightarrow>
          (case m t of
             None \<Rightarrow> if zadd_xx fl then (True, ZADD_OUT_NOP, None, m) else (True, ZADD_OUT_ADDED, Some s, m(t \<mapsto> s))
           | Some cur \<Rightarrow>
               if zadd_nx fl then (True, ZADD_OUT_NOP, None, m)
               else (case (if zadd_incr fl then add_double s cur else Some s) of
                  None \<Rightarrow> (False, ZADD_OUT_NAN, None, m)
                | Some new \<Rightarrow>
                    if zadd_lt fl \<and> new \<ge> cur \<or> zadd_gt fl \<and> new \<le> cur then (True, ZADD_OUT_NOP, None, m)
                    else (True, if new = cur then ZADD_OUT_NONE else ZADD_OUT_UPDATED, Some new, m(t \<mapsto> new)))))"

lemma repr_refind: "zset_inv f h (zs\<lparr>zs_dict := d'\<rparr>) ps \<Longrightarrow> \<forall>s t. m t = Some s \<longleftrightarrow> (s, t) \<in> zkey h ` set ps \<Longrightarrow>
  zset_repr f h (zs\<lparr>zs_dict := d'\<rparr>) m"
  unfolding zset_repr_def by blast

lemma map_at:
  assumes inv: "zset_inv f h zs ps" and rep: "\<forall>s t. m t = Some s \<longleftrightarrow> (s, t) \<in> zkey h ` set ps"
  shows "a \<in> set ps \<Longrightarrow> text_of (zele h a) = t \<Longrightarrow> m t = Some (fst (zkey h a)) \<and> zkey h a = (fst (zkey h a), t)"
    and "\<forall>a\<in>set ps. text_of (zele h a) \<noteq> t \<Longrightarrow> m t = None"
proof -
  have z: "zsl_ok h (zs_zsl zs) ps" using inv by (simp add: zset_inv_def)
  {
    assume a: "a \<in> set ps" "text_of (zele h a) = t"
    then have "zkey h a = (fst (zkey h a), t)" using zkey_zele [OF z a(1)] by (metis prod.collapse)
    then show "m t = Some (fst (zkey h a)) \<and> zkey h a = (fst (zkey h a), t)" using rep a(1) by (metis imageI)
  next
    assume n: "\<forall>a\<in>set ps. text_of (zele h a) \<noteq> t"
    show "m t = None"
    proof (cases "m t")
      case (Some s)
      then obtain a where "a \<in> set ps" "zkey h a = (s, t)" using rep by force
      then show ?thesis using n zkey_zele [OF z, of a] by fastforce
    qed
  }
qed

lemma zadd_insert:
  assumes inv: "zset_inv f h zs ps" and rep: "\<forall>s t. m t = Some s \<longleftrightarrow> (s, t) \<in> zkey h ` set ps"
    and miss: "\<forall>a\<in>set ps. text_of (zele h a) \<noteq> text_of ele" "dict_map (zs_dict zs) ele = None"
    and al: "zalloc_ok al" "alloc_ok sal" and L: "zslRandomLevel rs = Some L" and ele: "sds_ok ele" "sdslen ele < 2 ^ 63"
    and size: "length ps < 2 ^ 32 - 1"
  obtains ele' h' z' x d' where "sdsdup sal ele = Some ele'" "zslInsert al rs h (zs_zsl zs) (Some s) ele' = Some (h', z', x)"
    "dictAdd g (zs_dict zs) ele' x = Some (DICT_OK, d')"
    "zset_repr f h' (zs\<lparr>zs_dict := d', zs_zsl := z'\<rparr>) (m(text_of ele \<mapsto> s))"
proof -
  obtain ele' where e': "sdsdup sal ele = Some ele'" "sds_ok ele'" "text_of ele' = text_of ele" using sdsdup_correct [OF al(2) ele] by blast
  have i: "zsl_ok h (zs_zsl zs) ps" "finite (dom h)" "dict_inv (zs_dict zs)" "dict_type (zs_dict zs) = zsetDictType f"
    "dictSize (zs_dict zs) = length ps" "zdict h (zs_dict zs) (set ps)" using inv by (auto simp: zset_inv_def)
  have new: "(s, text_of ele') \<notin> zkey h ` set ps"
  proof
    assume "(s, text_of ele') \<in> zkey h ` set ps"
    then obtain a where "a \<in> set ps" "zkey h a = (s, text_of ele)" using e'(3) by force
    then show False using miss(1) zkey_zele [OF i(1), of a] by fastforce
  qed
  define xs where "xs = zprefix (\<lambda>e. key_less e (s, text_of ele')) h ps"
  define ys where "ys = dropWhile (\<lambda>a. key_less (zkey h a) (s, text_of ele')) ps"
  have ps: "ps = xs @ ys" by (simp add: xs_def ys_def)
  from zslInsert_correct [OF i(1,2) al(1) L e'(2) new size] obtain h' z' x where
    ins: "zslInsert al rs h (zs_zsl zs) (Some s) ele' = Some (h', z', x)" "zsl_ok h' z' (xs @ x # ys)" "h x = None"
      "core h' = (core h)(x := Some (Some ele', s, L))" unfolding xs_def ys_def by blast
  have room: "dict_room (zs_dict zs)" using i(3,5) size by (simp add: dict_room_def dictSize_entries)
  have nk: "dict_map (zs_dict zs) ele' = None"
  proof (cases "dict_map (zs_dict zs) ele'")
    case (Some v)
    then obtain a where "a \<in> set ps" "text_of (zele h a) = text_of ele'" using i(6) e'(2) unfolding zdict_def by blast
    then show ?thesis using miss(1) e'(3) by simp
  qed
  from dictAdd_correct [OF i(3) room, of g ele' x] nk obtain d' where d': "dictAdd g (zs_dict zs) ele' x = Some (DICT_OK, d')"
    "dict_inv d'" "dict_type d' = dict_type (zs_dict zs)" "dictSize d' = dictSize (zs_dict zs) + 1"
    "dict_map d' = upd_eq (dict_type (zs_dict zs)) (dict_map (zs_dict zs)) ele' (Some (Some x))" by auto
  have xps: "x \<notin> set ps"
  proof
    assume "x \<in> set ps"
    then show False using node_core [OF i(1)] ins(3) by (metis option.distinct(1))
  qed
  have "zset_repr f h' (zs\<lparr>zs_dict := d', zs_zsl := z'\<rparr>) (m(text_of ele' := map_option snd (Some (x, s))))"
  proof (rule zset_change [OF inv rep e'(2) ins(2)])
    have "dom h' = insert x (dom h)" using dom_core [of h'] dom_core [of h] by (simp add: ins(4))
    then show "finite (dom h')" using i(2) by simp
    show "dictSize d' = length (xs @ x # ys)" using d'(4) i(5) ps by simp
    show "set (xs @ x # ys) = set_option (map_option fst (Some (x, s))) \<union> {a\<in>set ps. text_of (zele h a) \<noteq> text_of ele'}"
      using miss(1) ps e'(3) by auto
    show "core h' a = core h a" if "a \<in> set ps" for a using that xps ins(4) by auto
    show "zkey h' y = (s', text_of ele')" if "Some (x, s) = Some (y, s')" for y s' using that by (simp add: zkey_core ins(4))
  qed (use d' i(4) in simp_all)
  then show thesis using that e'(1,3) ins(1) d'(1) by simp
qed

lemma zadd_update:
  assumes inv: "zset_inv f h zs ps" and rep: "\<forall>s t. m t = Some s \<longleftrightarrow> (s, t) \<in> zkey h ` set ps"
    and a: "a \<in> set ps" "text_of (zele h a) = text_of ele" "deref (zs_dict zs) r = Some e" "keq (zsetDictType f) ele (fst e)"
    and al: "zalloc_ok al" and L: "zslRandomLevel rs = Some L" and ele: "sds_ok ele"
  obtains h' z' y d' where "zslUpdateScore al rs h (zs_zsl zs) (fst (zkey h a)) ele new = Some (h', z', y)"
    "dictSetVal (zs_dict zs) r y = Some d'" "zset_repr f h' (zs\<lparr>zs_dict := d', zs_zsl := z'\<rparr>) (m(text_of ele \<mapsto> new))"
proof -
  have i: "zsl_ok h (zs_zsl zs) ps" "finite (dom h)" "dict_inv (zs_dict zs)" "dict_type (zs_dict zs) = zsetDictType f"
    "dictSize (zs_dict zs) = length ps" using inv by (auto simp: zset_inv_def)
  obtain xs ys where ps: "ps = xs @ a # ys" using a(1) by (meson split_list)
  have dist: "distinct ps" using i(1) by (simp add: zsl_ok_def zsl_links_def)
  have rest: "{b\<in>set ps. text_of (zele h b) \<noteq> text_of ele} = set (xs @ ys)"
  proof (rule set_eqI)
    fix b
    show "b \<in> {b\<in>set ps. text_of (zele h b) \<noteq> text_of ele} \<longleftrightarrow> b \<in> set (xs @ ys)"
    proof (cases "b = a")
      case False
      then have "b \<in> set ps \<Longrightarrow> text_of (zele h b) \<noteq> text_of ele" using same_text [OF inv _ a(1)] a(2) by auto
      then show ?thesis using ps False by auto
    qed (use a(2) dist ps in auto)
  qed
  have key: "zkey h a = (fst (zkey h a), text_of ele)" using map_at(1) [OF inv rep a(1,2)] by simp
  have new: "(new, text_of ele) \<notin> zkey h ` set (xs @ ys)"
  proof
    assume "(new, text_of ele) \<in> zkey h ` set (xs @ ys)"
    then obtain b where b: "b \<in> set (xs @ ys)" "zkey h b = (new, text_of ele)" by force
    then have "text_of (zele h b) = text_of ele" using zkey_zele [OF i(1), of b] ps by auto
    then show False using b(1) rest by auto
  qed
  obtain h' z' y ps' where
    u: "zslUpdateScore al rs h (zs_zsl zs) (fst (zkey h a)) ele new = Some (h', z', y)" "zsl_ok h' z' ps'"
      "set ps' = insert y (set (xs @ ys))" "rescored h h' a y new" "header z' = header (zs_zsl zs)"
    by (rule zslUpdateScore_correct [OF i(1) [unfolded ps] i(2) al L ele key new])
  obtain d' where d': "dictSetVal (zs_dict zs) r y = Some d'" "dict_inv d'" "dict_type d' = dict_type (zs_dict zs)"
    "length (entries d') = length (entries (zs_dict zs))"
    "dict_map d' = upd_eq (zsetDictType f) (dict_map (zs_dict zs)) ele (Some (Some y))"
    using dictSetVal_map [OF i(3) a(3), of ele y] a(4) i(4) by auto
  have ny: "y \<notin> set (xs @ ys)"
  proof (cases "y = a")
    case True
    then show ?thesis using dist ps by simp
  next
    case False
    then have "core h y = None" using u(4) by (simp add: rescored_def)
    moreover have "core h b \<noteq> None" if "b \<in> set ps" for b using node_core [OF i(1) that] by (metis option.distinct(1))
    ultimately have "y \<notin> set ps" by metis
    then show ?thesis using ps by simp
  qed
  have len: "length ps' = length ps"
  proof -
    have "distinct ps'" using u(2) by (simp add: zsl_ok_def zsl_links_def)
    then have "length ps' = card (insert y (set (xs @ ys)))" using u(3) distinct_card by metis
    also have "\<dots> = Suc (card (set (xs @ ys)))" using ny by simp
    also have "card (set (xs @ ys)) = length (xs @ ys)" using dist ps by (intro distinct_card) simp
    finally show ?thesis using ps by simp
  qed
  have "zset_repr f h' (zs\<lparr>zs_dict := d', zs_zsl := z'\<rparr>) (m(text_of ele := map_option snd (Some (y, new))))"
  proof (rule zset_change [OF inv rep ele u(2)])
    have "core h' b = None" if "b \<noteq> y" "b \<noteq> a" "h b = None" for b using u(4) that by (simp add: rescored_def core_def)
    then have "b \<in> insert y (insert a (dom h))" if "b \<in> dom (core h')" for b using that by (cases "h b") auto
    then have "dom (core h') \<subseteq> insert y (insert a (dom h))" by blast
    then have "dom h' \<subseteq> insert y (insert a (dom h))" unfolding dom_core .
    then show "finite (dom h')" using i(2) finite_subset by blast
    show "dictSize d' = length ps'" using d'(2,4) i(3,5) len by (simp add: dictSize_entries)
    show "set ps' = set_option (map_option fst (Some (y, new))) \<union> {a\<in>set ps. text_of (zele h a) \<noteq> text_of ele}"
      unfolding rest using u(3) by simp
    show "core h' b = core h b" if "b \<in> set ps" "text_of (zele h b) \<noteq> text_of ele" for b
    proof -
      have "b \<in> set (xs @ ys)" using that rest by blast
      then have "b \<noteq> a" "b \<noteq> y" using dist ps ny by auto
      then show ?thesis using u(4) by (simp add: rescored_def)
    qed
    show "zkey h' y' = (s, text_of ele)" if "Some (y, new) = Some (y', s)" for y' s
      using that u(4) a(2) by (auto simp: rescored_def zkey_core)
  qed (use d' i(4) in simp_all)
  then show thesis using that u(1) d'(1) by simp
qed

lemma zsetAdd_correct:
  assumes rep: "zset_repr f h zs m" and al: "zalloc_ok al" "alloc_ok sal" and L: "zslRandomLevel rs = Some L"
    and ele: "sds_ok ele" "sdslen ele < 2 ^ 63" and size: "zsetLength zs < 2 ^ 32 - 1"
    and spec: "zadd_spec add_double fl m (text_of ele) score = (ret, out, n, m')"
  shows "\<exists>h' zs'. zsetAdd al sal rs g add_double h zs score ele fl = Some (ret, out, n, h', zs') \<and> zset_repr f h' zs' m'"
proof (cases score)
  case None
  then show ?thesis using rep spec by (auto simp: zsetAdd_def zadd_spec_def)
next
  case (Some s)
  obtain ps where inv: "zset_inv f h zs ps" and r: "\<forall>s t. m t = Some s \<longleftrightarrow> (s, t) \<in> zkey h ` set ps"
    using rep unfolding zset_repr_def by blast
  have len: "length ps < 2 ^ 32 - 1" using inv size by (simp add: zset_inv_def zsl_ok_def zsetLength_def)
  from inv ele(1) show ?thesis
  proof (cases rule: zset_lookup)
    case (missing d')
    have mt: "m (text_of ele) = None" by (rule map_at(2) [OF inv r missing(4)])
    show ?thesis
    proof (cases "zadd_xx fl")
      case True
      then show ?thesis using Some missing(1) mt spec repr_refind [OF missing(3) r] by (auto simp: zsetAdd_def zadd_spec_def)
    next
      case False
      have "dict_map (zs_dict (zs\<lparr>zs_dict := d'\<rparr>)) ele = None" using missing(5) by simp
      then obtain ele' h' z' x d2 where
        "sdsdup sal ele = Some ele'" "zslInsert al rs h (zs_zsl zs) (Some s) ele' = Some (h', z', x)"
        "dictAdd g d' ele' x = Some (DICT_OK, d2)" "zset_repr f h' (zs\<lparr>zs_dict := d2, zs_zsl := z'\<rparr>) (m(text_of ele \<mapsto> s))"
        by (rule zadd_insert [OF missing(3) r missing(4) _ al L ele len, of s g]) (rule that, simp_all)
      then show ?thesis using Some False missing(1) mt spec by (auto simp: zsetAdd_def zadd_spec_def)
    qed
  next
    case (found d' p e a)
    have mt: "m (text_of ele) = Some (fst (zkey h a))" using map_at(1) [OF inv r found(7,8)] by simp
    note nop = repr_refind [OF found(3) r]
    show ?thesis
    proof (cases "zadd_nx fl")
      case True
      then show ?thesis using Some found(1) mt spec nop by (auto simp: zsetAdd_def zadd_spec_def)
    next
      case nx: False
      show ?thesis
      proof (cases "if zadd_incr fl then add_double s (fst (zkey h a)) else Some s")
        case None
        then show ?thesis using Some nx found(1,4,9) mt spec nop by (auto simp: zsetAdd_def zadd_spec_def)
      next
        case new: (Some new)
        have a': "deref (zs_dict (zs\<lparr>zs_dict := d'\<rparr>)) p = Some e" using found(4) by simp
        obtain h' z' y d2 where
          u: "zslUpdateScore al rs h (zs_zsl zs) (fst (zkey h a)) ele new = Some (h', z', y)" "dictSetVal d' p y = Some d2"
            "zset_repr f h' (zs\<lparr>zs_dict := d2, zs_zsl := z'\<rparr>) (m(text_of ele \<mapsto> new))"
          by (rule zadd_update [OF found(3) r found(7,8) a' found(5) al(1) L ele(1), of new]) (rule that, simp_all)
        have same: "new = fst (zkey h a) \<Longrightarrow> m(text_of ele \<mapsto> new) = m" using mt by (auto simp: fun_eq_iff)
        show ?thesis
        proof (cases "zadd_lt fl \<and> new \<ge> fst (zkey h a) \<or> zadd_gt fl \<and> new \<le> fst (zkey h a)")
          case True
          then show ?thesis using Some nx new found(1,4,9) mt spec nop by (auto simp: zsetAdd_def zadd_spec_def)
        next
          case cond: False
          show ?thesis
          proof (cases "new = fst (zkey h a)")
            case True
            have "zsetAdd al sal rs g add_double h zs score ele fl = Some (True, ZADD_OUT_NONE, Some new, h, zs\<lparr>zs_dict := d'\<rparr>)"
              using nx cond True new by (simp add: zsetAdd_def Some found(1,4,9))
            moreover have "zadd_spec add_double fl m (text_of ele) score = (True, ZADD_OUT_NONE, Some new, m)"
              using nx cond True same new by (simp add: zadd_spec_def Some mt)
            ultimately show ?thesis using spec nop by auto
          next
            case False
            have "zsetAdd al sal rs g add_double h zs score ele fl = Some (True, ZADD_OUT_UPDATED, Some new, h', zs\<lparr>zs_dict := d2, zs_zsl := z'\<rparr>)"
              using nx cond False new u(1,2) by (simp add: zsetAdd_def Some found(1,4,9))
            moreover have "zadd_spec add_double fl m (text_of ele) score = (True, ZADD_OUT_UPDATED, Some new, m(text_of ele \<mapsto> new))"
              using nx cond False new by (simp add: zadd_spec_def Some mt)
            ultimately show ?thesis using spec u(3) by auto
          qed
        qed
      qed
    qed
  qed
qed

section \<open>Looking up, removing and ranking\<close>

lemma zsetScore_correct:
  assumes rep: "zset_repr f h zs m" and ele: "sds_ok ele"
  shows "\<exists>zs'. zsetScore h zs ele = Some (m (text_of ele), zs') \<and> zset_repr f h zs' m"
proof -
  obtain ps where inv: "zset_inv f h zs ps" and r: "\<forall>s t. m t = Some s \<longleftrightarrow> (s, t) \<in> zkey h ` set ps"
    using rep unfolding zset_repr_def by blast
  from inv ele show ?thesis
  proof (cases rule: zset_lookup)
    case (missing d')
    then show ?thesis using map_at(2) [OF inv r missing(4)] repr_refind [OF missing(3) r] by (simp add: zsetScore_def)
  next
    case (found d' p e a)
    then show ?thesis using map_at(1) [OF inv r found(7,8)] repr_refind [OF found(3) r] by (simp add: zsetScore_def)
  qed
qed

lemma zset_resize:
  assumes "zset_repr f h zs m"
  shows "zset_repr f h (zs\<lparr>zs_dict := snd (dictResize g (zs_dict zs))\<rparr>) m"
proof -
  let ?d = "zs_dict zs" and ?d' = "snd (dictResize g (zs_dict zs))"
  obtain ps where inv: "zset_inv f h zs ps" and r: "\<forall>s t. m t = Some s \<longleftrightarrow> (s, t) \<in> zkey h ` set ps"
    using assms unfolding zset_repr_def by blast
  then have d: "dict_inv ?d" by (simp add: zset_inv_def)
  have d': "dict_inv ?d'" "same_content ?d ?d'" using dictResize_correct [OF d surjective_pairing] by auto
  have "zset_inv f h (zs\<lparr>zs_dict := ?d'\<rparr>) ps"
    using inv d' same_content_map [OF d d'(2)] same_content_size [OF d d'(1,2)]
    by (simp add: zset_inv_def zdict_def same_content_def)
  then show ?thesis using r by (rule repr_refind)
qed

lemma zsetRemoveFromSkiplist_correct:
  assumes rep: "zset_repr f h zs m" and ele: "sds_ok ele"
  shows "\<exists>h' zs'. zsetRemoveFromSkiplist h zs ele = Some (m (text_of ele) \<noteq> None, h', zs') \<and>
    zset_repr f h' zs' (m(text_of ele := None))"
proof -
  obtain ps where inv: "zset_inv f h zs ps" and r: "\<forall>s t. m t = Some s \<longleftrightarrow> (s, t) \<in> zkey h ` set ps"
    using rep unfolding zset_repr_def by blast
  let ?d = "zs_dict zs"
  have i: "zsl_ok h (zs_zsl zs) ps" "finite (dom h)" "dict_inv ?d" "dict_type ?d = zsetDictType f" "dictSize ?d = length ps" "zdict h ?d (set ps)"
    using inv by (auto simp: zset_inv_def)
  obtain de d' where d': "dictUnlink ?d ele = Some (de, d')" "dict_inv d'" "dict_type d' = dict_type ?d" "map_option snd de = dict_map ?d ele"
    "dict_map d' = upd_eq (dict_type ?d) (dict_map ?d) ele None" "dictSize d' = dictSize ?d - (if dict_map ?d ele = None then 0 else 1)"
    using dictGenericDelete_map [OF i(3), of ele] unfolding dictUnlink_def by blast
  show ?thesis
  proof (cases "dict_map ?d ele")
    case None
    then have miss: "\<forall>a\<in>set ps. text_of (zele h a) \<noteq> text_of ele" using i(6) ele unfolding zdict_def by (metis option.distinct(1))
    have mt: "m (text_of ele) = None" by (rule map_at(2) [OF inv r miss])
    have "zset_repr f h (zs\<lparr>zs_dict := d', zs_zsl := zs_zsl zs\<rparr>) (m(text_of ele := map_option snd (None :: (zaddr \<times> 'a) option)))"
      by (rule zset_change [OF inv r ele i(1,2) d'(2)]) (use d' i None miss in auto)
    then have "zset_repr f h (zs\<lparr>zs_dict := d'\<rparr>) (m(text_of ele := None))" by simp
    then show ?thesis using d'(1,4) None mt by (auto simp: zsetRemoveFromSkiplist_def)
  next
    case (Some v)
    then obtain a where a: "a \<in> set ps" "v = Some a" "text_of (zele h a) = text_of ele" using i(6) ele unfolding zdict_def by blast
    obtain e where e: "de = Some e" "snd e = Some a" using d'(4) Some a(2) by auto
    have key: "m (text_of ele) = Some (fst (zkey h a))" "zkey h a = (fst (zkey h a), text_of ele)" using map_at(1) [OF inv r a(1,3)] by auto
    from node_core [OF i(1) a(1)] obtain n where "h a = Some n" "zkey h a = (z_score n, text_of (zele h a))" by metis
    then have sc: "entry_score h e = Some (fst (zkey h a))" using e(2) by (simp add: entry_score_def)
    obtain xs ys where ps: "ps = xs @ a # ys" using a(1) by (meson split_list)
    obtain h' z' where del: "zslDelete h (zs_zsl zs) (fst (zkey h a)) ele False = Some (True, if False then Some a else None, h', z')"
      "zsl_ok h' z' (xs @ ys)" "core h' = (if False then core h else (core h)(a := None))" "header z' = header (zs_zsl zs)"
      by (rule zslDelete_found [OF i(1) ele ps key(2), where keep = False])
    have dist: "distinct ps" using i(1) by (simp add: zsl_ok_def zsl_links_def)
    have other: "text_of (zele h b) \<noteq> text_of ele" if "b \<in> set ps" "b \<noteq> a" for b using same_text [OF inv that(1) a(1)] that(2) a(3) by auto
    have "zset_repr f h' (zs\<lparr>zs_dict := d', zs_zsl := z'\<rparr>) (m(text_of ele := map_option snd (None :: (zaddr \<times> 'a) option)))"
    proof (rule zset_change [OF inv r ele del(2)])
      have "dom h' = dom h - {a}" using dom_core [of h'] dom_core [of h] by (auto simp: del(3))
      then show "finite (dom h')" using i(2) by simp
      show "dictSize d' = length (xs @ ys)" using d'(6) Some i(5) ps by simp
      show "set (xs @ ys) = set_option (map_option fst None) \<union> {a\<in>set ps. text_of (zele h a) \<noteq> text_of ele}"
      proof -
        have "{b\<in>set ps. text_of (zele h b) \<noteq> text_of ele} = set ps - {a}" using other a(3) by auto
        then show ?thesis using dist ps by auto
      qed
      show "core h' b = core h b" if "b \<in> set ps" "text_of (zele h b) \<noteq> text_of ele" for b using that a(3) del(3) by auto
    qed (use d' i(4) in simp_all)
    then show ?thesis using d'(1) e(1) sc del(1) key(1) by (simp add: zsetRemoveFromSkiplist_def)
  qed
qed

lemma zsetDel_correct:
  assumes "zset_repr f h zs m" "sds_ok ele"
  shows "\<exists>h' zs'. zsetDel g h zs ele = Some (m (text_of ele) \<noteq> None, h', zs') \<and> zset_repr f h' zs' (m(text_of ele := None))"
proof -
  obtain h' zs' where r: "zsetRemoveFromSkiplist h zs ele = Some (m (text_of ele) \<noteq> None, h', zs')" "zset_repr f h' zs' (m(text_of ele := None))"
    using zsetRemoveFromSkiplist_correct [OF assms] by blast
  then show ?thesis using zset_resize [OF r(2), of g] by (auto simp: zsetDel_def)
qed

text \<open>The rank of an element counts the elements before it.\<close>

definition zbefore :: "(string \<Rightarrow> ('s :: linorder) option) \<Rightarrow> 's \<times> string \<Rightarrow> string set" where
  "zbefore m k = {t. \<exists>s. m t = Some s \<and> key_less (s, t) k}"

lemma zsetRank_correct:
  assumes rep: "zset_repr f h zs m" and ele: "sds_ok ele"
  shows "\<exists>zs'. zsetRank h zs ele reverse =
      Some (map_option (\<lambda>s. if reverse then card (dom m) - 1 - card (zbefore m (s, text_of ele)) else card (zbefore m (s, text_of ele)))
        (m (text_of ele)), zs') \<and> zset_repr f h zs' m"
proof -
  obtain ps where inv: "zset_inv f h zs ps" and r: "\<forall>s t. m t = Some s \<longleftrightarrow> (s, t) \<in> zkey h ` set ps"
    using rep unfolding zset_repr_def by blast
  have z: "zsl_ok h (zs_zsl zs) ps" using inv by (simp add: zset_inv_def)
  have dt: "distinct (map (\<lambda>b. snd (zkey h b)) ps)" by (rule distinct_texts [OF inv])
  have dm: "dom m = (\<lambda>b. snd (zkey h b)) ` set ps"
  proof (rule set_eqI)
    fix t
    have "t \<in> dom m \<longleftrightarrow> (\<exists>s. (s, t) \<in> zkey h ` set ps)" using r by (simp add: dom_def)
    also have "\<dots> \<longleftrightarrow> (\<exists>b\<in>set ps. snd (zkey h b) = t)" by (metis (no_types, lifting) imageE imageI prod.collapse snd_conv)
    also have "\<dots> \<longleftrightarrow> t \<in> (\<lambda>b. snd (zkey h b)) ` set ps" by blast
    finally show "t \<in> dom m \<longleftrightarrow> t \<in> (\<lambda>b. snd (zkey h b)) ` set ps" .
  qed
  have cd: "card (dom m) = length ps" unfolding dm using distinct_card [OF dt] by simp
  from inv ele show ?thesis
  proof (cases rule: zset_lookup)
    case (missing d')
    then show ?thesis using map_at(2) [OF inv r missing(4)] repr_refind [OF missing(3) r] by (simp add: zsetRank_def)
  next
    case (found d' p e a)
    have key: "m (text_of ele) = Some (fst (zkey h a))" "zkey h a = (fst (zkey h a), text_of ele)" using map_at(1) [OF inv r found(7,8)] by auto
    obtain xs ys where ps: "ps = xs @ a # ys" using found(7) by (meson split_list)
    have rank: "zslGetRank h (zs_zsl zs) (fst (zkey h a)) ele = Some (length xs + 1)"
      by (rule zslGetRank_correct [OF z ele ps key(2) dt])
    have srt: "sorted_wrt key_less (map (zkey h) (xs @ a # ys))" using z ps by (simp add: zsl_ok_def)
    have lt: "b \<in> set xs \<longleftrightarrow> key_less (zkey h b) (zkey h a)" if "b \<in> set ps" for b
    proof -
      have "\<not> key_less (zkey h c) (zkey h a)" if "c \<in> set ys" for c
        using srt that key_less_trans [of "zkey h a" "zkey h c" "zkey h a"] by (auto simp: sorted_wrt_append)
      moreover have "\<forall>c\<in>set xs. key_less (zkey h c) (zkey h a)" using srt by (auto simp: sorted_wrt_append)
      ultimately show ?thesis using that ps by auto
    qed
    have "zbefore m (fst (zkey h a), text_of ele) = (\<lambda>b. snd (zkey h b)) ` set xs"
      unfolding zbefore_def key(2) [symmetric]
    proof (rule set_eqI)
      fix t
      have "t \<in> {t. \<exists>s. m t = Some s \<and> key_less (s, t) (zkey h a)} \<longleftrightarrow> (\<exists>b\<in>set ps. snd (zkey h b) = t \<and> key_less (zkey h b) (zkey h a))"
      proof -
        have "(\<exists>s. m t = Some s \<and> key_less (s, t) (zkey h a)) \<longleftrightarrow> (\<exists>s. \<exists>b\<in>set ps. zkey h b = (s, t) \<and> key_less (s, t) (zkey h a))"
          using r by (metis (no_types, lifting) imageE imageI)
        also have "\<dots> \<longleftrightarrow> (\<exists>b\<in>set ps. snd (zkey h b) = t \<and> key_less (zkey h b) (zkey h a))"
          by (metis (no_types, lifting) prod.collapse snd_conv)
        finally show ?thesis by simp
      qed
      also have "\<dots> \<longleftrightarrow> (\<exists>b\<in>set xs. snd (zkey h b) = t)" using lt ps by auto
      also have "\<dots> \<longleftrightarrow> t \<in> (\<lambda>b. snd (zkey h b)) ` set xs" by blast
      finally show "t \<in> {t. \<exists>s. m t = Some s \<and> key_less (s, t) (zkey h a)} \<longleftrightarrow> t \<in> (\<lambda>b. snd (zkey h b)) ` set xs" .
    qed
    moreover have "distinct (map (\<lambda>b. snd (zkey h b)) xs)" using dt ps by simp
    ultimately have cb: "card (zbefore m (fst (zkey h a), text_of ele)) = length xs"
      using distinct_card [of "map (\<lambda>b. snd (zkey h b)) xs"] by simp
    have "zsetLength zs = length ps" "length ps < 2 ^ 64" using z by (auto simp: zsetLength_def zsl_ok_def)
    then have "subw 64 (zsetLength zs) (length xs + 1) = card (dom m) - 1 - length xs" using cd ps by (simp add: subw_small)
    then show ?thesis using found(1,4,9) rank key(1) cb repr_refind [OF found(3) r] by (simp add: zsetRank_def)
  qed
qed

end
