(* ===== verification/Zset_Demo.thy ===== *)
theory Zset_Demo
  imports Zset_Correct Sds_Properties Dict_Demo
begin

text \<open>
  A sorted set of two elements, \<^verbatim>\<open>a\<close> with score 10 and \<^verbatim>\<open>b\<close> with score 20, whose second node has two levels,
  and an allocator that takes the first address above all used ones.
\<close>

definition demo_zalloc :: "int zalloc" where
  "demo_zalloc = \<lparr>za_addr = \<lambda>h. Suc (Max (insert 0 (dom h))), za_level = \<lambda>_. \<lparr>forward = Some 7, span = 7\<rparr>, za_back = Some 7\<rparr>"

definition short_sds :: "char \<Rightarrow> sds" where
  "short_sds c = \<lparr>hdr_type = SDS_TYPE_5, hdr_len = 1, hdr_alloc = 1, buf = [c, NUL]\<rparr>"

definition demo_heap :: "int zheap" where
  "demo_heap = (\<lambda>_. None)
     (0 := Some \<lparr>z_ele = None, z_score = 0, backward = None,
        levels = [\<lparr>forward = Some 3, span = 1\<rparr>, \<lparr>forward = Some 4, span = 2\<rparr>] @ replicate 30 \<lparr>forward = None, span = 0\<rparr>\<rparr>,
      3 := Some \<lparr>z_ele = Some (short_sds CHR ''a''), z_score = 10, backward = None, levels = [\<lparr>forward = Some 4, span = 1\<rparr>]\<rparr>,
      4 := Some \<lparr>z_ele = Some (short_sds CHR ''b''), z_score = 20, backward = Some 3,
        levels = [\<lparr>forward = None, span = 0\<rparr>, \<lparr>forward = None, span = 0\<rparr>]\<rparr>)"

definition demo_zsl :: zskiplist where
  "demo_zsl = \<lparr>header = 0, ztail = Some 4, zlength = 2, level = 2\<rparr>"

lemma demo_zalloc_ok: "zalloc_ok demo_zalloc"
  unfolding zalloc_ok_def
proof (intro allI impI)
  fix h :: "int zheap"
  assume fin: "finite (dom h)"
  show "h (za_addr demo_zalloc h) = None"
  proof (rule ccontr)
    assume "h (za_addr demo_zalloc h) \<noteq> None"
    then have "Suc (Max (insert 0 (dom h))) \<in> insert 0 (dom h)" by (auto simp: demo_zalloc_def)
    then have "Suc (Max (insert 0 (dom h))) \<le> Max (insert 0 (dom h))" using fin by (intro Max_ge) auto
    then show False by simp
  qed
qed

lemma short_sds_ok: "c \<noteq> NUL \<Longrightarrow> sds_ok (short_sds c) \<and> text_of (short_sds c) = [c] \<and> sdslen (short_sds c) = 1"
  by (simp add: sds_ok_def short_sds_def sdsalloc_def text_of_def sdslen_def)

lemma demo_core: "core demo_heap = (\<lambda>_. None)(0 := Some (None, 0, 32), 3 := Some (Some (short_sds CHR ''a''), 10, 1),
    4 := Some (Some (short_sds CHR ''b''), 20, 2))"
  by (simp add: fun_eq_iff core_def demo_heap_def)

lemma demo_lv: "lv demo_heap 3 = 1" "lv demo_heap 4 = 2"
  by (simp_all add: lv_core demo_core)

lemma demo_zkey: "zkey demo_heap 3 = (10, ''a'')" "zkey demo_heap 4 = (20, ''b'')"
  by (simp_all add: zkey_core demo_core short_sds_ok)

lemma demo_zele: "zele demo_heap 3 = short_sds CHR ''a''" "zele demo_heap 4 = short_sds CHR ''b''"
  by (simp_all add: zele_def demo_core)

lemma demo_finite: "finite (dom demo_heap)"
  by (simp add: demo_heap_def)

lemma demo_levels:
  "get_level demo_heap 0 0 = Some \<lparr>forward = Some 3, span = 1\<rparr>" "get_level demo_heap 0 (Suc 0) = Some \<lparr>forward = Some 4, span = 2\<rparr>"
  "get_level demo_heap 3 0 = Some \<lparr>forward = Some 4, span = 1\<rparr>"
  "get_level demo_heap 4 0 = Some \<lparr>forward = None, span = 0\<rparr>" "get_level demo_heap 4 (Suc 0) = Some \<lparr>forward = None, span = 0\<rparr>"
  "2 \<le> i \<Longrightarrow> i < 32 \<Longrightarrow> get_level demo_heap 0 i = Some \<lparr>forward = None, span = 0\<rparr>"
  by (auto simp: get_level_def demo_heap_def nth_Cons')

lemma demo_zsl_ok: "zsl_ok demo_heap demo_zsl [3, 4]"
proof -
  have "lseg demo_heap i 0 0 [3, 4]" if "i < 2" for i
  proof -
    have "i = 0 \<or> i = Suc 0" using that by auto
    then show ?thesis by (auto simp: demo_lv demo_levels)
  qed
  moreover have "node_ok demo_heap 2 3" "node_ok demo_heap 2 4"
    by (simp_all add: node_ok_core demo_core short_sds_ok)
  then have "\<forall>a\<in>set [3, 4]. node_ok demo_heap 2 a" by simp
  moreover have "backs demo_heap None [3, 4]" by (simp add: zback_def meta_def demo_heap_def)
  ultimately have "zsl_links demo_heap 0 2 [3, 4]" by (simp add: zsl_links_core demo_core demo_levels del: lseg.simps backs.simps)
  then show ?thesis by (simp add: zsl_ok_def demo_zsl_def demo_lv demo_zkey last_or_def)
qed

definition no_hash :: "string \<Rightarrow> u64" where
  "no_hash t = 0"

definition demo_zdict :: "(sds, zaddr) dict" where
  "demo_zdict =
     \<lparr>dict_type = zsetDictType no_hash,
      ht0 = \<lparr>ht_table = [[(short_sds CHR ''a'', Some 3), (short_sds CHR ''b'', Some 4)], [], [], []], ht_size = 4, ht_sizemask = 3, ht_used = 2\<rparr>,
      ht1 = \<lparr>ht_table = [], ht_size = 0, ht_sizemask = 0, ht_used = 0\<rparr>,
      rehashidx = -1, pauserehash = 0\<rparr>"

definition demo_zset :: zset where
  "demo_zset = \<lparr>zs_dict = demo_zdict, zs_zsl = demo_zsl\<rparr>"

lemma demo_entries: "entries demo_zdict = [(short_sds CHR ''a'', Some 3), (short_sds CHR ''b'', Some 4)]"
  by (simp add: entries_def demo_zdict_def)

lemma keq_short: "sds_ok e \<Longrightarrow> c \<noteq> NUL \<Longrightarrow> keq (zsetDictType f) e (short_sds c) \<longleftrightarrow> text_of e = [c]"
  using short_sds_ok [of c] by (simp add: keq_text)

lemma demo_zdict_map:
  assumes "sds_ok e"
  shows "dict_map demo_zdict e = (if text_of e = ''a'' then Some (Some 3) else if text_of e = ''b'' then Some (Some 4) else None)"
  unfolding dict_map_def demo_entries using assms by (simp add: lookup_es_def demo_zdict_def keq_short)

lemma demo_zdict_inv: "dict_inv demo_zdict"
proof -
  let ?ty = "zsetDictType no_hash"
  have "placed ?ty (ht_table (ht0 demo_zdict)) 3"
    unfolding placed_enumerate by (simp add: demo_zdict_def zsetDictType_def dictSdsHash_def no_hash_def hidx_def)
  then have "ht_ok ?ty (ht0 demo_zdict)" "ht_ok ?ty (ht1 demo_zdict)"
    using pow2_sizes(1) by (simp_all add: ht_ok_def demo_zdict_def placed_def)
  moreover have "\<not> keq ?ty (short_sds CHR ''a'') (short_sds CHR ''b'')" using short_sds_ok by (simp add: keq_short)
  then have "uniq ?ty (entries demo_zdict)" unfolding demo_entries using zset_type_ok by (simp add: uniq_Cons) (simp add: uniq_def)
  moreover have "rehash_ok demo_zdict" by (simp add: rehash_ok_def demo_zdict_def i_dictReset_def)
  ultimately show ?thesis by (simp add: dict_inv_def demo_zdict_def zset_type_ok)
qed

lemma demo_zset_inv: "zset_inv no_hash demo_heap demo_zset [3, 4]"
proof -
  have "zdict demo_heap demo_zdict {3, 4}"
    unfolding zdict_def by (auto simp: demo_zdict_map demo_zele short_sds_ok)
  then show ?thesis
    using demo_zsl_ok demo_finite demo_zdict_inv
    by (simp add: zset_inv_def demo_zset_def) (simp add: demo_zdict_def dictSize_def)
qed

lemma demo_zset_repr: "zset_repr no_hash demo_heap demo_zset [''a'' \<mapsto> 10, ''b'' \<mapsto> 20]"
  unfolding zset_repr_def using demo_zset_inv by (intro exI [of _ "[3, 4]"]) (auto simp: demo_zkey)

end
