(* ===== verification/Zset_Properties.thy ===== *)
theory Zset_Properties
  imports Zset_Demo
begin

text \<open>
  The properties of skip lists and sorted sets. A skip list in its invariant \<^const>\<open>zsl_ok\<close> has the right
  links and spans at every level and its entries in strictly increasing order; a sorted set
  represents (\<^const>\<open>zset_repr\<close>) a finite map from elements to scores.
\<close>

section \<open>Sorted sets\<close>








section \<open>Skip lists\<close>

text \<open>
  C18. \<^verbatim>\<open>zslInsert\<close> of an entry that is not there never fails below \<open>2 ^ 32 - 1\<close> entries: whatever level the
  new node gets, the links and spans of all levels, the backward links, the tail, the length and the
  order are right afterwards, and the entries are the old ones and the new one.
\<close>

theorem zslInsert_ok:
  assumes "zsl_ok h z ps" "finite (dom h)" "zalloc_ok al" "zslRandomLevel rs = Some L" "sds_ok ele"
    "(s, text_of ele) \<notin> zkey h ` set ps" "length ps < 2 ^ 32 - 1"
  shows "\<exists>h' z' x ps'. zslInsert al rs h z (Some s) ele = Some (h', z', x) \<and> zsl_ok h' z' ps' \<and> x \<in> set ps' \<and>
    zkey h' x = (s, text_of ele) \<and> zkey h' ` set ps' = insert (s, text_of ele) (zkey h ` set ps) \<and> zlength z' = zlength z + 1"
proof -
  define xs where "xs = zprefix (\<lambda>e. key_less e (s, text_of ele)) h ps"
  define ys where "ys = dropWhile (\<lambda>a. key_less (zkey h a) (s, text_of ele)) ps"
  have ps: "ps = xs @ ys" by (simp add: xs_def ys_def)
  from zslInsert_correct [OF assms] obtain h' z' x where r: "zslInsert al rs h z (Some s) ele = Some (h', z', x)" "zsl_ok h' z' (xs @ x # ys)"
    "h x = None" "core h' = (core h)(x := Some (Some ele, s, L))" unfolding xs_def ys_def by blast
  have kx: "zkey h' x = (s, text_of ele)" by (simp add: zkey_core r(4))
  have "core h a \<noteq> None" if "a \<in> set ps" for a using node_core [OF assms(1) that] by (metis option.distinct(1))
  moreover have "core h x = None" using r(3) by (simp add: core_def)
  ultimately have "a \<noteq> x" if "a \<in> set ps" for a using that by metis
  then have "zkey h' ` set ps = zkey h ` set ps" by (intro image_cong) (auto simp: zkey_core r(4))
  moreover have "set (xs @ x # ys) = insert x (set ps)" using ps by auto
  ultimately have "zkey h' ` set (xs @ x # ys) = insert (s, text_of ele) (zkey h ` set ps)" using kx by (metis image_insert)
  moreover have "zlength z' = zlength z + 1" using assms(1) r(2) ps by (simp add: zsl_ok_def)
  ultimately show ?thesis using r(1,2) kx by (intro exI [of _ h'] exI [of _ z'] exI [of _ x] exI [of _ "xs @ x # ys"]) simp
qed

theorem zslInsert_ok_witness:
  "\<exists>h' z' x ps'. zslInsert demo_zalloc [0, 0, 65535] demo_heap demo_zsl (Some 10) (short_sds CHR ''c'') = Some (h', z', x) \<and>
     zsl_ok h' z' ps' \<and> zkey h' ` set ps' = {(10, ''a''), (10, ''c''), (20, ''b'')} \<and> zlength z' = 3"
proof -
  have e: "sds_ok (short_sds CHR ''c'')" "text_of (short_sds CHR ''c'') = ''c''" using short_sds_ok by auto
  have "zslRandomLevel [0, 0, 65535] = Some 3" by (simp add: zslRandomLevel_def)
  from zslInsert_ok [OF demo_zsl_ok demo_finite demo_zalloc_ok this e(1), of 10]
  have "\<exists>h' z' x ps'. zslInsert demo_zalloc [0, 0, 65535] demo_heap demo_zsl (Some 10) (short_sds CHR ''c'') = Some (h', z', x) \<and>
     zsl_ok h' z' ps' \<and> zkey h' ` set ps' = insert (10, ''c'') {(10, ''a''), (20, ''b'')} \<and> zlength z' = 2 + 1"
    unfolding e(2) by (simp add: demo_zkey demo_zsl_def) blast
  then show ?thesis by (simp add: insert_commute)
qed

text \<open>
  C19. \<^verbatim>\<open>zslDelete\<close> removes exactly the entry with this score and element, says whether it was there, and
  leaves a list in its invariant: links, spans, tail, length and the level of the list.
\<close>

theorem zslDelete_ok:
  assumes "zsl_ok h z ps" "sds_ok ele"
  shows "\<exists>h' z' ps'. zslDelete h z s ele False = Some ((s, text_of ele) \<in> zkey h ` set ps, None, h', z') \<and> zsl_ok h' z' ps' \<and>
    zkey h' ` set ps' = zkey h ` set ps - {(s, text_of ele)}"
proof (cases "(s, text_of ele) \<in> zkey h ` set ps")
  case False
  then show ?thesis using zslDelete_missing [OF assms False, of False] assms(1) by auto
next
  case True
  then obtain xs x ys where x: "ps = xs @ x # ys" "zkey h x = (s, text_of ele)" by (auto dest: split_list)
  obtain h' z' where r: "zslDelete h z s ele False = Some (True, if False then Some x else None, h', z')"
    "zsl_ok h' z' (xs @ ys)" "core h' = (if False then core h else (core h)(x := None))" "header z' = header z"
    by (rule zslDelete_found [OF assms x, where keep = False])
  have srt: "sorted_wrt key_less (map (zkey h) (xs @ x # ys))" "distinct ps" using assms(1) x(1) by (auto simp: zsl_ok_def zsl_links_def)
  have ne: "zkey h a \<noteq> zkey h x" if "a \<in> set (xs @ ys)" for a using srt(1) that by (auto simp: sorted_wrt_append)
  have "x \<notin> set (xs @ ys)" using srt(2) x(1) by simp
  then have "zkey h' ` set (xs @ ys) = zkey h ` set (xs @ ys)" using r(3) by (intro image_cong) (auto simp: zkey_core)
  also have "\<dots> = zkey h ` set ps - {zkey h x}"
  proof -
    have "zkey h ` set ps = insert (zkey h x) (zkey h ` set (xs @ ys))" using x(1) by auto
    moreover have "zkey h x \<notin> zkey h ` set (xs @ ys)" using ne by force
    ultimately show ?thesis by simp
  qed
  finally show ?thesis using r(1,2) True x(2) by (intro exI [of _ h'] exI [of _ z'] exI [of _ "xs @ ys"]) simp
qed

theorem zslDelete_ok_witness:
  "\<exists>h' z' ps'. zslDelete demo_heap demo_zsl 20 (short_sds CHR ''b'') False = Some (True, None, h', z') \<and> zsl_ok h' z' ps' \<and>
     zkey h' ` set ps' = {(10, ''a'')}"
proof -
  have e: "sds_ok (short_sds CHR ''b'')" "text_of (short_sds CHR ''b'') = ''b''" using short_sds_ok by auto
  have k: "zkey demo_heap ` set [3, 4] = {(10, ''a''), (20, ''b'')}" by (simp add: demo_zkey)
  have "{(10 :: int, ''a''), (20, ''b'')} - {(20, ''b'')} = {(10, ''a'')}" by auto
  then show ?thesis using zslDelete_ok [OF demo_zsl_ok e(1), of 20] unfolding e(2) k by auto
qed

text \<open>
  C20. Ranks are inverse to each other: the node \<^verbatim>\<open>zslGetElementByRank\<close> finds for a rank between 1 and the
  length has this rank according to \<^verbatim>\<open>zslGetRank\<close>, and there is no node for a greater rank.
\<close>

theorem rank_roundtrip:
  assumes "zsl_ok h z ps" "distinct (map (\<lambda>a. snd (zkey h a)) ps)" "1 \<le> r"
  shows "if r \<le> length ps
    then \<exists>a n e. zslGetElementByRank h z r = Some (Some a) \<and> h a = Some n \<and> z_ele n = Some e \<and> zslGetRank h z (z_score n) e = Some r
    else zslGetElementByRank h z r = Some None"
proof (cases "r \<le> length ps")
  case True
  define a where "a = ps ! (r - 1)"
  have lt: "r - 1 < length ps" using True assms(3) by simp
  then have ps: "ps = take (r - 1) ps @ a # drop r ps" using assms(3) id_take_nth_drop [OF lt] by (simp add: a_def)
  have "a \<in> set ps" using lt by (simp add: a_def)
  from node_core [OF assms(1) this] obtain n where n: "h a = Some n" "z_ele n = Some (zele h a)" "sds_ok (zele h a)"
    "zkey h a = (z_score n, text_of (zele h a))" by metis
  have "zslGetRank h z (z_score n) (zele h a) = Some (length (take (r - 1) ps) + 1)"
    by (rule zslGetRank_correct [OF assms(1) n(3) ps n(4) assms(2)])
  then have "zslGetRank h z (z_score n) (zele h a) = Some r" using lt assms(3) by simp
  moreover have "zslGetElementByRank h z r = Some (Some a)" using zslGetElementByRank_correct [OF assms(1,3)] True by (simp add: a_def)
  ultimately show ?thesis using True n(1,2) by auto
next
  case False
  then show ?thesis using zslGetElementByRank_correct [OF assms(1,3)] by simp
qed

theorem rank_roundtrip_witness:
  "\<exists>a n e. zslGetElementByRank demo_heap demo_zsl 2 = Some (Some a) \<and> demo_heap a = Some n \<and> z_ele n = Some e \<and>
     zslGetRank demo_heap demo_zsl (z_score n) e = Some 2"
  using rank_roundtrip [OF demo_zsl_ok, of 2] by (simp add: demo_zkey)



text \<open>
  C22. \<^verbatim>\<open>zslDeleteRangeByScore\<close> deletes the entries whose scores are in the range from the list and their
  elements from the dictionary, and nothing else, and returns their number.
\<close>

theorem zslDeleteRangeByScore_ok:
  fixes r
  assumes "zsl_ok h z ps" "dict_inv d"
  defines "gone \<equiv> filter (\<lambda>a. zslValueGteMin (fst (zkey h a)) r \<and> zslValueLteMax (fst (zkey h a)) r) ps"
  shows "\<exists>h' z' d'. zslDeleteRangeByScore h z r d = Some (length gone, h', z', d') \<and>
    zsl_ok h' z' (filter (\<lambda>a. a \<notin> set gone) ps) \<and> core h' = (\<lambda>a. if a \<in> set gone then None else core h a) \<and>
    dict_inv d' \<and> dict_map d' = drop_keys (dict_type d) (zele h ` set gone) (dict_map d)"
proof -
  have srt: "sorted_wrt (\<lambda>a b. fst a \<le> fst b) (map (zkey h) ps)" using assms(1) sorted_scores by (auto simp: zsl_ok_def)
  have f: "filter (\<lambda>a. \<not> (zslValueGteMin (fst (zkey h a)) r \<and> zslValueLteMax (fst (zkey h a)) r)) ps = filter (\<lambda>a. a \<notin> set gone) ps"
    by (rule filter_cong) (auto simp: gone_def)
  have c: "(\<lambda>a. if a \<in> set ps \<and> (zslValueGteMin (fst (zkey h a)) r \<and> zslValueLteMax (fst (zkey h a)) r) then None else core h a) =
      (\<lambda>a. if a \<in> set gone then None else core h a)" by (auto simp: gone_def)
  from by_score.delete_correct [OF TrueI assms(1) srt assms(2), of r] show ?thesis
    unfolding zslDeleteRangeByScore_def gone_def [symmetric] f c by blast
qed

theorem zslDeleteRangeByScore_ok_witness:
  "\<exists>h' z' d'. zslDeleteRangeByScore demo_heap demo_zsl \<lparr>range_min = 5, range_max = 15, range_minex = False, range_maxex = False\<rparr> demo_zdict =
      Some (1, h', z', d') \<and> zsl_ok h' z' [4] \<and> dict_map d' (short_sds CHR ''a'') = None"
  using zslDeleteRangeByScore_ok [OF demo_zsl_ok demo_zdict_inv,
      of "\<lparr>range_min = 5, range_max = 15, range_minex = False, range_maxex = False\<rparr>"]
  by (auto simp: demo_zkey demo_zele zslValueGteMin_def zslValueLteMax_def drop_keys_def)

text \<open>
  C23. The level \<^verbatim>\<open>zslRandomLevel\<close> gives a node is between 1 and \<^verbatim>\<open>ZSKIPLIST_MAXLEVEL\<close>, and it returns as soon
  as a random number is above a quarter of its range.
\<close>

theorem zslRandomLevel_bounds:
  "case zslRandomLevel rs of
     Some k \<Rightarrow> 1 \<le> k \<and> k \<le> ZSKIPLIST_MAXLEVEL
   | None \<Rightarrow> \<forall>r\<in>set rs. r mod 2 ^ 16 \<le> 16383"
proof (cases "zslRandomLevel rs")
  case None
  have "random_level_loop k rs = None \<Longrightarrow> \<forall>r\<in>set rs. r mod 2 ^ 16 \<le> 16383" for k
    by (induction k rs rule: random_level_loop.induct) (auto split: if_splits)
  then show ?thesis using None by (simp add: zslRandomLevel_def)
next
  case (Some k)
  then show ?thesis using zslRandomLevel_range by simp
qed

theorem zslRandomLevel_bounds_witness:
  "zslRandomLevel [1, 2, 70000, 65535] = Some 4 \<and> (1 :: nat) \<le> 4 \<and> (4 :: nat) \<le> ZSKIPLIST_MAXLEVEL"
proof -
  have "zslRandomLevel [1, 2, 70000, 65535] = Some 4" by (simp add: zslRandomLevel_def)
  then show ?thesis using zslRandomLevel_bounds [of "[1, 2, 70000, 65535]"] by simp
qed

end
