(* ===== verification/Client.thy ===== *)
theory Client
  imports Sds_Str
begin

text \<open>
  The part of the \<^verbatim>\<open>client\<close> structure of \<^verbatim>\<open>server.h\<close> that reading requests and writing replies uses,
  string objects (\<^verbatim>\<open>object.c\<close>) and the output buffers of \<^verbatim>\<open>networking.c\<close>. A client has a fixed buffer and
  a list of reply blocks; a node of the list is identified by a number where the code has its
  address, and a node without a block is the placeholder of a length that is not known yet.
  Failed assertions and accesses outside a block are \<^const>\<open>None\<close>. The allocator, the clock, the
  configuration and what the socket accepts are arguments. Log messages, statistics and the
  server's lists of clients with pending work are left out.
\<close>

section \<open>Constants and configuration\<close>

abbreviation (input) PROTO_IOBUF_LEN :: nat where "PROTO_IOBUF_LEN \<equiv> 16384"
abbreviation (input) PROTO_REPLY_CHUNK_BYTES :: nat where "PROTO_REPLY_CHUNK_BYTES \<equiv> 16384"
abbreviation (input) PROTO_INLINE_MAX_SIZE :: nat where "PROTO_INLINE_MAX_SIZE \<equiv> 65536"
abbreviation (input) PROTO_MBULK_BIG_ARG :: nat where "PROTO_MBULK_BIG_ARG \<equiv> 32768"
abbreviation (input) NET_MAX_WRITES_PER_EVENT :: nat where "NET_MAX_WRITES_PER_EVENT \<equiv> 65536"

text \<open>The bits of the \<^verbatim>\<open>flags\<close> field that this part of the code reads or writes.\<close>

datatype client_flag =
    CLIENT_SLAVE | CLIENT_MASTER | CLIENT_MONITOR | CLIENT_MULTI | CLIENT_BLOCKED
  | CLIENT_CLOSE_AFTER_REPLY | CLIENT_LUA | CLIENT_ASKING | CLIENT_CLOSE_ASAP
  | CLIENT_MASTER_FORCE_REPLY | CLIENT_PUBSUB | CLIENT_PENDING_WRITE | CLIENT_REPLY_OFF
  | CLIENT_REPLY_SKIP_NEXT | CLIENT_REPLY_SKIP | CLIENT_MODULE | CLIENT_PENDING_READ
  | CLIENT_PENDING_COMMAND | CLIENT_TRACKING_CACHING | CLIENT_PROTOCOL_ERROR

datatype client_type = CLIENT_TYPE_NORMAL | CLIENT_TYPE_SLAVE | CLIENT_TYPE_PUBSUB | CLIENT_TYPE_MASTER

datatype req_type = PROTO_REQ_INLINE | PROTO_REQ_MULTIBULK

record obuf_limit =
  hard_limit_bytes :: nat
  soft_limit_bytes :: nat
  soft_limit_seconds :: int

record server_conf =
  proto_max_bulk_len :: int
  client_max_querybuf_len :: nat
  client_obuf_limits :: "client_type \<Rightarrow> obuf_limit"
  maxmemory :: nat
  used_memory :: nat
  unixtime :: int
  lua_timedout :: bool
  gopher_enabled :: bool
  io_threads_active :: bool
  io_threads_do_reads :: bool
  events_while_blocked :: bool

abbreviation CR :: char where "CR \<equiv> CHR 0x0D"
abbreviation LF :: char where "LF \<equiv> CHR 0x0A"

section \<open>String objects\<close>

datatype obj_type = OBJ_STRING | OBJ_LIST | OBJ_SET | OBJ_ZSET | OBJ_HASH | OBJ_MODULE | OBJ_STREAM

datatype obj_encoding = OBJ_ENCODING_RAW | OBJ_ENCODING_INT | OBJ_ENCODING_EMBSTR

text \<open>
  Objects that hold a string or an integer: the pointer field holds the integer itself when the
  encoding is \<open>OBJ_ENCODING_INT\<close>. The access time is left out.
\<close>

datatype obj_ptr = Sds_ptr sds | Long_ptr u64

record robj =
  ob_type :: obj_type
  ob_encoding :: obj_encoding
  ob_ptr :: obj_ptr
  refcount :: int

definition createObject :: "obj_type \<Rightarrow> sds \<Rightarrow> robj" where
  "createObject type ptr = \<lparr>ob_type = type, ob_encoding = OBJ_ENCODING_RAW, ob_ptr = Sds_ptr ptr, refcount = 1\<rparr>"

definition createRawStringObject :: "allocator \<Rightarrow> sds_init \<Rightarrow> nat \<Rightarrow> robj option" where
  "createRawStringObject al ptr len = map_option (createObject OBJ_STRING) (sdsnewlen al ptr len)"

text \<open>The string and its header are in the block of the object, with room for exactly \<open>len\<close> bytes.\<close>

definition createEmbeddedStringObject :: "allocator \<Rightarrow> sds_init \<Rightarrow> nat \<Rightarrow> robj option" where
  "createEmbeddedStringObject al ptr len = do {
     let b = map (al_junk al) [0..<len + 1];
     b \<leftarrow> (case ptr of
              Sds_noinit \<Rightarrow> store_at len [NUL] b
            | Init t \<Rightarrow> do { bs \<leftarrow> load_at 0 len t; b \<leftarrow> store_at 0 bs b; store_at len [NUL] b }
            | Init_null \<Rightarrow> store_at 0 (replicate (len + 1) NUL) b);
     Some \<lparr>ob_type = OBJ_STRING, ob_encoding = OBJ_ENCODING_EMBSTR,
           ob_ptr = Sds_ptr \<lparr>hdr_type = SDS_TYPE_8, hdr_len = len mod 2 ^ 8, hdr_alloc = len mod 2 ^ 8, buf = b\<rparr>,
           refcount = 1\<rparr>
   }"

abbreviation (input) OBJ_ENCODING_EMBSTR_SIZE_LIMIT :: nat where "OBJ_ENCODING_EMBSTR_SIZE_LIMIT \<equiv> 44"

definition createStringObject :: "allocator \<Rightarrow> sds_init \<Rightarrow> nat \<Rightarrow> robj option" where
  "createStringObject al ptr len =
     (if len \<le> OBJ_ENCODING_EMBSTR_SIZE_LIMIT then createEmbeddedStringObject al ptr len
      else createRawStringObject al ptr len)"

definition sdsEncodedObject :: "robj \<Rightarrow> bool" where
  "sdsEncodedObject o' \<longleftrightarrow> ob_encoding o' = OBJ_ENCODING_RAW \<or> ob_encoding o' = OBJ_ENCODING_EMBSTR"

definition stringObjectLen :: "robj \<Rightarrow> nat option" where
  "stringObjectLen o' =
     (if ob_type o' \<noteq> OBJ_STRING then None
      else case ob_ptr o' of
             Sds_ptr s \<Rightarrow> if sdsEncodedObject o' then Some (sdslen s) else None
           | Long_ptr v \<Rightarrow> if sdsEncodedObject o' then None else Some (sdigits10 v))"

section \<open>Clients\<close>

record reply_block =
  blk_size :: nat
  blk_used :: nat
  blk_buf :: "char list"

text \<open>
  The command a client runs, as far as resetting the client tells commands apart.
\<close>

datatype cmd_proc = Asking_command | Client_command | Other_command

text \<open>
  \<open>argv\<close> is the used part of the argument array, so its length is \<^verbatim>\<open>argc\<close>, and \<open>argv_cap\<close> the number of
  elements that were allocated. An unknown request type is \<^const>\<open>None\<close>, an unknown bulk length is -1.
\<close>

record client =
  flags :: "client_flag set"
  has_conn :: bool
  resp :: int
  replstate :: int
  repl_put_online_on_ack :: bool
  querybuf :: sds
  qb_pos :: nat
  pending_querybuf :: sds
  querybuf_peak :: nat
  argv :: "robj list"
  argv_cap :: nat
  argv_len_sum :: nat
  cmd :: "cmd_proc option"
  reqtype :: "req_type option"
  multibulklen :: nat
  bulklen :: int
  reply :: "(nat \<times> reply_block option) list"
  reply_next :: nat
  reply_bytes :: nat
  sentlen :: nat
  obuf :: "char list"
  bufpos :: nat
  obuf_soft_limit_reached_time :: int
  lastinteraction :: int
  read_reploff :: int
  reploff :: int
  repl_ack_time :: int
  write_handler :: bool

definition set_flags :: "client_flag set \<Rightarrow> client \<Rightarrow> client" where
  "set_flags fs c = c\<lparr>flags := flags c \<union> fs\<rparr>"

definition clear_flags :: "client_flag set \<Rightarrow> client \<Rightarrow> client" where
  "clear_flags fs c = c\<lparr>flags := flags c - fs\<rparr>"

definition getClientType :: "client \<Rightarrow> client_type" where
  "getClientType c =
     (if CLIENT_MASTER \<in> flags c then CLIENT_TYPE_MASTER
      else if CLIENT_SLAVE \<in> flags c \<and> CLIENT_MONITOR \<notin> flags c then CLIENT_TYPE_SLAVE
      else if CLIENT_PUBSUB \<in> flags c then CLIENT_TYPE_PUBSUB
      else CLIENT_TYPE_NORMAL)"

definition freeClientAsync :: "client \<Rightarrow> client" where
  "freeClientAsync c =
     (if CLIENT_CLOSE_ASAP \<in> flags c \<or> CLIENT_LUA \<in> flags c then c else set_flags {CLIENT_CLOSE_ASAP} c)"

definition freeClientArgv :: "client \<Rightarrow> client" where
  "freeClientArgv c = c\<lparr>argv := [], cmd := None, argv_len_sum := 0\<rparr>"

definition resetClient :: "client \<Rightarrow> client" where
  "resetClient c =
     (let prevcmd = cmd c;
          c = freeClientArgv c;
          c = c\<lparr>reqtype := None, multibulklen := 0, bulklen := -1\<rparr>;
          c = (if CLIENT_MULTI \<notin> flags c \<and> prevcmd \<noteq> Some Asking_command then clear_flags {CLIENT_ASKING} c else c);
          c = (if CLIENT_MULTI \<notin> flags c \<and> prevcmd \<noteq> Some Client_command then clear_flags {CLIENT_TRACKING_CACHING} c else c);
          c = clear_flags {CLIENT_REPLY_SKIP} c
      in if CLIENT_REPLY_SKIP_NEXT \<in> flags c
         then clear_flags {CLIENT_REPLY_SKIP_NEXT} (set_flags {CLIENT_REPLY_SKIP} c) else c)"

section \<open>Output buffers\<close>

definition clientHasPendingReplies :: "client \<Rightarrow> bool" where
  "clientHasPendingReplies c \<longleftrightarrow> bufpos c \<noteq> 0 \<or> length (reply c) \<noteq> 0"

abbreviation (input) REPL_STATE_NONE :: int where "REPL_STATE_NONE \<equiv> 0"
abbreviation (input) SLAVE_STATE_ONLINE :: int where "SLAVE_STATE_ONLINE \<equiv> 9"

definition clientInstallWriteHandler :: "client \<Rightarrow> client" where
  "clientInstallWriteHandler c =
     (if CLIENT_PENDING_WRITE \<notin> flags c \<and>
         (replstate c = REPL_STATE_NONE \<or> (replstate c = SLAVE_STATE_ONLINE \<and> \<not> repl_put_online_on_ack c))
      then set_flags {CLIENT_PENDING_WRITE} c else c)"

definition prepareClientToWrite :: "client \<Rightarrow> bool \<times> client" where
  "prepareClientToWrite c =
     (if flags c \<inter> {CLIENT_LUA, CLIENT_MODULE} \<noteq> {} then (True, c)
      else if CLIENT_CLOSE_ASAP \<in> flags c then (False, c)
      else if flags c \<inter> {CLIENT_REPLY_OFF, CLIENT_REPLY_SKIP} \<noteq> {} then (False, c)
      else if CLIENT_MASTER \<in> flags c \<and> CLIENT_MASTER_FORCE_REPLY \<notin> flags c then (False, c)
      else if \<not> has_conn c then (False, c)
      else if \<not> clientHasPendingReplies c \<and> CLIENT_PENDING_READ \<notin> flags c
      then (True, clientInstallWriteHandler c) else (True, c))"

text \<open>\<open>sizeof(listNode) + sizeof(clientReplyBlock)\<close> is 40 on a 64-bit platform.\<close>

definition getClientOutputBufferMemoryUsage :: "client \<Rightarrow> nat" where
  "getClientOutputBufferMemoryUsage c = addw 64 (reply_bytes c) (40 * length (reply c))"

definition checkClientOutputBufferLimits :: "server_conf \<Rightarrow> client \<Rightarrow> bool \<times> client" where
  "checkClientOutputBufferLimits sv c =
     (let used_mem = getClientOutputBufferMemoryUsage c;
          class = getClientType c;
          class = (if class = CLIENT_TYPE_MASTER then CLIENT_TYPE_NORMAL else class);
          lim = client_obuf_limits sv class;
          hard = (hard_limit_bytes lim \<noteq> 0 \<and> used_mem \<ge> hard_limit_bytes lim);
          soft = (soft_limit_bytes lim \<noteq> 0 \<and> used_mem \<ge> soft_limit_bytes lim)
      in if soft then
           (if obuf_soft_limit_reached_time c = 0
            then (hard, c\<lparr>obuf_soft_limit_reached_time := unixtime sv\<rparr>)
            else if unixtime sv - obuf_soft_limit_reached_time c \<le> soft_limit_seconds lim then (hard, c)
            else (True, c))
         else (hard, c\<lparr>obuf_soft_limit_reached_time := 0\<rparr>))"

text \<open>The asynchronous case, which is how the functions below call it.\<close>

definition closeClientOnOutputBufferLimitReached :: "server_conf \<Rightarrow> client \<Rightarrow> client option" where
  "closeClientOnOutputBufferLimitReached sv c =
     (if \<not> has_conn c then Some c
      else if \<not> reply_bytes c < 2 ^ 64 - 1 - 1024 * 64 then None
      else if reply_bytes c = 0 \<or> CLIENT_CLOSE_ASAP \<in> flags c then Some c
      else (case checkClientOutputBufferLimits sv c of
              (reached, c) \<Rightarrow> Some (if reached then freeClientAsync c else c)))"

text \<open>A return value \<open>False\<close> asks the caller to use the list.\<close>

definition i_addReplyToBuffer :: "client \<Rightarrow> char list \<Rightarrow> (bool \<times> client) option" where
  "i_addReplyToBuffer c s =
     (let available = subw 64 PROTO_REPLY_CHUNK_BYTES (bufpos c) in
      if CLIENT_CLOSE_AFTER_REPLY \<in> flags c then Some (True, c)
      else if length (reply c) > 0 then Some (False, c)
      else if length s > available then Some (False, c)
      else map_option (\<lambda>b. (True, c\<lparr>obuf := b, bufpos := bufpos c + length s\<rparr>)) (store_at (bufpos c) s (obuf c)))"

text \<open>A new block has the size the allocator gives for it, without its two length fields of 16 bytes.\<close>

definition new_block :: "allocator \<Rightarrow> nat \<Rightarrow> char list \<Rightarrow> reply_block option" where
  "new_block al size' s =
     (let usable = subw 64 (al_usable al (size' + 16)) 16
      in map_option (\<lambda>b. \<lparr>blk_size = usable, blk_used = length s, blk_buf = b\<rparr>)
           (store_at 0 s (map (al_junk al) [0..<usable])))"

text \<open>Copying the front of \<open>s\<close> into the free space of a block; what is left is returned.\<close>

definition block_append :: "reply_block \<Rightarrow> char list \<Rightarrow> (reply_block \<times> char list) option" where
  "block_append b s =
     (let avail = subw 64 (blk_size b) (blk_used b);
          copy = (if avail \<ge> length s then length s else avail)
      in map_option (\<lambda>m. (b\<lparr>blk_buf := m, blk_used := blk_used b + copy\<rparr>, drop copy s))
           (store_at (blk_used b) (take copy s) (blk_buf b)))"

definition add_reply_node :: "client \<Rightarrow> reply_block option \<Rightarrow> client" where
  "add_reply_node c b = c\<lparr>reply := reply c @ [(reply_next c, b)], reply_next := reply_next c + 1\<rparr>"

definition i_addReplyProtoToList :: "allocator \<Rightarrow> server_conf \<Rightarrow> client \<Rightarrow> char list \<Rightarrow> client option" where
  "i_addReplyProtoToList al sv c s =
     (if CLIENT_CLOSE_AFTER_REPLY \<in> flags c then Some c
      else do {
        (c, s) \<leftarrow> (if reply c = [] then Some (c, s)
                    else case last (reply c) of
                           (_, None) \<Rightarrow> Some (c, s)
                         | (i, Some tail) \<Rightarrow> do {
                             (tail, s) \<leftarrow> block_append tail s;
                             Some (c\<lparr>reply := butlast (reply c) @ [(i, Some tail)]\<rparr>, s) });
        if length s \<noteq> 0 then do {
          b \<leftarrow> new_block al (if length s < PROTO_REPLY_CHUNK_BYTES then PROTO_REPLY_CHUNK_BYTES else length s) s;
          let c = add_reply_node c (Some b);
          let c = c\<lparr>reply_bytes := addw 64 (reply_bytes c) (blk_size b)\<rparr>;
          closeClientOnOutputBufferLimitReached sv c }
        else Some c
      })"

definition add_bytes :: "allocator \<Rightarrow> server_conf \<Rightarrow> client \<Rightarrow> char list \<Rightarrow> client option" where
  "add_bytes al sv c s = do {
     (stored, c) \<leftarrow> i_addReplyToBuffer c s;
     if stored then Some c else i_addReplyProtoToList al sv c s
   }"

definition addReplyProto :: "allocator \<Rightarrow> server_conf \<Rightarrow> client \<Rightarrow> char list \<Rightarrow> client option" where
  "addReplyProto al sv c s =
     (case prepareClientToWrite c of (ok, c) \<Rightarrow> if \<not> ok then Some c else add_bytes al sv c s)"

definition addReply :: "allocator \<Rightarrow> server_conf \<Rightarrow> client \<Rightarrow> robj \<Rightarrow> client option" where
  "addReply al sv c obj =
     (case prepareClientToWrite c of (ok, c) \<Rightarrow>
        if \<not> ok then Some c
        else case ob_ptr obj of
               Sds_ptr p \<Rightarrow>
                 if sdsEncodedObject obj then do { s \<leftarrow> load_at 0 (sdslen p) (buf p); add_bytes al sv c s } else None
             | Long_ptr v \<Rightarrow>
                 if ob_encoding obj = OBJ_ENCODING_INT
                 then (case ll2string (map (al_junk al) [0..<32]) 32 v of (len, b) \<Rightarrow> add_bytes al sv c (take len b))
                 else None)"

definition addReplySds :: "allocator \<Rightarrow> server_conf \<Rightarrow> client \<Rightarrow> sds \<Rightarrow> client option" where
  "addReplySds al sv c s =
     (case prepareClientToWrite c of (ok, c) \<Rightarrow>
        if \<not> ok then Some c else do { s \<leftarrow> load_at 0 (sdslen s) (buf s); add_bytes al sv c s })"

section \<open>Replies of each type\<close>

definition addReplyErrorLength :: "allocator \<Rightarrow> server_conf \<Rightarrow> client \<Rightarrow> char list \<Rightarrow> client option" where
  "addReplyErrorLength al sv c s = do {
     c \<leftarrow> (if length s = 0 \<or> hd s \<noteq> CHR ''-'' then addReplyProto al sv c ''-ERR '' else Some c);
     c \<leftarrow> addReplyProto al sv c s;
     addReplyProto al sv c [CR, LF]
   }"

text \<open>The error statistics and the log message that follow an error reply are left out.\<close>

definition addReplyError :: "allocator \<Rightarrow> server_conf \<Rightarrow> client \<Rightarrow> char list \<Rightarrow> client option" where
  "addReplyError al sv c err = addReplyErrorLength al sv c (take (strlen err) err)"

definition addReplyErrorSds :: "allocator \<Rightarrow> server_conf \<Rightarrow> client \<Rightarrow> sds \<Rightarrow> client option" where
  "addReplyErrorSds al sv c err = do { s \<leftarrow> load_at 0 (sdslen err) (buf err); addReplyErrorLength al sv c s }"

text \<open>\<open>s\<close> is the formatted message.\<close>

definition addReplyErrorFormat :: "allocator \<Rightarrow> server_conf \<Rightarrow> client \<Rightarrow> sds \<Rightarrow> client option" where
  "addReplyErrorFormat al sv c s = do {
     s \<leftarrow> sdstrim s [CR, LF];
     let s = sdsmapchars s [CR, LF] ''  '' 2;
     addReplyErrorSds al sv c s
   }"

definition addReplyStatusLength :: "allocator \<Rightarrow> server_conf \<Rightarrow> client \<Rightarrow> char list \<Rightarrow> client option" where
  "addReplyStatusLength al sv c s = do {
     c \<leftarrow> addReplyProto al sv c ''+'';
     c \<leftarrow> addReplyProto al sv c s;
     addReplyProto al sv c [CR, LF]
   }"

definition addReplyStatus :: "allocator \<Rightarrow> server_conf \<Rightarrow> client \<Rightarrow> char list \<Rightarrow> client option" where
  "addReplyStatus al sv c status = addReplyStatusLength al sv c (take (strlen status) status)"

text \<open>The shared objects that are used below, with the text \<^verbatim>\<open>createSharedObjects\<close> gives them.\<close>

definition shared_obj :: "allocator \<Rightarrow> char list \<Rightarrow> robj option" where
  "shared_obj al t = map_option (createObject OBJ_STRING) (sdsnew al (Some t))"

definition shared_hdr :: "allocator \<Rightarrow> char \<Rightarrow> nat \<Rightarrow> robj option" where
  "shared_hdr al prefix j = do {
     s \<leftarrow> sdsempty al;
     s \<leftarrow> sdscat al s (prefix # dec j @ [CR, LF]);
     Some (createObject OBJ_STRING s)
   }"

definition addReplyShared :: "allocator \<Rightarrow> server_conf \<Rightarrow> client \<Rightarrow> char list \<Rightarrow> client option" where
  "addReplyShared al sv c t = do { obj \<leftarrow> shared_obj al t; addReply al sv c obj }"

abbreviation (input) OBJ_SHARED_BULKHDR_LEN :: int where "OBJ_SHARED_BULKHDR_LEN \<equiv> 32"

definition addReplyLongLongWithPrefix :: "allocator \<Rightarrow> server_conf \<Rightarrow> client \<Rightarrow> u64 \<Rightarrow> char \<Rightarrow> client option" where
  "addReplyLongLongWithPrefix al sv c ll prefix =
     (if (prefix = CHR ''*'' \<or> prefix = CHR ''$'') \<and> sint ll < OBJ_SHARED_BULKHDR_LEN \<and> sint ll \<ge> 0
      then do { obj \<leftarrow> shared_hdr al prefix (nat (sint ll)); addReply al sv c obj }
      else case ll2string (map (al_junk al) [1..<128]) 127 ll of
             (len, b) \<Rightarrow> addReplyProto al sv c (prefix # take len b @ [CR, LF]))"

definition addReplyLongLong :: "allocator \<Rightarrow> server_conf \<Rightarrow> client \<Rightarrow> u64 \<Rightarrow> client option" where
  "addReplyLongLong al sv c ll =
     (if ll = 0 then addReplyShared al sv c ('':0'' @ [CR, LF])
      else if ll = 1 then addReplyShared al sv c ('':1'' @ [CR, LF])
      else addReplyLongLongWithPrefix al sv c ll CHR '':'')"

definition addReplyAggregateLen :: "allocator \<Rightarrow> server_conf \<Rightarrow> client \<Rightarrow> u64 \<Rightarrow> char \<Rightarrow> client option" where
  "addReplyAggregateLen al sv c len prefix =
     (if sint len \<ge> 0 then addReplyLongLongWithPrefix al sv c len prefix else None)"

definition addReplyArrayLen :: "allocator \<Rightarrow> server_conf \<Rightarrow> client \<Rightarrow> u64 \<Rightarrow> client option" where
  "addReplyArrayLen al sv c len = addReplyAggregateLen al sv c len CHR ''*''"

definition addReplyMapLen :: "allocator \<Rightarrow> server_conf \<Rightarrow> client \<Rightarrow> u64 \<Rightarrow> client option" where
  "addReplyMapLen al sv c len =
     addReplyAggregateLen al sv c (if resp c = 2 then len * 2 else len) (if resp c = 2 then CHR ''*'' else CHR ''%'')"

definition addReplySetLen :: "allocator \<Rightarrow> server_conf \<Rightarrow> client \<Rightarrow> u64 \<Rightarrow> client option" where
  "addReplySetLen al sv c len = addReplyAggregateLen al sv c len (if resp c = 2 then CHR ''*'' else CHR ''~'')"

definition addReplyNull :: "allocator \<Rightarrow> server_conf \<Rightarrow> client \<Rightarrow> client option" where
  "addReplyNull al sv c =
     (if resp c = 2 then addReplyProto al sv c (''$-1'' @ [CR, LF]) else addReplyProto al sv c (''_'' @ [CR, LF]))"

definition addReplyBool :: "allocator \<Rightarrow> server_conf \<Rightarrow> client \<Rightarrow> bool \<Rightarrow> client option" where
  "addReplyBool al sv c b =
     (if resp c = 2 then addReplyShared al sv c ((if b then '':1'' else '':0'') @ [CR, LF])
      else addReplyProto al sv c ((if b then ''#t'' else ''#f'') @ [CR, LF]))"

definition addReplyNullArray :: "allocator \<Rightarrow> server_conf \<Rightarrow> client \<Rightarrow> client option" where
  "addReplyNullArray al sv c =
     (if resp c = 2 then addReplyProto al sv c (''*-1'' @ [CR, LF]) else addReplyProto al sv c (''_'' @ [CR, LF]))"

definition addReplyBulkLen :: "allocator \<Rightarrow> server_conf \<Rightarrow> client \<Rightarrow> robj \<Rightarrow> client option" where
  "addReplyBulkLen al sv c obj = do {
     len \<leftarrow> stringObjectLen obj;
     addReplyLongLongWithPrefix al sv c (of_nat len) CHR ''$''
   }"

definition addReplyBulk :: "allocator \<Rightarrow> server_conf \<Rightarrow> client \<Rightarrow> robj \<Rightarrow> client option" where
  "addReplyBulk al sv c obj = do {
     c \<leftarrow> addReplyBulkLen al sv c obj;
     c \<leftarrow> addReply al sv c obj;
     addReplyShared al sv c [CR, LF]
   }"

definition addReplyBulkCBuffer :: "allocator \<Rightarrow> server_conf \<Rightarrow> client \<Rightarrow> char list \<Rightarrow> client option" where
  "addReplyBulkCBuffer al sv c p = do {
     c \<leftarrow> addReplyLongLongWithPrefix al sv c (of_nat (length p)) CHR ''$'';
     c \<leftarrow> addReplyProto al sv c p;
     addReplyShared al sv c [CR, LF]
   }"

definition addReplyBulkSds :: "allocator \<Rightarrow> server_conf \<Rightarrow> client \<Rightarrow> sds \<Rightarrow> client option" where
  "addReplyBulkSds al sv c s = do {
     c \<leftarrow> addReplyLongLongWithPrefix al sv c (of_nat (sdslen s)) CHR ''$'';
     c \<leftarrow> addReplySds al sv c s;
     addReplyShared al sv c [CR, LF]
   }"

definition addReplyBulkCString :: "allocator \<Rightarrow> server_conf \<Rightarrow> client \<Rightarrow> char list option \<Rightarrow> client option" where
  "addReplyBulkCString al sv c s =
     (case s of None \<Rightarrow> addReplyNull al sv c | Some s \<Rightarrow> addReplyBulkCBuffer al sv c (take (strlen s) s))"

definition addReplyBulkLongLong :: "allocator \<Rightarrow> server_conf \<Rightarrow> client \<Rightarrow> u64 \<Rightarrow> client option" where
  "addReplyBulkLongLong al sv c ll =
     (case ll2string (map (al_junk al) [0..<64]) 64 ll of (len, b) \<Rightarrow> addReplyBulkCBuffer al sv c (take len b))"

section \<open>Lengths that are filled in later\<close>

definition trimReplyUnusedTailSpace :: "allocator \<Rightarrow> client \<Rightarrow> client" where
  "trimReplyUnusedTailSpace al c =
     (if reply c = [] then c
      else case last (reply c) of
             (_, None) \<Rightarrow> c
           | (i, Some tail) \<Rightarrow>
               if subw 64 (blk_size tail) (blk_used tail) > blk_size tail div 4 \<and> blk_used tail < PROTO_REPLY_CHUNK_BYTES
               then let old_size = blk_size tail;
                        size' = subw 64 (al_usable al (blk_used tail + 16)) 16;
                        tail = tail\<lparr>blk_size := size', blk_buf := realloc (al_junk al) size' (blk_buf tail)\<rparr>
                    in c\<lparr>reply := butlast (reply c) @ [(i, Some tail)],
                         reply_bytes := subw 64 (addw 64 (reply_bytes c) size') old_size\<rparr>
               else c)"

text \<open>The result is the node of the placeholder, or \<^const>\<open>None\<close> for NULL.\<close>

definition addReplyDeferredLen :: "allocator \<Rightarrow> client \<Rightarrow> nat option \<times> client" where
  "addReplyDeferredLen al c =
     (case prepareClientToWrite c of (ok, c) \<Rightarrow>
        if \<not> ok then (None, c)
        else let c = trimReplyUnusedTailSpace al c in (Some (reply_next c), add_reply_node c None))"

text \<open>The nodes before a node of the list, its value and the nodes after it.\<close>

fun split_node :: "nat \<Rightarrow> (nat \<times> 'b) list \<Rightarrow> ((nat \<times> 'b) list \<times> 'b \<times> (nat \<times> 'b) list) option" where
  "split_node i [] = None"
| "split_node i ((j, b) # ns) =
     (if i = j then Some ([], b, ns)
      else map_option (\<lambda>(pre, v, post). ((j, b) # pre, v, post)) (split_node i ns))"

text \<open>
  Filling the node before the placeholder: the nodes, what is left of the text, and whether the
  function returns after it has deleted the placeholder.
\<close>

definition fill_prev ::
  "(nat \<times> reply_block option) list \<Rightarrow> char list \<Rightarrow>
   ((nat \<times> reply_block option) list \<times> char list \<times> bool) option" where
  "fill_prev pre s =
     (if pre = [] then Some (pre, s, False)
      else case last pre of
             (_, None) \<Rightarrow> Some (pre, s, False)
           | (j, Some prev) \<Rightarrow>
               if subw 64 (blk_size prev) (blk_used prev) > 0 then do {
                 (prev, s) \<leftarrow> block_append prev s;
                 Some (butlast pre @ [(j, Some prev)], s, length s = 0) }
               else Some (pre, s, False))"

text \<open>Putting the text in front of the next block.\<close>

definition block_prepend :: "reply_block \<Rightarrow> char list \<Rightarrow> reply_block option" where
  "block_prepend b s = do {
     m \<leftarrow> memmove (length s) 0 (blk_used b) (blk_buf b);
     m \<leftarrow> store_at 0 s m;
     Some (b\<lparr>blk_buf := m, blk_used := blk_used b + length s\<rparr>)
   }"

definition next_has_room :: "(nat \<times> reply_block option) list \<Rightarrow> nat \<Rightarrow> bool" where
  "next_has_room post len =
     (case post of
        (_, Some nx) # _ \<Rightarrow>
          subw 64 (blk_size nx) (blk_used nx) \<ge> len \<and> blk_used nx < PROTO_REPLY_CHUNK_BYTES * 4
      | _ \<Rightarrow> False)"

definition setDeferredReply ::
  "allocator \<Rightarrow> server_conf \<Rightarrow> client \<Rightarrow> nat option \<Rightarrow> char list \<Rightarrow> client option" where
  "setDeferredReply al sv c node s =
     (case node of
        None \<Rightarrow> Some c
      | Some i \<Rightarrow> do {
          (pre, v, post) \<leftarrow> split_node i (reply c);
          if v \<noteq> None then None
          else do {
            (pre, s, returned) \<leftarrow> fill_prev pre s;
            if returned then Some (c\<lparr>reply := pre @ post\<rparr>)
            else if next_has_room post (length s) then
              (case post of
                 (k, Some nx) # post \<Rightarrow> do {
                   nx \<leftarrow> block_prepend nx s;
                   Some (c\<lparr>reply := pre @ (k, Some nx) # post\<rparr>) }
               | _ \<Rightarrow> None)
            else do {
              b \<leftarrow> new_block al (length s) s;
              closeClientOnOutputBufferLimitReached sv
                (c\<lparr>reply := pre @ (i, Some b) # post, reply_bytes := addw 64 (reply_bytes c) (blk_size b)\<rparr>) }
          }
        })"

definition setDeferredAggregateLen ::
  "allocator \<Rightarrow> server_conf \<Rightarrow> client \<Rightarrow> nat option \<Rightarrow> int \<Rightarrow> char \<Rightarrow> client option" where
  "setDeferredAggregateLen al sv c node len prefix =
     (if \<not> len \<ge> 0 then None
      else if node = None then Some c
      else setDeferredReply al sv c node (prefix # dec_int len @ [CR, LF]))"

definition setDeferredArrayLen :: "allocator \<Rightarrow> server_conf \<Rightarrow> client \<Rightarrow> nat option \<Rightarrow> int \<Rightarrow> client option" where
  "setDeferredArrayLen al sv c node len = setDeferredAggregateLen al sv c node len CHR ''*''"

definition setDeferredMapLen :: "allocator \<Rightarrow> server_conf \<Rightarrow> client \<Rightarrow> nat option \<Rightarrow> int \<Rightarrow> client option" where
  "setDeferredMapLen al sv c node len =
     setDeferredAggregateLen al sv c node (if resp c = 2 then len * 2 else len) (if resp c = 2 then CHR ''*'' else CHR ''%'')"

definition setDeferredSetLen :: "allocator \<Rightarrow> server_conf \<Rightarrow> client \<Rightarrow> nat option \<Rightarrow> int \<Rightarrow> client option" where
  "setDeferredSetLen al sv c node len =
     setDeferredAggregateLen al sv c node len (if resp c = 2 then CHR ''*'' else CHR ''~'')"

section \<open>Writing to the socket\<close>

text \<open>
  \<open>w k n\<close> is what the call number \<open>k\<close> of \<^verbatim>\<open>connWrite\<close> returns when it is given \<open>n\<close> bytes; more than \<open>n\<close>
  is outside its contract. A pass of the loop ends with a result that is not positive, has deleted
  an empty block, or has written the bytes that are given.
\<close>

datatype write_result = Wr_blocked int | Wr_skipped client | Wr_sent "char list" client

definition write_step :: "(nat \<Rightarrow> nat \<Rightarrow> int) \<Rightarrow> nat \<Rightarrow> client \<Rightarrow> write_result option" where
  "write_step w k c =
     (if bufpos c > 0 then do {
        bs \<leftarrow> load_at (sentlen c) (subw 64 (bufpos c) (sentlen c)) (obuf c);
        let nwritten = w k (length bs);
        if nwritten \<le> 0 then Some (Wr_blocked nwritten)
        else if nwritten > int (length bs) then None
        else let c = c\<lparr>sentlen := sentlen c + nat nwritten\<rparr>
             in Some (Wr_sent (take (nat nwritten) bs)
                  (if sentlen c = bufpos c then c\<lparr>bufpos := 0, sentlen := 0\<rparr> else c))
      }
      else (case reply c of
              (_, Some o') # rest \<Rightarrow>
                if blk_used o' = 0 then
                  Some (Wr_skipped (c\<lparr>reply_bytes := subw 64 (reply_bytes c) (blk_size o'), reply := rest\<rparr>))
                else do {
                  bs \<leftarrow> load_at (sentlen c) (subw 64 (blk_used o') (sentlen c)) (blk_buf o');
                  let nwritten = w k (length bs);
                  if nwritten \<le> 0 then Some (Wr_blocked nwritten)
                  else if nwritten > int (length bs) then None
                  else let c = c\<lparr>sentlen := sentlen c + nat nwritten\<rparr>
                       in if sentlen c = blk_used o'
                          then let c = c\<lparr>reply_bytes := subw 64 (reply_bytes c) (blk_size o'), reply := rest, sentlen := 0\<rparr>
                               in if length rest = 0 \<and> reply_bytes c \<noteq> 0 then None
                                  else Some (Wr_sent (take (nat nwritten) bs) c)
                          else Some (Wr_sent (take (nat nwritten) bs) c)
                }
            | _ \<Rightarrow> None))"

definition write_enough :: "server_conf \<Rightarrow> nat \<Rightarrow> client \<Rightarrow> bool" where
  "write_enough sv totwritten c \<longleftrightarrow>
     totwritten > NET_MAX_WRITES_PER_EVENT \<and> (maxmemory sv = 0 \<or> used_memory sv < maxmemory sv) \<and>
     CLIENT_SLAVE \<notin> flags c"

text \<open>The bytes written, the last result of \<^verbatim>\<open>connWrite\<close> (0 before the first call) and the client.\<close>

partial_function (option) write_loop ::
  "(nat \<Rightarrow> nat \<Rightarrow> int) \<Rightarrow> server_conf \<Rightarrow> nat \<Rightarrow> int \<Rightarrow> char list \<Rightarrow> client \<Rightarrow> (char list \<times> int \<times> client) option" where
  "write_loop w sv k nwritten out c =
     (if \<not> clientHasPendingReplies c then Some (out, nwritten, c)
      else do {
        r \<leftarrow> write_step w k c;
        case r of
          Wr_blocked n \<Rightarrow> Some (out, n, c)
        | Wr_skipped c \<Rightarrow> write_loop w sv k nwritten out c
        | Wr_sent bs c \<Rightarrow>
            if write_enough sv (length (out @ bs)) c then Some (out @ bs, int (length bs), c)
            else write_loop w sv (k + 1) (int (length bs)) (out @ bs) c
      })"

text \<open>\<open>connected\<close> is the state of the connection after an error; the first result is \<open>False\<close> for \<^verbatim>\<open>C_ERR\<close>.\<close>

definition writeToClient ::
  "(nat \<Rightarrow> nat \<Rightarrow> int) \<Rightarrow> bool \<Rightarrow> server_conf \<Rightarrow> client \<Rightarrow> bool \<Rightarrow> (bool \<times> char list \<times> client) option" where
  "writeToClient w connected sv c handler_installed = do {
     (out, nwritten, c) \<leftarrow> write_loop w sv 0 0 [] c;
     if nwritten = -1 \<and> \<not> connected then Some (False, out, freeClientAsync c)
     else let c = (if length out > 0 \<and> CLIENT_MASTER \<notin> flags c then c\<lparr>lastinteraction := unixtime sv\<rparr> else c)
          in if \<not> clientHasPendingReplies c
             then let c = c\<lparr>sentlen := 0\<rparr>;
                      c = (if handler_installed then c\<lparr>write_handler := False\<rparr> else c)
                  in if CLIENT_CLOSE_AFTER_REPLY \<in> flags c then Some (False, out, freeClientAsync c)
                     else Some (True, out, c)
             else Some (True, out, c)
   }"

end
