(* ===== verification/Client_Correct.thy ===== *)
theory Client_Correct
  imports Client Sds_Str_Correct
begin

text \<open>
  The output buffers as a stream of bytes. What is pending is the unsent part of the fixed buffer
  and of the blocks. Every reply appends its bytes to the stream, whatever mix of buffer, last
  block and new blocks they go to; a length that is filled in later ends up where its placeholder
  was; writing to the socket takes bytes from the front.
\<close>

section \<open>The stream\<close>

definition block_text :: "reply_block \<Rightarrow> char list" where
  "block_text b = take (blk_used b) (blk_buf b)"

definition block_ok :: "reply_block \<Rightarrow> bool" where
  "block_ok b \<longleftrightarrow> blk_used b \<le> blk_size b \<and> length (blk_buf b) = blk_size b"

fun node_text :: "nat \<times> reply_block option \<Rightarrow> char list" where
  "node_text (i, None) = []"
| "node_text (i, Some b) = block_text b"

fun node_size :: "nat \<times> reply_block option \<Rightarrow> nat" where
  "node_size (i, None) = 0"
| "node_size (i, Some b) = blk_size b"

fun rnode_ok :: "nat \<times> reply_block option \<Rightarrow> bool" where
  "rnode_ok (i, None) = True"
| "rnode_ok (i, Some b) = block_ok b"

definition reply_text :: "(nat \<times> reply_block option) list \<Rightarrow> char list" where
  "reply_text ns = concat (map node_text ns)"

definition pending :: "client \<Rightarrow> char list" where
  "pending c = drop (sentlen c) (take (bufpos c) (obuf c) @ reply_text (reply c))"

text \<open>The length of what \<^verbatim>\<open>sentlen\<close> counts in: the buffer, or the first block when the buffer is empty.\<close>

definition head_len :: "client \<Rightarrow> nat" where
  "head_len c =
     (if bufpos c > 0 then bufpos c
      else case reply c of [] \<Rightarrow> 0 | n # _ \<Rightarrow> length (node_text n))"

definition nodes_ok :: "nat \<Rightarrow> (nat \<times> reply_block option) list \<Rightarrow> bool" where
  "nodes_ok k ns \<longleftrightarrow>
     (\<forall>n\<in>set ns. rnode_ok n \<and> fst n < k) \<and> distinct (map fst ns)"

definition out_ok :: "client \<Rightarrow> bool" where
  "out_ok c \<longleftrightarrow>
     length (obuf c) = PROTO_REPLY_CHUNK_BYTES \<and> bufpos c \<le> PROTO_REPLY_CHUNK_BYTES \<and>
     nodes_ok (reply_next c) (reply c) \<and>
     reply_bytes c = sum_list (map node_size (reply c)) \<and> reply_bytes c < 2 ^ 63 \<and>
     (sentlen c = 0 \<or> sentlen c < head_len c)"

text \<open>The fields that belong to the input side, which output never changes.\<close>

definition in_view :: "client \<Rightarrow> client" where
  "in_view c = c\<lparr>flags := {}, reply := [], reply_next := 0, reply_bytes := 0, sentlen := 0, obuf := [], bufpos := 0,
     obuf_soft_limit_reached_time := 0, lastinteraction := 0, write_handler := False\<rparr>"

lemma reply_text_simps [simp]:
  "reply_text [] = []" "reply_text (n # ns) = node_text n @ reply_text ns"
  "reply_text (ns @ ms) = reply_text ns @ reply_text ms"
  by (simp_all add: reply_text_def)

lemma length_block_text [simp]: "block_ok b \<Longrightarrow> length (block_text b) = blk_used b"
  by (simp add: block_ok_def block_text_def)

lemma nodes_ok_simps [simp]:
  "nodes_ok k []"
  "nodes_ok k (n # ns) \<longleftrightarrow> rnode_ok n \<and> fst n < k \<and> fst n \<notin> fst ` set ns \<and> nodes_ok k ns"
  by (auto simp: nodes_ok_def)

lemma nodes_ok_append [simp]:
  "nodes_ok k (ns @ ms) \<longleftrightarrow> nodes_ok k ns \<and> nodes_ok k ms \<and> fst ` set ns \<inter> fst ` set ms = {}"
  by (induction ns) auto

lemma nodes_ok_Suc: "nodes_ok k ns \<Longrightarrow> nodes_ok (Suc k) ns"
  by (auto simp: nodes_ok_def)

lemma pending_split:
  "out_ok c \<Longrightarrow> pending c = (if bufpos c > 0 then drop (sentlen c) (take (bufpos c) (obuf c)) @ reply_text (reply c)
     else drop (sentlen c) (reply_text (reply c)))"
  by (auto simp: pending_def out_ok_def head_len_def)

section \<open>Blocks\<close>

lemma new_block_correct:
  assumes "alloc_ok al" "length s \<le> n" "al_usable al (n + 16) < 2 ^ 64"
  shows "\<exists>b. new_block al n s = Some b \<and> block_ok b \<and> block_text b = s \<and> blk_used b = length s \<and> blk_size b = al_usable al (n + 16) - 16"
proof -
  have "16 \<le> al_usable al (n + 16)" "n + 16 \<le> al_usable al (n + 16)" using assms(1) by (auto simp: alloc_ok_def intro: le_trans [of _ "n + 16"])
  then show ?thesis
    using assms by (auto simp: new_block_def Let_def subw_small store_at_Some block_ok_def block_text_def)
qed

lemma block_append_correct:
  assumes "block_ok b" "blk_size b < 2 ^ 64"
  shows "\<exists>b' k. block_append b s = Some (b', drop k s) \<and> block_ok b' \<and> block_text b' = block_text b @ take k s \<and>
    blk_size b' = blk_size b \<and> k = min (length s) (blk_size b - blk_used b) \<and> blk_used b' = blk_used b + k"
proof -
  let ?k = "min (length s) (blk_size b - blk_used b)"
  have u: "blk_used b \<le> blk_size b" "length (blk_buf b) = blk_size b" using assms(1) by (auto simp: block_ok_def)
  have k: "(if subw 64 (blk_size b) (blk_used b) \<ge> length s then length s else subw 64 (blk_size b) (blk_used b)) = ?k"
    using subw_small [OF u(1) assms(2)] by simp
  have f: "blk_used b + length (take ?k s) \<le> length (blk_buf b)" using u by auto
  have "take (blk_used b + ?k) (take (blk_used b) (blk_buf b) @ take ?k s @ drop (blk_used b + length (take ?k s)) (blk_buf b))
      = take (blk_used b) (blk_buf b) @ take ?k s"
    using u by simp
  then show ?thesis
    using u f unfolding block_append_def k Let_def by (simp add: store_at_Some block_ok_def block_text_def)
qed

lemma block_prepend_correct:
  assumes "block_ok b" "length s \<le> blk_size b - blk_used b"
  shows "\<exists>b'. block_prepend b s = Some b' \<and> block_ok b' \<and> block_text b' = s @ block_text b \<and> blk_size b' = blk_size b"
  using assms by (auto simp: block_prepend_def memmove_def load_at_Some store_at_Some block_ok_def block_text_def min_absorb2)

section \<open>Adding bytes\<close>

text \<open>The allocator does not give out far more than it is asked for.\<close>

definition alloc_fit :: "allocator \<Rightarrow> bool" where
  "alloc_fit al \<longleftrightarrow> alloc_ok al \<and> (\<forall>n. al_usable al n \<le> 2 * n + 32)"

text \<open>What adding \<open>n\<close> bytes can take in memory.\<close>

definition reply_cost :: "nat \<Rightarrow> nat" where
  "reply_cost n = 2 * n + 32832"

text \<open>The list of blocks has grown by the text \<open>s\<close>: in its last block, in new nodes, or in both.\<close>

definition grows :: "(nat \<times> reply_block option) list \<Rightarrow> (nat \<times> reply_block option) list \<Rightarrow> char list \<Rightarrow> bool" where
  "grows ns ms s \<longleftrightarrow>
     (\<exists>new. ms = ns @ new \<and> reply_text new = s) \<or>
     (\<exists>pre i b b' new x. ns = pre @ [(i, Some b)] \<and> ms = pre @ (i, Some b') # new \<and>
        block_text b' = block_text b @ x \<and> s = x @ reply_text new)"

lemma grows_text: "grows ns ms s \<Longrightarrow> reply_text ms = reply_text ns @ s"
  by (auto simp: grows_def)

lemma grows_hole:
  assumes "grows (A @ (i, None) # B) ms s"
  shows "\<exists>B'. ms = A @ (i, None) # B' \<and> reply_text B' = reply_text B @ s"
proof -
  consider new where "ms = (A @ (i, None) # B) @ new" "reply_text new = s"
    | pre j b b' new x where "A @ (i, None) # B = pre @ [(j, Some b)]" "ms = pre @ (j, Some b') # new"
        "block_text b' = block_text b @ x" "s = x @ reply_text new"
    using assms unfolding grows_def by blast
  then show ?thesis
  proof cases
    case 1
    then show ?thesis by simp
  next
    case 2
    then obtain B0 where "B = B0 @ [(j, Some b)]" "pre = A @ (i, None) # B0"
      by (cases B rule: rev_cases) auto
    then show ?thesis using 2 by simp
  qed
qed

lemma close_limit_correct:
  assumes "reply_bytes c < 2 ^ 63"
  shows "\<exists>f t. closeClientOnOutputBufferLimitReached sv c = Some (c\<lparr>flags := f, obuf_soft_limit_reached_time := t\<rparr>) \<and>
    (f = flags c \<or> f = insert CLIENT_CLOSE_ASAP (flags c))"
proof -
  have e: "c = c\<lparr>flags := flags c, obuf_soft_limit_reached_time := obuf_soft_limit_reached_time c\<rparr>" by simp
  show ?thesis
  proof (cases "has_conn c \<and> \<not> (reply_bytes c = 0 \<or> CLIENT_CLOSE_ASAP \<in> flags c)")
    case False
    then have "closeClientOnOutputBufferLimitReached sv c = Some c"
      using assms by (auto simp: closeClientOnOutputBufferLimitReached_def)
    then show ?thesis using e by metis
  next
    case True
    obtain r t where r: "checkClientOutputBufferLimits sv c = (r, c\<lparr>obuf_soft_limit_reached_time := t\<rparr>)"
    proof -
      have "\<exists>r t. checkClientOutputBufferLimits sv c = (r, c\<lparr>obuf_soft_limit_reached_time := t\<rparr>)"
        unfolding checkClientOutputBufferLimits_def Let_def
        by (auto intro: exI [of _ "obuf_soft_limit_reached_time c"] split: if_splits)
      then show ?thesis using that by blast
    qed
    let ?c = "c\<lparr>obuf_soft_limit_reached_time := t\<rparr>"
    have k: "closeClientOnOutputBufferLimitReached sv c = Some (if r then freeClientAsync ?c else ?c)"
      using True assms r by (auto simp: closeClientOnOutputBufferLimitReached_def)
    have f: "freeClientAsync ?c = c\<lparr>flags := (if CLIENT_LUA \<in> flags c then flags c else insert CLIENT_CLOSE_ASAP (flags c)),
        obuf_soft_limit_reached_time := t\<rparr>"
      using True by (auto simp: freeClientAsync_def set_flags_def)
    have g: "?c = c\<lparr>flags := flags c, obuf_soft_limit_reached_time := t\<rparr>" by simp
    show ?thesis
    proof (cases r)
      case True
      show ?thesis unfolding k using True f by (auto simp only: if_True) (metis (full_types))
    next
      case False
      then show ?thesis unfolding k using g by (metis (full_types))
    qed
  qed
qed

definition appended :: "client \<Rightarrow> client \<Rightarrow> char list \<Rightarrow> bool" where
  "appended c c' s \<longleftrightarrow>
     in_view c' = in_view c \<and> sentlen c' = sentlen c \<and>
     (flags c' = flags c \<or> flags c' = insert CLIENT_CLOSE_ASAP (flags c)) \<and>
     reply_bytes c' \<le> reply_bytes c + reply_cost (length s) \<and>
     (reply c = [] \<and> reply c' = [] \<and> take (bufpos c') (obuf c') = take (bufpos c) (obuf c) @ s \<or>
      bufpos c' = bufpos c \<and> obuf c' = obuf c \<and> grows (reply c) (reply c') s)"

lemma sentlen_le: "out_ok c \<Longrightarrow> sentlen c \<le> length (take (bufpos c) (obuf c) @ reply_text (reply c))"
  by (auto simp: out_ok_def head_len_def split: if_splits list.splits)

lemma appended_pending:
  assumes "out_ok c" "appended c c' s"
  shows "pending c' = pending c @ s"
proof -
  have "take (bufpos c') (obuf c') @ reply_text (reply c') = (take (bufpos c) (obuf c) @ reply_text (reply c)) @ s"
    using assms(2) grows_text by (auto simp: appended_def)
  then show ?thesis using sentlen_le [OF assms(1)] assms(2) by (simp add: pending_def appended_def del: append_assoc)
qed

lemma grows_head:
  "grows ns ms s \<Longrightarrow> (case ns of [] \<Rightarrow> 0 | n # _ \<Rightarrow> length (node_text n)) \<le> (case ms of [] \<Rightarrow> 0 | n # _ \<Rightarrow> length (node_text n))"
  by (auto simp: grows_def split: list.splits) (auto simp: Cons_eq_append_conv)

lemma addReplyToBuffer_correct:
  assumes "out_ok c" "CLIENT_CLOSE_AFTER_REPLY \<notin> flags c"
  shows "i_addReplyToBuffer c s = Some (False, c) \<or>
    (\<exists>c'. i_addReplyToBuffer c s = Some (True, c') \<and> out_ok c' \<and> appended c c' s)"
proof (cases "reply c = [] \<and> length s \<le> PROTO_REPLY_CHUNK_BYTES - bufpos c")
  case True
  let ?b = "take (bufpos c) (obuf c) @ s @ drop (bufpos c + length s) (obuf c)"
  let ?c = "c\<lparr>obuf := ?b, bufpos := bufpos c + length s\<rparr>"
  have o: "length (obuf c) = PROTO_REPLY_CHUNK_BYTES" "bufpos c \<le> PROTO_REPLY_CHUNK_BYTES"
    using assms(1) by (auto simp: out_ok_def)
  have "bufpos c + length s \<le> length (obuf c)" using o True by linarith
  then have st: "store_at (bufpos c) s (obuf c) = Some ?b" by (rule store_at_Some)
  have "i_addReplyToBuffer c s = Some (True, ?c)"
    using True assms(2) o st by (simp add: i_addReplyToBuffer_def Let_def subw_small)
  moreover have "out_ok ?c"
    using assms(1) True o by (auto simp: out_ok_def head_len_def split: if_splits)
  moreover have "appended c ?c s"
    using True o by (auto simp: appended_def in_view_def min_absorb2)
  ultimately show ?thesis by blast
next
  case False
  have o: "bufpos c \<le> PROTO_REPLY_CHUNK_BYTES" using assms(1) by (auto simp: out_ok_def)
  show ?thesis using False assms(2) o by (auto simp: i_addReplyToBuffer_def Let_def subw_small)
qed

text \<open>A client whose blocks have been replaced, and whose output limit has been checked.\<close>

lemma out_ok_blocks:
  assumes "out_ok c" "nodes_ok k ns" "n = sum_list (map node_size ns)" "n < 2 ^ 63" "grows (reply c) ns s"
  shows "out_ok (c\<lparr>reply := ns, reply_next := k, reply_bytes := n, flags := f, obuf_soft_limit_reached_time := t\<rparr>)"
  using assms grows_head [OF assms(5)] by (auto simp: out_ok_def head_len_def split: if_splits)

lemma node_size_Some: "rnode_ok (i, Some b) \<longleftrightarrow> block_ok b" "node_size (i, Some b) = blk_size b"
  by simp_all

text \<open>Filling the last block.\<close>

lemma append_tail:
  assumes "out_ok c" "reply c = pre @ [(i, Some b)]"
  shows "\<exists>b' x y. block_append b s = Some (b', y) \<and> s = x @ y \<and> block_ok b' \<and> block_text b' = block_text b @ x \<and>
    blk_size b' = blk_size b \<and> nodes_ok (reply_next c) (pre @ [(i, Some b')])"
proof -
  have b: "block_ok b" using assms by (auto simp: out_ok_def)
  have "blk_size b \<le> reply_bytes c" using assms by (simp add: out_ok_def)
  moreover have "reply_bytes c < 2 ^ 63" using assms by (simp add: out_ok_def)
  ultimately have z: "blk_size b < 2 ^ 64" by simp
  obtain b' k where k: "block_append b s = Some (b', drop k s)" "block_ok b'" "block_text b' = block_text b @ take k s"
    "blk_size b' = blk_size b"
    using block_append_correct [OF b z, of s] by blast
  have "s = take k s @ drop k s" by simp
  moreover have "nodes_ok (reply_next c) (pre @ [(i, Some b')])" using assms k(2) by (simp add: out_ok_def)
  ultimately show ?thesis using k by blast
qed

text \<open>Adding a new block at the end.\<close>

lemma add_new_block:
  assumes c: "out_ok c" and fit: "alloc_fit al" and room: "reply_bytes c + reply_cost (length y) < 2 ^ 63"
    and ns: "nodes_ok (reply_next c) ns" "sum_list (map node_size ns) = reply_bytes c"
    and gr: "\<And>new. reply_text new = y \<Longrightarrow> grows (reply c) (ns @ new) s" and le: "length y \<le> length s"
  shows "\<exists>c'. do {
      b \<leftarrow> new_block al (if length y < PROTO_REPLY_CHUNK_BYTES then PROTO_REPLY_CHUNK_BYTES else length y) y;
      let c = add_reply_node (c\<lparr>reply := ns\<rparr>) (Some b);
      let c = c\<lparr>reply_bytes := addw 64 (reply_bytes c) (blk_size b)\<rparr>;
      closeClientOnOutputBufferLimitReached sv c } = Some c' \<and> out_ok c' \<and> appended c c' s"
proof -
  let ?n = "if length y < PROTO_REPLY_CHUNK_BYTES then PROTO_REPLY_CHUNK_BYTES else length y"
  have u: "al_usable al (?n + 16) \<le> 2 * (?n + 16) + 32" using fit unfolding alloc_fit_def by blast
  have n: "?n \<le> length y + PROTO_REPLY_CHUNK_BYTES" "length y \<le> ?n" by auto
  have "al_usable al (?n + 16) < 2 ^ 64" using u n room by (simp add: reply_cost_def)
  then obtain b where b: "new_block al ?n y = Some b" "block_ok b" "block_text b = y" "blk_size b = al_usable al (?n + 16) - 16"
    using new_block_correct [of al y ?n] fit n(2) unfolding alloc_fit_def by blast
  have bs: "blk_size b \<le> reply_cost (length y)" using b(4) u n by (simp add: reply_cost_def)
  let ?ns = "ns @ [(reply_next c, Some b)]"
  let ?c = "c\<lparr>reply := ?ns, reply_next := reply_next c + 1, reply_bytes := reply_bytes c + blk_size b\<rparr>"
  have rb: "reply_bytes c + blk_size b < 2 ^ 63" using bs room by linarith
  have "addw 64 (reply_bytes c) (blk_size b) = reply_bytes c + blk_size b" using rb by (intro addw_small) simp
  then have e: "add_reply_node (c\<lparr>reply := ns\<rparr>) (Some b)\<lparr>reply_bytes := addw 64 (reply_bytes (add_reply_node (c\<lparr>reply := ns\<rparr>) (Some b))) (blk_size b)\<rparr> = ?c"
    by (simp add: add_reply_node_def)
  obtain f t where f: "closeClientOnOutputBufferLimitReached sv ?c = Some (?c\<lparr>flags := f, obuf_soft_limit_reached_time := t\<rparr>)"
    "f = flags c \<or> f = insert CLIENT_CLOSE_ASAP (flags c)"
    using close_limit_correct [of ?c sv] rb by auto
  have fresh: "reply_next c \<notin> fst ` set ns" using ns(1) by (auto simp: nodes_ok_def)
  have g: "grows (reply c) ?ns s" using gr [of "[(reply_next c, Some b)]"] b(3) by simp
  have "out_ok (?c\<lparr>flags := f, obuf_soft_limit_reached_time := t\<rparr>)"
    using out_ok_blocks [OF c _ _ rb g, of "reply_next c + 1"] fresh ns b(2) nodes_ok_Suc [OF ns(1)] by simp
  moreover have "appended c (?c\<lparr>flags := f, obuf_soft_limit_reached_time := t\<rparr>) s"
    using f(2) g bs le by (simp add: appended_def in_view_def reply_cost_def)
  ultimately show ?thesis using b(1) e f(1) by (simp add: Let_def)
qed

lemma addReplyProtoToList_correct:
  assumes c: "out_ok c" "CLIENT_CLOSE_AFTER_REPLY \<notin> flags c" and fit: "alloc_fit al"
    and room: "reply_bytes c + reply_cost (length s) < 2 ^ 63"
  shows "\<exists>c'. i_addReplyProtoToList al sv c s = Some c' \<and> out_ok c' \<and> appended c c' s"
proof -
  have sz: "sum_list (map node_size (reply c)) = reply_bytes c" "nodes_ok (reply_next c) (reply c)"
    using c(1) by (auto simp: out_ok_def)
  have same: "\<exists>c'. i_addReplyProtoToList al sv c s = Some c' \<and> out_ok c' \<and> appended c c' s"
    if "(if reply c = [] then Some (c, s)
         else case last (reply c) of
                (_, None) \<Rightarrow> Some (c, s)
              | (i, Some tail) \<Rightarrow> do {
                  (tail, s) \<leftarrow> block_append tail s;
                  Some (c\<lparr>reply := butlast (reply c) @ [(i, Some tail)]\<rparr>, s) }) = Some (c\<lparr>reply := ns\<rparr>, y)"
      and "nodes_ok (reply_next c) ns" "sum_list (map node_size ns) = reply_bytes c"
      and gr: "\<And>new. reply_text new = y \<Longrightarrow> grows (reply c) (ns @ new) s" and "length y \<le> length s" for ns y
  proof (cases "y = []")
    case True
    have "grows (reply c) ns s" using gr [of "[]"] True by simp
    then have "out_ok (c\<lparr>reply := ns\<rparr>)" "appended c (c\<lparr>reply := ns\<rparr>) s"
      using out_ok_blocks [OF c(1) that(2) that(3) [symmetric], of s "obuf_soft_limit_reached_time c" "flags c"] c(1)
      by (auto simp: out_ok_def appended_def in_view_def)
    then show ?thesis using that(1) True c(2) by (auto simp: i_addReplyProtoToList_def)
  next
    case False
    have "reply_bytes c + reply_cost (length y) < 2 ^ 63" using room that(5) by (simp add: reply_cost_def)
    from add_new_block [OF c(1) fit this that(2,3,4,5), of sv]
    show ?thesis using that(1) False c(2) by (simp add: i_addReplyProtoToList_def)
  qed
  show ?thesis
  proof (cases "reply c" rule: rev_cases)
    case Nil
    show ?thesis by (rule same [of "[]" s]) (use Nil sz in \<open>auto simp: grows_def\<close>)
  next
    case (snoc pre n)
    show ?thesis
    proof (cases n)
      case (Pair i v)
      show ?thesis
      proof (cases v)
        case None
        show ?thesis
          by (rule same [of "reply c" s]) (use snoc Pair None sz in \<open>auto simp: grows_def simp del: append_assoc\<close>)
      next
        case (Some b)
        have r: "reply c = pre @ [(i, Some b)]" using snoc Pair Some by simp
        obtain b' x y where b: "block_append b s = Some (b', y)" "s = x @ y" "block_ok b'" "block_text b' = block_text b @ x"
          "blk_size b' = blk_size b" "nodes_ok (reply_next c) (pre @ [(i, Some b')])"
          using append_tail [OF c(1) r, of s] by blast
        have sum: "sum_list (map node_size (pre @ [(i, Some b')])) = reply_bytes c" using sz(1) b(5) r by simp
        have gr: "grows (reply c) ((pre @ [(i, Some b')]) @ new) s" if "reply_text new = y" for new
          unfolding grows_def r using b(2,4) that by auto
        show ?thesis
          by (rule same [of "pre @ [(i, Some b')]" y, OF _ b(6) sum gr]) (use r b(1,2) in auto)
      qed
    qed
  qed
qed

lemma add_bytes_correct:
  assumes "out_ok c" "CLIENT_CLOSE_AFTER_REPLY \<notin> flags c" "alloc_fit al" "reply_bytes c + reply_cost (length s) < 2 ^ 63"
  shows "\<exists>c'. add_bytes al sv c s = Some c' \<and> out_ok c' \<and> appended c c' s"
  using addReplyToBuffer_correct [OF assms(1,2), of s] addReplyProtoToList_correct [OF assms, of sv]
  by (auto simp: add_bytes_def)

lemma add_bytes_closing: "CLIENT_CLOSE_AFTER_REPLY \<in> flags c \<Longrightarrow> add_bytes al sv c s = Some c"
  by (simp add: add_bytes_def i_addReplyToBuffer_def Let_def)

end
