(* ===== verification/Client_Reply.thy ===== *)
theory Client_Reply
  imports Client_Correct Sds_Split Interfaces
begin

text \<open>
  Replies as RESP text. The output of a client is a sink for bytes, twice: the whole stream, and
  the part of it behind a placeholder. Every function that adds a reply puts pieces into the sink
  that make up the RESP representation of the value.
\<close>

section \<open>The output as a sink\<close>

definition accepts :: "client \<Rightarrow> bool" where
  "accepts c \<longleftrightarrow> CLIENT_CLOSE_AFTER_REPLY \<notin> flags c \<and> fst (prepareClientToWrite c)"

lemma prepare_result:
  "\<exists>f. snd (prepareClientToWrite c) = c\<lparr>flags := f\<rparr> \<and> (f = flags c \<or> f = insert CLIENT_PENDING_WRITE (flags c))"
proof -
  have "snd (prepareClientToWrite c) = c \<or> snd (prepareClientToWrite c) = clientInstallWriteHandler c"
    by (simp add: prepareClientToWrite_def)
  then show ?thesis
  proof
    assume "snd (prepareClientToWrite c) = c"
    then show ?thesis by (intro exI [of _ "flags c"]) simp
  next
    assume "snd (prepareClientToWrite c) = clientInstallWriteHandler c"
    then show ?thesis
      by (intro exI [of _ "flags (clientInstallWriteHandler c)"]) (simp add: clientInstallWriteHandler_def set_flags_def)
  qed
qed

lemma out_ok_flags [simp]: "out_ok (c\<lparr>flags := f\<rparr>) = out_ok c"
  by (simp add: out_ok_def head_len_def)

lemma accepts_iff:
  "accepts c \<longleftrightarrow> CLIENT_CLOSE_AFTER_REPLY \<notin> flags c \<and>
     (CLIENT_LUA \<in> flags c \<or> CLIENT_MODULE \<in> flags c \<or>
      CLIENT_CLOSE_ASAP \<notin> flags c \<and> CLIENT_REPLY_OFF \<notin> flags c \<and> CLIENT_REPLY_SKIP \<notin> flags c \<and>
      (CLIENT_MASTER \<in> flags c \<longrightarrow> CLIENT_MASTER_FORCE_REPLY \<in> flags c) \<and> has_conn c)"
  by (simp add: accepts_def prepareClientToWrite_def)

lemma accepts_flags:
  assumes "in_view c' = in_view c"
    and "flags c' \<subseteq> flags c \<union> {CLIENT_PENDING_WRITE, CLIENT_CLOSE_ASAP}" "flags c \<subseteq> flags c'" "accepts c'"
  shows "accepts c"
proof -
  have "has_conn c' = has_conn c" using arg_cong [OF assms(1), of has_conn] by (simp add: in_view_def)
  moreover have "x \<in> flags c' \<longleftrightarrow> x \<in> flags c" if "x \<noteq> CLIENT_PENDING_WRITE" "x \<noteq> CLIENT_CLOSE_ASAP" for x
    using assms(2,3) that by blast
  moreover have "CLIENT_CLOSE_ASAP \<notin> flags c' \<Longrightarrow> CLIENT_CLOSE_ASAP \<notin> flags c" using assms(3) by blast
  ultimately show ?thesis using assms(4) unfolding accepts_iff by simp blast
qed

text \<open>One call of \<^verbatim>\<open>addReplyProto\<close>.\<close>

lemma addReplyProto_cases:
  assumes "out_ok c" "alloc_fit al" "reply_bytes c + reply_cost (length s) < 2 ^ 63"
  shows "\<exists>c'. addReplyProto al sv c s = Some c' \<and> out_ok c' \<and> in_view c' = in_view c \<and>
    reply_bytes c' \<le> reply_bytes c + reply_cost (length s) \<and> (accepts c' \<longrightarrow> accepts c) \<and>
    (\<exists>f. appended (c\<lparr>flags := f\<rparr>) c' s \<or> \<not> accepts c' \<and> c' = c\<lparr>flags := f\<rparr>)"
proof -
  obtain ok d where p: "prepareClientToWrite c = (ok, d)" by fastforce
  then obtain f where d: "d = c\<lparr>flags := f\<rparr>" "f = flags c \<or> f = insert CLIENT_PENDING_WRITE (flags c)"
    using prepare_result [of c] by auto
  have id: "in_view d = in_view c" "out_ok d" "reply_bytes d = reply_bytes c" using d assms(1) by (simp_all add: in_view_def)
  have ad: "accepts c" if "accepts d"
    by (rule accepts_flags [OF id(1) _ _ that]) (use d(2) in \<open>auto simp: d(1)\<close>)
  consider (no) "\<not> ok" | (closing) "ok" "CLIENT_CLOSE_AFTER_REPLY \<in> flags d" | (yes) "ok" "CLIENT_CLOSE_AFTER_REPLY \<notin> flags d"
    by blast
  then show ?thesis
  proof cases
    case no
    then have "\<not> accepts c" using p by (simp add: accepts_def)
    then have "\<not> accepts d" using ad by blast
    then show ?thesis using no p id d by (auto simp: addReplyProto_def)
  next
    case closing
    then have "\<not> accepts d" by (simp add: accepts_def)
    then show ?thesis using closing p id d add_bytes_closing [OF closing(2), of al sv s] by (auto simp: addReplyProto_def)
  next
    case yes
    obtain c' where c': "add_bytes al sv d s = Some c'" "out_ok c'" "appended d c' s"
      using add_bytes_correct [OF id(2) yes(2) assms(2), of s sv] assms(3) id(3) by auto
    have v: "in_view c' = in_view c" "flags d \<subseteq> flags c'" "flags c' \<subseteq> flags d \<union> {CLIENT_PENDING_WRITE, CLIENT_CLOSE_ASAP}"
      "reply_bytes c' \<le> reply_bytes c + reply_cost (length s)"
      using c'(3) id by (auto simp: appended_def)
    have "accepts c" if "accepts c'" using accepts_flags [OF _ v(3,2) that] v(1) id(1) ad by simp
    then show ?thesis using yes(1) p c' v d by (auto simp: addReplyProto_def)
  qed
qed

interpretation out_sink: byte_sink "\<lambda>c. alloc_fit al \<and> out_ok c \<and> in_view c = w" accepts pending reply_bytes reply_cost "2 ^ 63" "addReplyProto al sv" for al sv w
proof unfold_locales
  fix c :: client and s :: "char list"
  assume h: "alloc_fit al \<and> out_ok c \<and> in_view c = w" "reply_bytes c + reply_cost (length s) < 2 ^ 63"
  obtain c' f where c': "addReplyProto al sv c s = Some c'" "out_ok c'" "in_view c' = in_view c" "reply_bytes c' \<le> reply_bytes c + reply_cost (length s)"
    "accepts c' \<longrightarrow> accepts c" "appended (c\<lparr>flags := f\<rparr>) c' s \<or> \<not> accepts c' \<and> c' = c\<lparr>flags := f\<rparr>"
    using addReplyProto_cases [of c al s sv] h by blast
  have "pending (c\<lparr>flags := f\<rparr>) = pending c" by (simp add: pending_def)
  then have "pending c' = pending c @ s" if "accepts c'"
    using c'(6) that appended_pending [of "c\<lparr>flags := f\<rparr>" c' s] h(1) by auto
  then show "\<exists>c'. addReplyProto al sv c s = Some c' \<and> (alloc_fit al \<and> out_ok c' \<and> in_view c' = w) \<and>
      reply_bytes c' \<le> reply_bytes c + reply_cost (length s) \<and> (accepts c' \<longrightarrow> accepts c \<and> pending c' = pending c @ s)"
    using c' h(1) by simp
qed

text \<open>The same behind the placeholder \<open>i\<close>; what is in front of it stays as it is.\<close>

definition hole_at :: "nat \<Rightarrow> client \<Rightarrow> client \<Rightarrow> bool" where
  "hole_at i c0 c \<longleftrightarrow>
     (\<exists>pre post. reply c0 = pre @ [(i, None)] \<and> reply c = pre @ (i, None) # post) \<and>
     bufpos c = bufpos c0 \<and> obuf c = obuf c0 \<and> sentlen c = sentlen c0"

definition hole_text :: "client \<Rightarrow> client \<Rightarrow> char list" where
  "hole_text c0 c = reply_text (drop (length (reply c0)) (reply c))"

lemma hole_appended:
  assumes "hole_at i c0 c" "appended (c\<lparr>flags := f\<rparr>) c' s"
  shows "hole_at i c0 c' \<and> hole_text c0 c' = hole_text c0 c @ s"
proof -
  obtain pre post where r: "reply c0 = pre @ [(i, None)]" "reply c = pre @ (i, None) # post"
    using assms(1) by (auto simp: hole_at_def)
  then have a: "bufpos c' = bufpos c" "obuf c' = obuf c" "sentlen c' = sentlen c" "grows (pre @ (i, None) # post) (reply c') s"
    using assms(2) by (auto simp: appended_def)
  obtain post' where "reply c' = pre @ (i, None) # post'" "reply_text post' = reply_text post @ s"
    using grows_hole [OF a(4)] by blast
  then show ?thesis using assms(1) r a by (auto simp: hole_at_def hole_text_def)
qed

interpretation hole_sink: byte_sink "\<lambda>c. alloc_fit al \<and> out_ok c \<and> in_view c = w \<and> hole_at i c0 c" accepts "hole_text c0" reply_bytes reply_cost "2 ^ 63" "addReplyProto al sv"
  for al sv w i c0
proof unfold_locales
  fix c :: client and s :: "char list"
  assume h: "alloc_fit al \<and> out_ok c \<and> in_view c = w \<and> hole_at i c0 c" "reply_bytes c + reply_cost (length s) < 2 ^ 63"
  obtain c' f where c': "addReplyProto al sv c s = Some c'" "out_ok c'" "in_view c' = in_view c" "reply_bytes c' \<le> reply_bytes c + reply_cost (length s)"
    "accepts c' \<longrightarrow> accepts c" "appended (c\<lparr>flags := f\<rparr>) c' s \<or> \<not> accepts c' \<and> c' = c\<lparr>flags := f\<rparr>"
    using addReplyProto_cases [of c al s sv] h by blast
  have "hole_at i c0 c' \<and> (accepts c' \<longrightarrow> hole_text c0 c' = hole_text c0 c @ s)"
    using c'(6)
  proof
    assume "appended (c\<lparr>flags := f\<rparr>) c' s"
    then show ?thesis using hole_appended h(1) by blast
  next
    assume "\<not> accepts c' \<and> c' = c\<lparr>flags := f\<rparr>"
    then show ?thesis using h(1) by (auto simp: hole_at_def)
  qed
  then show "\<exists>c'. addReplyProto al sv c s = Some c' \<and> (alloc_fit al \<and> out_ok c' \<and> in_view c' = w \<and> hole_at i c0 c') \<and>
      reply_bytes c' \<le> reply_bytes c + reply_cost (length s) \<and> (accepts c' \<longrightarrow> accepts c \<and> hole_text c0 c' = hole_text c0 c @ s)"
    using c' h(1) by simp
qed

section \<open>Reply functions\<close>

lemma addReply_sds:
  "sds_ok p \<Longrightarrow> addReply al sv c (createObject OBJ_STRING p) = addReplyProto al sv c (text_of p)"
  by (auto simp: addReply_def addReplyProto_def createObject_def sdsEncodedObject_def load_at_def sds_ok_def
    sdslen_def text_of_def split: prod.splits)

lemma shared_obj_correct:
  assumes "alloc_ok al" "NUL \<notin> set t" "length t < 2 ^ 63"
  shows "\<exists>p. shared_obj al t = Some (createObject OBJ_STRING p) \<and> sds_ok p \<and> text_of p = t"
  using sdsnewlen_correct [OF assms(1,3), of t] strlen_eq [OF assms(2)] by (auto simp: shared_obj_def sdsnew_def)

lemma addReplyShared_eq:
  assumes "alloc_ok al" "NUL \<notin> set t" "length t < 2 ^ 63"
  shows "addReplyShared al sv c t = addReplyProto al sv c t"
  using shared_obj_correct [OF assms] addReply_sds by (auto simp: addReplyShared_def)

lemma NUL_dec: "NUL \<notin> set (dec n)"
proof -
  have "\<not> is_dec_digit NUL" by (simp add: is_dec_digit_iff)
  then show ?thesis using dec_digits by (auto simp: list_all_iff)
qed

lemma addReplyLongLongWithPrefix_eq:
  assumes "alloc_ok al" "prefix \<noteq> NUL"
  shows "addReplyLongLongWithPrefix al sv c ll prefix = addReplyProto al sv c (prefix # dec_int (sint ll) @ [CR, LF])"
proof (cases "(prefix = CHR ''*'' \<or> prefix = CHR ''$'') \<and> sint ll < OBJ_SHARED_BULKHDR_LEN \<and> sint ll \<ge> 0")
  case True
  let ?t = "prefix # dec (nat (sint ll)) @ [CR, LF]"
  obtain e where e: "sdsempty al = Some e" "sds_ok e" "text_of e = []" using sdsempty_correct [OF assms(1)] by blast
  have "sdslen e = 0" using e length_text_of [of e] by simp
  moreover have "NUL \<notin> set ?t" using assms(2) NUL_dec by auto
  moreover have "length ?t < 2 ^ 63" using length_dec_int [of ll] True by (simp add: dec_int_def)
  ultimately obtain p where p: "sdscat al e ?t = Some p" "sds_ok p" "text_of p = ?t"
    using sdscat_correct [OF e(2) assms(1), of ?t] e(3) by auto
  have d: "dec_int (sint ll) = dec (nat (sint ll))" using True by (simp add: dec_int_def)
  show ?thesis using True e p addReply_sds [OF p(2)] unfolding d by (simp add: addReplyLongLongWithPrefix_def shared_hdr_def)
next
  case False
  have "ll2string (map (al_junk al) [1..<128]) 127 ll = (length (dec_int (sint ll)),
      dec_int (sint ll) @ NUL # drop (Suc (length (dec_int (sint ll)))) (map (al_junk al) [1..<128]))"
    using length_dec_int [of ll] by (intro ll2string_result) simp_all
  then show ?thesis using False by (auto simp: addReplyLongLongWithPrefix_def)
qed

section \<open>RESP values\<close>

text \<open>What a command can reply with, and its text in the two protocol versions.\<close>

datatype resp_value =
    Rv_status string | Rv_error string | Rv_int u64 | Rv_null | Rv_bool bool | Rv_null_array
  | Rv_bulk string | Rv_bulk_sds sds | Rv_bulk_obj robj | Rv_bulk_int u64
  | Rv_array nat | Rv_map nat | Rv_set nat

definition render_bulk :: "string \<Rightarrow> string" where
  "render_bulk s = CHR ''$'' # dec (length s) @ [CR, LF] @ s @ [CR, LF]"

definition obj_text :: "robj \<Rightarrow> string" where
  "obj_text o' = (case ob_ptr o' of Sds_ptr s \<Rightarrow> text_of s | Long_ptr v \<Rightarrow> dec_int (sint v))"

fun render :: "int \<Rightarrow> resp_value \<Rightarrow> string" where
  "render r (Rv_status s) = CHR ''+'' # s @ [CR, LF]"
| "render r (Rv_error s) = (if s = [] \<or> hd s \<noteq> CHR ''-'' then ''-ERR '' else []) @ s @ [CR, LF]"
| "render r (Rv_int v) = CHR '':'' # dec_int (sint v) @ [CR, LF]"
| "render r Rv_null = (if r = 2 then ''$-1'' else ''_'') @ [CR, LF]"
| "render r (Rv_bool b) = (if r = 2 then if b then '':1'' else '':0'' else if b then ''#t'' else ''#f'') @ [CR, LF]"
| "render r Rv_null_array = (if r = 2 then ''*-1'' else ''_'') @ [CR, LF]"
| "render r (Rv_bulk s) = render_bulk s"
| "render r (Rv_bulk_sds s) = render_bulk (text_of s)"
| "render r (Rv_bulk_obj o') = render_bulk (obj_text o')"
| "render r (Rv_bulk_int v) = render_bulk (dec_int (sint v))"
| "render r (Rv_array n) = CHR ''*'' # dec n @ [CR, LF]"
| "render r (Rv_map n) = (if r = 2 then CHR ''*'' # dec (2 * n) else CHR ''%'' # dec n) @ [CR, LF]"
| "render r (Rv_set n) = (if r = 2 then CHR ''*'' else CHR ''~'') # dec n @ [CR, LF]"

text \<open>The function that sends each value.\<close>

fun emit :: "allocator \<Rightarrow> server_conf \<Rightarrow> client \<Rightarrow> resp_value \<Rightarrow> client option" where
  "emit al sv c (Rv_status s) = addReplyStatus al sv c s"
| "emit al sv c (Rv_error s) = addReplyError al sv c s"
| "emit al sv c (Rv_int v) = addReplyLongLong al sv c v"
| "emit al sv c Rv_null = addReplyNull al sv c"
| "emit al sv c (Rv_bool b) = addReplyBool al sv c b"
| "emit al sv c Rv_null_array = addReplyNullArray al sv c"
| "emit al sv c (Rv_bulk s) = addReplyBulkCBuffer al sv c s"
| "emit al sv c (Rv_bulk_sds s) = addReplyBulkSds al sv c s"
| "emit al sv c (Rv_bulk_obj o') = addReplyBulk al sv c o'"
| "emit al sv c (Rv_bulk_int v) = addReplyBulkLongLong al sv c v"
| "emit al sv c (Rv_array n) = addReplyArrayLen al sv c (of_nat n)"
| "emit al sv c (Rv_map n) = addReplyMapLen al sv c (of_nat n)"
| "emit al sv c (Rv_set n) = addReplySetLen al sv c (of_nat n)"

fun emit_all :: "allocator \<Rightarrow> server_conf \<Rightarrow> client \<Rightarrow> resp_value list \<Rightarrow> client option" where
  "emit_all al sv c [] = Some c"
| "emit_all al sv c (v # vs) = do { c \<leftarrow> emit al sv c v; emit_all al sv c vs }"

text \<open>
  C strings have no NUL inside, string objects are well formed, and counts and lengths fit the
  type \<^verbatim>\<open>long\<close>.
\<close>

definition obj_ok :: "robj \<Rightarrow> bool" where
  "obj_ok o' \<longleftrightarrow> ob_type o' = OBJ_STRING \<and>
     (case ob_ptr o' of Sds_ptr s \<Rightarrow> sdsEncodedObject o' \<and> sds_ok s \<and> sdslen s < 2 ^ 63
                      | Long_ptr v \<Rightarrow> ob_encoding o' = OBJ_ENCODING_INT)"

fun value_ok :: "resp_value \<Rightarrow> bool" where
  "value_ok (Rv_status s) = (NUL \<notin> set s)"
| "value_ok (Rv_error s) = (NUL \<notin> set s)"
| "value_ok (Rv_bulk s) = (length s < 2 ^ 63)"
| "value_ok (Rv_bulk_sds s) = (sds_ok s \<and> sdslen s < 2 ^ 63)"
| "value_ok (Rv_bulk_obj o') = obj_ok o'"
| "value_ok (Rv_array n) = (n < 2 ^ 63)"
| "value_ok (Rv_map n) = (n < 2 ^ 62)"
| "value_ok (Rv_set n) = (n < 2 ^ 63)"
| "value_ok v = True"

definition bulk_pieces :: "string \<Rightarrow> string list" where
  "bulk_pieces s = [CHR ''$'' # dec (length s) @ [CR, LF], s, [CR, LF]]"

fun pieces :: "int \<Rightarrow> resp_value \<Rightarrow> string list" where
  "pieces r (Rv_status s) = [''+'', s, [CR, LF]]"
| "pieces r (Rv_error s) = (if s = [] \<or> hd s \<noteq> CHR ''-'' then [''-ERR ''] else []) @ [s, [CR, LF]]"
| "pieces r (Rv_bulk s) = bulk_pieces s"
| "pieces r (Rv_bulk_sds s) = bulk_pieces (text_of s)"
| "pieces r (Rv_bulk_obj o') = bulk_pieces (obj_text o')"
| "pieces r (Rv_bulk_int v) = bulk_pieces (dec_int (sint v))"
| "pieces r v = [render r v]"

lemma concat_pieces: "concat (pieces r v) = render r v"
  by (cases v) (simp_all add: bulk_pieces_def render_bulk_def)

lemma length_pieces: "sum_list (map (\<lambda>s. reply_cost (length s)) (pieces r v)) \<le> 2 * length (render r v) + 98496"
  by (cases v) (simp_all add: bulk_pieces_def render_bulk_def reply_cost_def)

lemma addReply_obj: "obj_ok o' \<Longrightarrow> addReply al sv c o' = addReplyProto al sv c (obj_text o')"
proof (cases "ob_ptr o'")
  case (Sds_ptr s)
  assume "obj_ok o'"
  then show ?thesis using Sds_ptr
    by (auto simp: addReply_def addReplyProto_def obj_ok_def obj_text_def load_at_def sds_ok_def sdslen_def text_of_def
      split: prod.splits)
next
  case (Long_ptr v)
  assume "obj_ok o'"
  moreover have "ll2string (map (al_junk al) [0..<32]) 32 v = (length (dec_int (sint v)),
      dec_int (sint v) @ NUL # drop (Suc (length (dec_int (sint v)))) (map (al_junk al) [0..<32]))"
    using length_dec_int [of v] by (intro ll2string_result) simp_all
  ultimately show ?thesis using Long_ptr
    by (auto simp: addReply_def addReplyProto_def obj_ok_def obj_text_def split: prod.splits)
qed

lemma stringObjectLen_obj: "obj_ok o' \<Longrightarrow> stringObjectLen o' = Some (length (obj_text o'))"
  by (auto simp: obj_ok_def stringObjectLen_def obj_text_def length_text_of sdigits10_length sdsEncodedObject_def
    split: obj_ptr.splits)

lemma obj_text_less: "obj_ok o' \<Longrightarrow> length (obj_text o') < 2 ^ 63"
proof (cases "ob_ptr o'")
  case (Long_ptr v)
  then show ?thesis using length_dec_int [of v] by (simp add: obj_text_def)
qed (auto simp: obj_ok_def obj_text_def length_text_of)

lemma dec_int_of_nat: "n < 2 ^ 63 \<Longrightarrow> dec_int (sint (of_nat n :: u64)) = dec n"
  using sint_of_nat_u64 [of n] by (simp add: dec_int_def)

lemma long_prefix:
  assumes "alloc_ok al" "prefix \<noteq> NUL" "n < 2 ^ 63"
  shows "addReplyLongLongWithPrefix al sv c (of_nat n) prefix = addReplyProto al sv c (prefix # dec n @ [CR, LF])"
  using addReplyLongLongWithPrefix_eq [OF assms(1,2), of sv c "of_nat n"] dec_int_of_nat [OF assms(3)] by simp

lemma bulk_correct:
  assumes "alloc_ok al" "length s < 2 ^ 63"
  shows "addReplyBulkCBuffer al sv c s = puts (addReplyProto al sv) c (bulk_pieces s)"
  using long_prefix [OF assms(1) _ assms(2), of "CHR ''$''" sv c] addReplyShared_eq [OF assms(1), of "[CR, LF]" sv]
  by (simp add: addReplyBulkCBuffer_def bulk_pieces_def)

lemma addReplySds_eq: "sds_ok s \<Longrightarrow> addReplySds al sv c s = addReplyProto al sv c (text_of s)"
  by (auto simp: addReplySds_def addReplyProto_def load_at_def sds_ok_def sdslen_def text_of_def split: prod.splits)

lemma aggregate_correct:
  assumes "alloc_ok al" "prefix \<noteq> NUL" "n < 2 ^ 63"
  shows "addReplyAggregateLen al sv c (of_nat n) prefix = addReplyProto al sv c (prefix # dec n @ [CR, LF])"
  using long_prefix [OF assms] sint_of_nat_u64 [OF assms(3)] by (simp add: addReplyAggregateLen_def)

lemma bind_Some_right: "Option.bind x Some = x"
  by (cases x) simp_all

lemma dec_1: "dec (Suc 0) = ''1''"
proof -
  have "ccode (digit_char 1) = ccode CHR ''1''" by (simp add: ccode_digit_char) (simp add: ccode_def)
  then show ?thesis by (simp add: dec_less_10)
qed

lemma emit_pieces:
  assumes al: "alloc_ok al" and v: "value_ok v"
  shows "emit al sv c v = puts (addReplyProto al sv) c (pieces (resp c) v)"
proof -
  note sh = addReplyShared_eq [OF al, of _ sv]
  show ?thesis
  proof (cases v)
    case (Rv_status s)
    then show ?thesis using v strlen_eq [of s] by (simp add: addReplyStatus_def addReplyStatusLength_def bind_Some_right)
  next
    case (Rv_error s)
    then show ?thesis using v strlen_eq [of s] by (simp add: addReplyError_def addReplyErrorLength_def bind_Some_right)
  next
    case (Rv_int n)
    have d: "dec_int 0 = ''0''" "dec_int 1 = ''1''" by (simp_all add: dec_int_def dec_0 dec_1)
    show ?thesis
      using addReplyLongLongWithPrefix_eq [OF al, of "CHR '':''" sv c n] sh d
      by (simp add: Rv_int addReplyLongLong_def bind_Some_right)
  next
    case (Rv_bulk_sds s)
    then show ?thesis
      using v length_text_of [of s] long_prefix [OF al, of "CHR ''$''" "sdslen s" sv c] sh addReplySds_eq [of s]
      by (simp add: addReplyBulkSds_def bulk_pieces_def bind_Some_right)
  next
    case (Rv_bulk_obj o')
    then show ?thesis
      using v obj_text_less [of o'] stringObjectLen_obj [of o'] addReply_obj [of o' al sv] sh
        long_prefix [OF al, of "CHR ''$''" "length (obj_text o')" sv c]
      by (simp add: addReplyBulk_def addReplyBulkLen_def bulk_pieces_def bind_Some_right)
  next
    case (Rv_bulk_int n)
    have "ll2string (map (al_junk al) [0..<64]) 64 n = (length (dec_int (sint n)),
        dec_int (sint n) @ NUL # drop (Suc (length (dec_int (sint n)))) (map (al_junk al) [0..<64]))"
      using length_dec_int [of n] by (intro ll2string_result) simp_all
    then show ?thesis
      using Rv_bulk_int bulk_correct [OF al, of "dec_int (sint n)" sv c] length_dec_int [of n]
      by (simp add: addReplyBulkLongLong_def)
  next
    case (Rv_map n)
    then show ?thesis
      using v aggregate_correct [OF al, of "CHR ''*''" "2 * n" sv c] aggregate_correct [OF al, of "CHR ''%''" n sv c]
      by (simp add: addReplyMapLen_def mult.commute bind_Some_right)
  qed (use v sh aggregate_correct [OF al] bulk_correct [OF al] in \<open>auto simp: addReplyNull_def addReplyBool_def
      addReplyNullArray_def addReplyArrayLen_def addReplySetLen_def bind_Some_right\<close>)
qed

definition values_cost :: "int \<Rightarrow> resp_value list \<Rightarrow> nat" where
  "values_cost r vs = (\<Sum>v\<leftarrow>vs. 2 * length (render r v) + 98496)"

lemma values_cost_simps [simp]:
  "values_cost r [] = 0" "values_cost r (v # vs) = 2 * length (render r v) + 98496 + values_cost r vs"
  by (simp_all add: values_cost_def)

text \<open>Sending values is putting their pieces, as long as the protocol version is not changed meanwhile.\<close>

locale reply_sink = byte_sink inv accepting contents used reply_cost cap "addReplyProto al sv"
  for inv :: "client \<Rightarrow> bool" and accepting contents used cap al sv +
  fixes r :: int
  assumes resp_law: "inv c \<Longrightarrow> resp c = r" and alloc_law: "inv c \<Longrightarrow> alloc_ok al"
begin

lemma emit_all_correct:
  assumes "inv c" "\<forall>v\<in>set vs. value_ok v" "used c + values_cost r vs < cap"
  shows "\<exists>c'. emit_all al sv c vs = Some c' \<and> inv c' \<and> used c' \<le> used c + values_cost r vs \<and>
    (accepting c' \<longrightarrow> accepting c \<and> contents c' = contents c @ concat (map (render r) vs))"
  using assms
proof (induction vs arbitrary: c)
  case (Cons v vs)
  have l: "sum_list (map (\<lambda>s. reply_cost (length s)) (pieces r v)) \<le> 2 * length (render r v) + 98496"
    by (rule length_pieces)
  obtain c1 where c1: "puts (addReplyProto al sv) c (pieces r v) = Some c1" "inv c1" "used c1 \<le> used c + (2 * length (render r v) + 98496)"
    "accepting c1 \<longrightarrow> accepting c \<and> contents c1 = contents c @ render r v"
    using puts_correct [of c "pieces r v"] Cons.prems(1,3) l concat_pieces [of r v] by auto
  have e: "emit al sv c v = Some c1"
    using emit_pieces [OF alloc_law [OF Cons.prems(1)], of v sv c] Cons.prems(2) c1(1) resp_law [OF Cons.prems(1)] by simp
  obtain c2 where "emit_all al sv c1 vs = Some c2" "inv c2" "used c2 \<le> used c1 + values_cost r vs"
    "accepting c2 \<longrightarrow> accepting c1 \<and> contents c2 = contents c1 @ concat (map (render r) vs)"
    using Cons.IH [OF c1(2)] Cons.prems(2,3) c1(3) by auto
  then show ?case using e c1 by auto
qed simp

end

lemma resp_in_view [simp]: "resp (in_view c) = resp c"
  by (simp add: in_view_def)

interpretation out_reply: reply_sink "\<lambda>c. alloc_fit al \<and> out_ok c \<and> in_view c = w" accepts pending reply_bytes "2 ^ 63" al sv "resp w" for al sv w
  by unfold_locales (auto simp: alloc_fit_def)

interpretation hole_reply: reply_sink "\<lambda>c. alloc_fit al \<and> out_ok c \<and> in_view c = w \<and> hole_at i c0 c" accepts "hole_text c0" reply_bytes "2 ^ 63" al sv "resp w"
  for al sv w i c0
  by unfold_locales (auto simp: alloc_fit_def)

section \<open>Placeholders\<close>

text \<open>Trimming the last block and adding a placeholder.\<close>

lemma trim_correct:
  assumes c: "out_ok c" and fit: "alloc_fit al" and room: "reply_bytes c + reply_cost 0 < 2 ^ 63"
  shows "out_ok (trimReplyUnusedTailSpace al c) \<and> pending (trimReplyUnusedTailSpace al c) = pending c \<and>
    in_view (trimReplyUnusedTailSpace al c) = in_view c \<and> flags (trimReplyUnusedTailSpace al c) = flags c \<and>
    reply_next (trimReplyUnusedTailSpace al c) = reply_next c \<and>
    reply_bytes (trimReplyUnusedTailSpace al c) \<le> reply_bytes c + reply_cost 0"
proof (cases "\<exists>pre i b. reply c = pre @ [(i, Some b)] \<and> subw 64 (blk_size b) (blk_used b) > blk_size b div 4 \<and> blk_used b < PROTO_REPLY_CHUNK_BYTES")
  case False
  then have "trimReplyUnusedTailSpace al c = c"
    by (cases "reply c" rule: rev_cases) (auto simp: trimReplyUnusedTailSpace_def split: option.splits)
  then show ?thesis using c by simp
next
  case True
  then obtain pre i b where r: "reply c = pre @ [(i, Some b)]" "subw 64 (blk_size b) (blk_used b) > blk_size b div 4" "blk_used b < PROTO_REPLY_CHUNK_BYTES"
    by blast
  define n where "n = al_usable al (blk_used b + 16) - 16"
  have u: "blk_used b + 16 \<le> al_usable al (blk_used b + 16)" "al_usable al (blk_used b + 16) \<le> 2 * (blk_used b + 16) + 32"
    using fit unfolding alloc_fit_def alloc_ok_def by blast+
  have n: "subw 64 (al_usable al (blk_used b + 16)) 16 = n" "blk_used b \<le> n" "n \<le> reply_cost 0"
    using u r(3) by (simp_all add: n_def subw_small reply_cost_def)
  have o: "block_ok b" "reply_bytes c = sum_list (map node_size pre) + blk_size b" using c r(1) by (auto simp: out_ok_def)
  have s: "subw 64 (addw 64 (reply_bytes c) n) (blk_size b) = sum_list (map node_size pre) + n"
    using o(2) n(3) room by (simp add: addw_small subw_small)
  let ?b = "b\<lparr>blk_size := n, blk_buf := realloc (al_junk al) n (blk_buf b)\<rparr>"
  let ?c = "c\<lparr>reply := pre @ [(i, Some ?b)], reply_bytes := sum_list (map node_size pre) + n\<rparr>"
  have e: "trimReplyUnusedTailSpace al c = ?c"
    using r by (simp add: trimReplyUnusedTailSpace_def Let_def n(1) s)
  have b: "block_ok ?b" "block_text ?b = block_text b"
    using o(1) n(2) by (auto simp: block_ok_def block_text_def realloc_def)
  have "out_ok ?c"
    using c r(1) b n(3) o(2) room by (cases pre) (auto simp: out_ok_def head_len_def)
  then show ?thesis unfolding e using r(1) b(2) o(2) n(3) by (simp add: pending_def in_view_def)
qed

lemma split_node_at: "i \<notin> fst ` set pre \<Longrightarrow> split_node i (pre @ (i, v) # post) = Some (pre, v, post)"
  by (induction pre) auto

lemma out_ok_relist:
  assumes "out_ok c" "nodes_ok (reply_next c) ns" "sum_list (map node_size ns) < 2 ^ 63"
    and "bufpos c = 0 \<Longrightarrow> sentlen c \<noteq> 0 \<Longrightarrow> sentlen c < (case ns of [] \<Rightarrow> 0 | n # _ \<Rightarrow> length (node_text n))"
  shows "out_ok (c\<lparr>reply := ns, reply_bytes := sum_list (map node_size ns), flags := f, obuf_soft_limit_reached_time := t\<rparr>)"
  using assms by (auto simp: out_ok_def head_len_def split: if_splits)

text \<open>The nodes before the placeholder may take a part of the text.\<close>

lemma fill_prev_correct:
  assumes "nodes_ok k pre" "sum_list (map node_size pre) < 2 ^ 63"
  shows "\<exists>pre' s' ret. fill_prev pre s = Some (pre', s', ret) \<and> nodes_ok k pre' \<and> map fst pre' = map fst pre \<and>
    map node_size pre' = map node_size pre \<and> reply_text pre' @ s' = reply_text pre @ s \<and> (ret \<longrightarrow> s' = []) \<and>
    length s' \<le> length s \<and> (pre \<noteq> [] \<longrightarrow> length (node_text (hd pre)) \<le> length (node_text (hd pre')))"
proof (cases "\<exists>ns j b. pre = ns @ [(j, Some b)] \<and> subw 64 (blk_size b) (blk_used b) > 0")
  case True
  then obtain ns j b where p: "pre = ns @ [(j, Some b)]" "subw 64 (blk_size b) (blk_used b) > 0" by blast
  have "blk_size b < 2 ^ 63" using assms(2) p by simp
  then have b: "block_ok b" "blk_size b < 2 ^ 64" using assms(1) p by simp_all
  obtain b' m where m: "block_append b s = Some (b', drop m s)" "block_ok b'" "block_text b' = block_text b @ take m s"
    "blk_size b' = blk_size b"
    using block_append_correct [OF b, of s] by blast
  have "fill_prev pre s = Some (ns @ [(j, Some b')], drop m s, length (drop m s) = 0)"
    using p m(1) by (simp add: fill_prev_def)
  then show ?thesis using p m assms(1) by (cases ns) auto
next
  case False
  then have "fill_prev pre s = Some (pre, s, False)"
    by (cases pre rule: rev_cases) (auto simp: fill_prev_def split: option.splits)
  then show ?thesis using assms by auto
qed

lemma setDeferredReply_correct:
  assumes c: "out_ok c" and r: "reply c = pre @ (i, None) # post" and fit: "alloc_fit al"
    and room: "reply_bytes c + reply_cost (length s) < 2 ^ 63"
  shows "\<exists>c'. setDeferredReply al sv c (Some i) s = Some c' \<and> out_ok c' \<and> in_view c' = in_view c \<and>
    (flags c' = flags c \<or> flags c' = insert CLIENT_CLOSE_ASAP (flags c)) \<and>
    bufpos c' = bufpos c \<and> obuf c' = obuf c \<and> sentlen c' = sentlen c \<and>
    reply_text (reply c') = reply_text pre @ s @ reply_text post"
proof -
  let ?k = "reply_next c" and ?sum = "\<lambda>ns. sum_list (map node_size ns)"
  have n: "nodes_ok ?k pre" "nodes_ok ?k post" "i < ?k" "i \<notin> fst ` set pre" "i \<notin> fst ` set post" "fst ` set pre \<inter> fst ` set post = {}"
    and rb: "reply_bytes c = ?sum pre + ?sum post" "reply_bytes c < 2 ^ 63"
    using c r by (auto simp: out_ok_def)
  obtain pre' s' ret where f: "fill_prev pre s = Some (pre', s', ret)" "nodes_ok ?k pre'" "map fst pre' = map fst pre"
    "map node_size pre' = map node_size pre" "reply_text pre' @ s' = reply_text pre @ s" "ret \<longrightarrow> s' = []" "length s' \<le> length s"
    "pre \<noteq> [] \<longrightarrow> length (node_text (hd pre)) \<le> length (node_text (hd pre'))"
    using fill_prev_correct [OF n(1), of s] rb by auto
  have fs: "fst ` set pre' = fst ` set pre" using f(3) by (metis list.set_map)
  have sent: "sentlen c < (case pre' @ ns of [] \<Rightarrow> 0 | n # _ \<Rightarrow> length (node_text n))" if "bufpos c = 0" "sentlen c \<noteq> 0" for ns
  proof -
    have h: "sentlen c < head_len c" using c that by (simp add: out_ok_def)
    have "pre \<noteq> []" using h that(1) r by (cases pre) (simp_all add: head_len_def)
    then obtain m ms where pre: "pre = m # ms" by (cases pre) auto
    then obtain m' ms' where "pre' = m' # ms'" using f(3) by (cases pre') auto
    then show ?thesis using h pre f(8) that r by (auto simp: head_len_def)
  qed
  have tx: "reply_text pre' @ s' @ reply_text post = reply_text pre @ s @ reply_text post"
    using f(5) by (metis append_assoc)
  have fin: "\<exists>c'. Some (c\<lparr>reply := pre' @ ns, reply_bytes := m, flags := g, obuf_soft_limit_reached_time := t\<rparr>) = Some c' \<and> out_ok c' \<and> in_view c' = in_view c \<and>
      (flags c' = flags c \<or> flags c' = insert CLIENT_CLOSE_ASAP (flags c)) \<and>
      bufpos c' = bufpos c \<and> obuf c' = obuf c \<and> sentlen c' = sentlen c \<and>
      reply_text (reply c') = reply_text pre @ s @ reply_text post"
    if "nodes_ok ?k (pre' @ ns)" "m = ?sum (pre' @ ns)" "m < 2 ^ 63" "reply_text ns = s' @ reply_text post"
      "g = flags c \<or> g = insert CLIENT_CLOSE_ASAP (flags c)" for ns m g t
    using out_ok_relist [OF c that(1) _ sent, of t g] that tx by (simp add: in_view_def)
  have keep: "\<exists>c'. Some (c\<lparr>reply := pre' @ ns\<rparr>) = Some c' \<and> out_ok c' \<and> in_view c' = in_view c \<and>
      (flags c' = flags c \<or> flags c' = insert CLIENT_CLOSE_ASAP (flags c)) \<and>
      bufpos c' = bufpos c \<and> obuf c' = obuf c \<and> sentlen c' = sentlen c \<and>
      reply_text (reply c') = reply_text pre @ s @ reply_text post"
    if "nodes_ok ?k (pre' @ ns)" "reply_bytes c = ?sum (pre' @ ns)" "reply_text ns = s' @ reply_text post" for ns
    using fin [OF that(1,2) rb(2) that(3) disjI1 [OF refl], of "obuf_soft_limit_reached_time c"] by simp
  have e: "split_node i (reply c) = Some (pre, None, post)" using r n(4) split_node_at by metis
  consider (ret) ret | (nxt) "\<not> ret" "next_has_room post (length s')" | (new) "\<not> ret" "\<not> next_has_room post (length s')" by blast
  then show ?thesis
  proof cases
    case ret
    have "setDeferredReply al sv c (Some i) s = Some (c\<lparr>reply := pre' @ post\<rparr>)"
      using e f(1) ret by (simp add: setDeferredReply_def)
    then show ?thesis using keep [of post] ret f fs n rb by simp
  next
    case nxt
    then obtain k nx post' where p: "post = (k, Some nx) # post'" "subw 64 (blk_size nx) (blk_used nx) \<ge> length s'"
      by (auto simp: next_has_room_def split: list.splits option.splits)
    have b: "block_ok nx" "blk_size nx < 2 ^ 64" using n(2) rb p(1) by auto
    then have "length s' \<le> blk_size nx - blk_used nx" using p(2) subw_small [of "blk_used nx" "blk_size nx" 64] by (simp add: block_ok_def)
    then obtain nx' where x: "block_prepend nx s' = Some nx'" "block_ok nx'" "block_text nx' = s' @ block_text nx" "blk_size nx' = blk_size nx"
      using block_prepend_correct [OF b(1)] by blast
    have "setDeferredReply al sv c (Some i) s = Some (c\<lparr>reply := pre' @ (k, Some nx') # post'\<rparr>)"
      using e f(1) nxt p(1) x(1) by (simp add: setDeferredReply_def)
    then show ?thesis using keep [of "(k, Some nx') # post'"] p x f fs n rb by simp
  next
    case new
    have us: "al_usable al (length s' + 16) \<le> 2 * (length s' + 16) + 32" using fit unfolding alloc_fit_def by blast
    then have "al_usable al (length s' + 16) < 2 ^ 64" using f(7) room by (simp add: reply_cost_def)
    then obtain b where b: "new_block al (length s') s' = Some b" "block_ok b" "block_text b = s'" "blk_size b = al_usable al (length s' + 16) - 16"
      using new_block_correct [of al s' "length s'"] fit unfolding alloc_fit_def by blast
    have z: "reply_bytes c + blk_size b < 2 ^ 63" using b(4) us f(7) room by (simp add: reply_cost_def)
    then have a: "addw 64 (reply_bytes c) (blk_size b) = reply_bytes c + blk_size b" by (intro addw_small) simp
    let ?c = "c\<lparr>reply := pre' @ (i, Some b) # post, reply_bytes := reply_bytes c + blk_size b\<rparr>"
    obtain g t where g: "closeClientOnOutputBufferLimitReached sv ?c = Some (?c\<lparr>flags := g, obuf_soft_limit_reached_time := t\<rparr>)"
      "g = flags c \<or> g = insert CLIENT_CLOSE_ASAP (flags c)"
      using close_limit_correct [of ?c sv] z by auto
    have "setDeferredReply al sv c (Some i) s = Some (?c\<lparr>flags := g, obuf_soft_limit_reached_time := t\<rparr>)"
      using e f(1) new b(1) g(1) a by (simp add: setDeferredReply_def)
    then show ?thesis using fin [of "(i, Some b) # post" "reply_bytes c + blk_size b" g t] b g(2) f fs n rb z by simp
  qed
qed

text \<open>A placeholder, any replies, and the length.\<close>

lemma addReplyDeferredLen_correct:
  assumes c: "out_ok c" "accepts c" and fit: "alloc_fit al" and room: "reply_bytes c + reply_cost 0 < 2 ^ 63"
  shows "\<exists>i c0. addReplyDeferredLen al c = (Some i, c0) \<and> out_ok c0 \<and> in_view c0 = in_view c \<and> hole_at i c0 c0 \<and>
    hole_text c0 c0 = [] \<and> pending c0 = pending c \<and> reply_bytes c0 \<le> reply_bytes c + reply_cost 0"
proof -
  obtain d where p: "prepareClientToWrite c = (True, d)" using c(2) by (cases "prepareClientToWrite c") (auto simp: accepts_def)
  then obtain f where d: "d = c\<lparr>flags := f\<rparr>" using prepare_result [of c] by auto
  let ?t = "trimReplyUnusedTailSpace al d"
  have t: "out_ok ?t" "pending ?t = pending d" "in_view ?t = in_view d" "reply_bytes ?t \<le> reply_bytes d + reply_cost 0"
    using trim_correct [of d al] d c(1) fit room by simp_all
  have "fst n < reply_next ?t" if "n \<in> set (reply ?t)" for n using t(1) that by (auto simp: out_ok_def nodes_ok_def)
  then have "reply_next ?t \<notin> fst ` set (reply ?t)" by (metis imageE less_irrefl)
  then have n: "nodes_ok (reply_next ?t + 1) (reply ?t @ [(reply_next ?t, None)])"
    using t(1) by (simp add: out_ok_def nodes_ok_Suc)
  have o: "out_ok (add_reply_node ?t None)"
    using t(1) n by (cases "reply ?t") (auto simp: out_ok_def add_reply_node_def head_len_def split: if_splits)
  have "addReplyDeferredLen al c = (Some (reply_next ?t), add_reply_node ?t None)"
    using p by (simp add: addReplyDeferredLen_def Let_def)
  then show ?thesis using o t d
    by (auto simp: add_reply_node_def hole_at_def hole_text_def pending_def in_view_def)
qed

lemma hole_pending:
  assumes "out_ok c" "hole_at i c0 c" "out_ok c'" "bufpos c' = bufpos c" "obuf c' = obuf c" "sentlen c' = sentlen c"
    and "reply c = pre @ (i, None) # post" "reply_text (reply c') = reply_text pre @ s @ reply_text post" "out_ok c0"
  shows "pending c' = pending c0 @ s @ hole_text c0 c"
proof -
  obtain pre' post' where p: "reply c0 = pre' @ [(i, None)]" "reply c = pre' @ (i, None) # post'"
    and b: "bufpos c = bufpos c0" "obuf c = obuf c0" "sentlen c = sentlen c0"
    using assms(2) by (auto simp: hole_at_def)
  have d: "distinct (map fst (pre @ (i, None) # post))" using assms(1,7) by (auto simp: out_ok_def nodes_ok_def)
  have "split_node i (pre @ (i, None) # post) = Some (pre, None, post)" using d by (intro split_node_at) auto
  moreover have "split_node i (pre @ (i, None) # post) = Some (pre', None, post')"
    using d p(2) unfolding assms(7) by (metis split_node_at map_append distinct_append list.simps(9) fst_conv list.set_intros(1) disjoint_iff list.set_map)
  ultimately have e: "pre' = pre" "post' = post" by auto
  have "take (bufpos c') (obuf c') @ reply_text (reply c') = (take (bufpos c0) (obuf c0) @ reply_text (reply c0)) @ s @ reply_text post"
    using assms(4,5,8) b p(1) e by simp
  then show ?thesis
    using sentlen_le [OF assms(9)] assms(6) b p(1,2) e by (simp add: pending_def hole_text_def del: append_assoc)
qed

lemma deferred_correct:
  assumes c: "out_ok c" "accepts c" and fit: "alloc_fit al" and len: "length (dec_int n) \<le> 20" "0 \<le> n"
    and vs: "\<forall>v\<in>set vs. value_ok v" and room: "reply_bytes c + values_cost (resp c) vs + 2 * reply_cost 23 < 2 ^ 63"
  shows "\<exists>node c0 c1 c2. addReplyDeferredLen al c = (node, c0) \<and> emit_all al sv c0 vs = Some c1 \<and>
    setDeferredAggregateLen al sv c1 node n prefix = Some c2 \<and> out_ok c2 \<and> in_view c2 = in_view c \<and>
    (accepts c1 \<longrightarrow> pending c2 = pending c @ (prefix # dec_int n @ [CR, LF]) @ concat (map (render (resp c)) vs))"
proof -
  have cost: "reply_cost 0 \<le> reply_cost 23" by (simp add: reply_cost_def)
  then obtain i c0 where c0: "addReplyDeferredLen al c = (Some i, c0)" "out_ok c0" "in_view c0 = in_view c" "hole_at i c0 c0"
    "hole_text c0 c0 = []" "pending c0 = pending c" "reply_bytes c0 \<le> reply_bytes c + reply_cost 0"
    using addReplyDeferredLen_correct [OF c fit] room by auto
  obtain c1 where c1: "emit_all al sv c0 vs = Some c1" "out_ok c1" "in_view c1 = in_view c" "hole_at i c0 c1"
    "reply_bytes c1 \<le> reply_bytes c0 + values_cost (resp c) vs" "accepts c1 \<longrightarrow> hole_text c0 c1 = concat (map (render (resp c)) vs)"
    using hole_reply.emit_all_correct [where al = al and w = "in_view c" and i = i and c0 = c0 and sv = sv, of c0 vs] fit c0 vs room cost by auto
  obtain pre post where r: "reply c1 = pre @ (i, None) # post" using c1(4) by (auto simp: hole_at_def)
  let ?t = "prefix # dec_int n @ [CR, LF]"
  have l: "reply_cost (length ?t) \<le> reply_cost 23" using len(1) by (simp add: reply_cost_def)
  obtain c2 where c2: "setDeferredReply al sv c1 (Some i) ?t = Some c2" "out_ok c2" "in_view c2 = in_view c1"
    "bufpos c2 = bufpos c1" "obuf c2 = obuf c1" "sentlen c2 = sentlen c1"
    "reply_text (reply c2) = reply_text pre @ ?t @ reply_text post"
    using setDeferredReply_correct [OF c1(2) r fit, of ?t sv] c0(7) c1(5) cost l room by auto
  have "pending c2 = pending c0 @ ?t @ hole_text c0 c1"
    using hole_pending [OF c1(2,4) c2(2,4,5,6) r c2(7) c0(2)] .
  then show ?thesis using c0 c1 c2 len(2) by (auto simp: setDeferredAggregateLen_def)
qed

end
