(* ===== verification/Client_Limits.thy ===== *)
theory Client_Limits
  imports Client_Reply
begin

text \<open>
  Without limits on the output buffers a reply never makes the server give up a client: a client
  that accepts replies goes on accepting them.
\<close>

definition no_obuf_limits :: "server_conf \<Rightarrow> bool" where
  "no_obuf_limits sv \<longleftrightarrow> (\<forall>t. hard_limit_bytes (client_obuf_limits sv t) = 0 \<and> soft_limit_bytes (client_obuf_limits sv t) = 0)"

text \<open>The part of a client that decides whether it accepts replies.\<close>

definition accept_view :: "client \<Rightarrow> client_flag set \<times> bool" where
  "accept_view c = (flags c - {CLIENT_PENDING_WRITE}, has_conn c)"

lemma accept_view_updates [simp]:
  "accept_view (c\<lparr>reply := ns\<rparr>) = accept_view c" "accept_view (c\<lparr>reply_bytes := n\<rparr>) = accept_view c"
  "accept_view (c\<lparr>reply_next := n\<rparr>) = accept_view c" "accept_view (c\<lparr>obuf_soft_limit_reached_time := t\<rparr>) = accept_view c"
  "accept_view (c\<lparr>obuf := b\<rparr>) = accept_view c" "accept_view (c\<lparr>bufpos := n\<rparr>) = accept_view c"
  by (simp_all add: accept_view_def)

lemma accept_viewD:
  assumes "accept_view c' = accept_view c" "accepts c"
  shows "accepts c'"
proof -
  have "x \<in> flags c' \<longleftrightarrow> x \<in> flags c" if "x \<noteq> CLIENT_PENDING_WRITE" for x
    using assms(1) that by (auto simp: accept_view_def)
  moreover have "has_conn c' = has_conn c" using assms(1) by (simp add: accept_view_def)
  ultimately show ?thesis using assms(2) by (simp add: accepts_iff)
qed

lemma prepare_accept_view: "accept_view (snd (prepareClientToWrite c)) = accept_view c"
  using prepare_result [of c] by (auto simp: accept_view_def)

lemma close_accept_view:
  "no_obuf_limits sv \<Longrightarrow> closeClientOnOutputBufferLimitReached sv c = Some c' \<Longrightarrow> accept_view c' = accept_view c"
  by (auto simp: no_obuf_limits_def closeClientOnOutputBufferLimitReached_def checkClientOutputBufferLimits_def Let_def
      split: if_splits)

lemma addReplyProtoToList_accept_view:
  assumes "no_obuf_limits sv" "i_addReplyProtoToList al sv c s = Some c'"
  shows "accept_view c' = accept_view c"
  using assms(2) close_accept_view [OF assms(1)]
  by (fastforce simp: i_addReplyProtoToList_def add_reply_node_def Let_def bind_eq_Some_conv
      split: if_splits prod.splits option.splits)

lemma addReplyProto_accepts:
  assumes lim: "no_obuf_limits sv" and p: "addReplyProto al sv c s = Some c'" and a: "accepts c"
  shows "accepts c'"
proof (rule accept_viewD [OF _ a])
  obtain ok d where d: "prepareClientToWrite c = (ok, d)" by fastforce
  have v: "accept_view d = accept_view c" using prepare_accept_view [of c] d by simp
  have ok: "ok" using a d by (simp add: accepts_def)
  obtain st e where e: "i_addReplyToBuffer d s = Some (st, e)" "if st then e = c' else i_addReplyProtoToList al sv e s = Some c'"
    using p d ok by (auto simp: addReplyProto_def add_bytes_def bind_eq_Some_conv split: if_splits)
  have "accept_view e = accept_view d"
    using e(1) by (auto simp: i_addReplyToBuffer_def Let_def split: if_splits)
  then show "accept_view c' = accept_view c"
    using e(2) v addReplyProtoToList_accept_view [OF lim] by (auto split: if_splits)
qed

lemma puts_accepts:
  assumes "no_obuf_limits sv" "puts (addReplyProto al sv) c ss = Some c'" "accepts c"
  shows "accepts c'"
  using assms(2,3)
proof (induction ss arbitrary: c)
  case (Cons s ss)
  then obtain d where "addReplyProto al sv c s = Some d" "puts (addReplyProto al sv) d ss = Some c'"
    by (auto simp: bind_eq_Some_conv)
  then show ?case using Cons.IH addReplyProto_accepts [OF assms(1)] Cons.prems(2) by blast
qed simp

lemma emit_all_accepts:
  assumes "no_obuf_limits sv" "alloc_ok al" "\<forall>v\<in>set vs. value_ok v" "emit_all al sv c vs = Some c'" "accepts c"
  shows "accepts c'"
  using assms(3-5)
proof (induction vs arbitrary: c)
  case (Cons v vs)
  then obtain d where d: "emit al sv c v = Some d" "emit_all al sv d vs = Some c'" by (auto simp: bind_eq_Some_conv)
  have "puts (addReplyProto al sv) c (pieces (resp c) v) = Some d" using emit_pieces [OF assms(2), of v sv c] d(1) Cons.prems(1) by simp
  then have "accepts d" using puts_accepts [OF assms(1)] Cons.prems(3) by blast
  then show ?case using Cons.IH d(2) Cons.prems(1) by simp
qed simp

lemma addReplyDeferredLen_accepts:
  assumes "addReplyDeferredLen al c = (node, c0)" "accepts c"
  shows "accepts c0"
proof (rule accept_viewD [OF _ assms(2)])
  obtain ok d where d: "prepareClientToWrite c = (ok, d)" by fastforce
  have "accept_view (trimReplyUnusedTailSpace al d) = accept_view d"
    by (auto simp: trimReplyUnusedTailSpace_def Let_def split: prod.splits option.splits)
  then show "accept_view c0 = accept_view c" using assms(1) d prepare_accept_view [of c]
    by (auto simp: addReplyDeferredLen_def Let_def add_reply_node_def split: if_splits)
qed

end
