(* ===== verification/Client_Write.thy ===== *)
theory Client_Write
  imports Client_Correct
begin

text \<open>
  Writing to the socket takes bytes from the front of the pending stream, whatever amounts the
  socket accepts, and ends.
\<close>

definition no_holes :: "client \<Rightarrow> bool" where
  "no_holes c \<longleftrightarrow> (\<forall>n\<in>set (reply c). snd n \<noteq> None)"

text \<open>What a pass of the loop does.\<close>

definition step_ok :: "client \<Rightarrow> write_result \<Rightarrow> bool" where
  "step_ok c r =
     (case r of
        Wr_blocked n \<Rightarrow> n \<le> 0
      | Wr_skipped c' \<Rightarrow>
          out_ok c' \<and> no_holes c' \<and> in_view c' = in_view c \<and> flags c' = flags c \<and>
          pending c' = pending c \<and> length (reply c') < length (reply c)
      | Wr_sent bs c' \<Rightarrow>
          out_ok c' \<and> no_holes c' \<and> in_view c' = in_view c \<and> flags c' = flags c \<and>
          bs \<noteq> [] \<and> pending c = bs @ pending c' \<and> length (reply c') \<le> length (reply c))"

lemma write_step_buffer:
  assumes c: "out_ok c" "no_holes c" and w: "w k n \<le> int n" "n = bufpos c - sentlen c" and b: "bufpos c > 0"
  shows "\<exists>r. write_step w k c = Some r \<and> step_ok c r \<and> (0 < w k n \<longrightarrow> (\<exists>bs c'. r = Wr_sent bs c'))"
proof -
  let ?bs = "take n (drop (sentlen c) (obuf c))"
  have s: "sentlen c < bufpos c" using c(1) b by (auto simp: out_ok_def head_len_def)
  have o: "bufpos c \<le> length (obuf c)" "bufpos c < 2 ^ 64" using c(1) by (auto simp: out_ok_def)
  have sub: "subw 64 (bufpos c) (sentlen c) = n" using s o(2) w(2) by (simp add: subw_small)
  have l: "load_at (sentlen c) n (obuf c) = Some ?bs" "length ?bs = n" using s o w(2) by (auto simp: load_at_def)
  show ?thesis
  proof (cases "w k n \<le> 0")
    case True
    then have "write_step w k c = Some (Wr_blocked (w k n))" using b sub l by (simp add: write_step_def)
    then show ?thesis using True by (simp add: step_ok_def)
  next
    case False
    define m where "m = nat (w k n)"
    have m: "0 < m" "m \<le> n" "w k n = int m" using False w(1) by (auto simp: m_def)
    let ?c = "if sentlen c + m = bufpos c then c\<lparr>bufpos := 0, sentlen := 0\<rparr> else c\<lparr>sentlen := sentlen c + m\<rparr>"
    have e: "write_step w k c = Some (Wr_sent (take m ?bs) ?c)"
      using b sub l m by (simp add: write_step_def Let_def)
    have ok: "out_ok ?c" using c(1) m w(2) s by (auto simp: out_ok_def head_len_def)
    have "drop (sentlen c) (take (bufpos c) (obuf c)) = ?bs" using w(2) by (simp add: drop_take)
    then have p: "pending c = ?bs @ reply_text (reply c)" using pending_split [OF c(1)] b by simp
    have q: "pending ?c = drop m ?bs @ reply_text (reply c)"
    proof (cases "sentlen c + m = bufpos c")
      case True
      then show ?thesis using w(2) l(2) by (simp add: pending_def)
    next
      case False
      have "drop (sentlen c + m) (take (bufpos c) (obuf c)) = drop m ?bs" using w(2) by (simp add: drop_take add.commute)
      then show ?thesis using False pending_split [OF ok] b by simp
    qed
    have "take m ?bs \<noteq> []" using m l(2) by (cases ?bs) auto
    moreover have "pending c = take m ?bs @ pending ?c" unfolding p q by (metis append_assoc append_take_drop_id)
    ultimately have "step_ok c (Wr_sent (take m ?bs) ?c)"
      using ok c(2) by (auto simp: step_ok_def no_holes_def in_view_def)
    then show ?thesis using e by blast
  qed
qed

lemma write_step_block:
  assumes c: "out_ok c" "no_holes c" and w: "\<And>n. w k n \<le> int n" and b: "bufpos c = 0" "reply c \<noteq> []"
  shows "\<exists>r. write_step w k c = Some r \<and> step_ok c r \<and> ((\<forall>n > 0. 0 < w k n) \<longrightarrow> (\<forall>x. r \<noteq> Wr_blocked x))"
proof -
  obtain i o' rest where r: "reply c = (i, Some o') # rest"
    using b(2) c(2) by (cases "reply c") (auto simp: no_holes_def)
  have bo: "block_ok o'" "reply_bytes c = blk_size o' + sum_list (map node_size rest)" "reply_bytes c < 2 ^ 63"
    using c(1) r by (auto simp: out_ok_def)
  have rb: "subw 64 (reply_bytes c) (blk_size o') = sum_list (map node_size rest)" using bo by (simp add: subw_small)
  have nr: "nodes_ok (reply_next c) rest" using c(1) r by (auto simp: out_ok_def)
  let ?d = "c\<lparr>reply_bytes := sum_list (map node_size rest), reply := rest, sentlen := 0\<rparr>"
  have d: "out_ok ?d" using c(1) nr bo b(1) by (auto simp: out_ok_def)
  have dv: "no_holes ?d" "in_view ?d = in_view c" "flags ?d = flags c" "pending ?d = reply_text rest"
    using c(2) r b(1) by (auto simp: no_holes_def in_view_def pending_def)
  have p: "pending c = drop (sentlen c) (block_text o') @ reply_text rest"
    using c(1) b(1) r bo(1) by (auto simp: pending_def out_ok_def head_len_def)
  show ?thesis
  proof (cases "blk_used o' = 0")
    case True
    have s: "sentlen c = 0" using c(1) b(1) r True bo(1) by (auto simp: out_ok_def head_len_def)
    have "c\<lparr>reply_bytes := sum_list (map node_size rest), reply := rest\<rparr> = ?d" using s by simp
    then have "write_step w k c = Some (Wr_skipped ?d)" using True b(1) r rb by (simp add: write_step_def)
    moreover have "block_text o' = []" using True by (simp add: block_text_def)
    ultimately show ?thesis using d dv p r by (auto simp: step_ok_def)
  next
    case False
    define n where "n = blk_used o' - sentlen c"
    have s: "sentlen c < blk_used o'" using c(1) b(1) r False bo(1) by (auto simp: out_ok_def head_len_def)
    have o: "blk_used o' \<le> length (blk_buf o')" "blk_used o' < 2 ^ 64" using bo by (auto simp: block_ok_def)
    have sub: "subw 64 (blk_used o') (sentlen c) = n" using s o(2) by (simp add: subw_small n_def)
    let ?bs = "take n (drop (sentlen c) (blk_buf o'))"
    have l: "load_at (sentlen c) n (blk_buf o') = Some ?bs" "length ?bs = n" using s o by (auto simp: load_at_def n_def)
    have pb: "drop (sentlen c) (block_text o') = ?bs" by (simp add: block_text_def drop_take n_def)
    show ?thesis
    proof (cases "w k n \<le> 0")
      case True
      then have "write_step w k c = Some (Wr_blocked (w k n))" using b(1) r False sub l by (simp add: write_step_def)
      moreover have "\<not> (\<forall>n > 0. 0 < w k n)" using True s unfolding n_def by (metis not_less zero_less_diff)
      ultimately show ?thesis using True by (auto simp: step_ok_def)
    next
      case pos: False
      define m where "m = nat (w k n)"
      have m: "0 < m" "m \<le> n" "w k n = int m" using pos w [of n] by (auto simp: m_def)
      have ne: "take m ?bs \<noteq> []" using m l(2) by (cases ?bs) auto
      show ?thesis
      proof (cases "sentlen c + m = blk_used o'")
        case True
        have "write_step w k c = Some (Wr_sent (take m ?bs) ?d)"
          using b(1) r False sub l m True rb by (simp add: write_step_def Let_def)
        moreover have "take m ?bs = ?bs" using True l(2) by (intro take_all) (simp add: n_def)
        ultimately show ?thesis using d dv p pb ne r by (auto simp: step_ok_def)
      next
        case notall: False
        let ?c = "c\<lparr>sentlen := sentlen c + m\<rparr>"
        have ok: "out_ok ?c" using c(1) m s notall b(1) r bo(1) by (auto simp: out_ok_def head_len_def n_def)
        have "write_step w k c = Some (Wr_sent (take m ?bs) ?c)"
          using b(1) r False sub l m notall by (simp add: write_step_def Let_def)
        moreover have "pending ?c = drop m ?bs @ reply_text rest"
        proof -
          have "sentlen c + m \<le> length (block_text o')" using m s bo(1) by (simp add: n_def)
          then have "pending ?c = drop (sentlen c + m) (block_text o') @ reply_text rest" using b(1) r by (simp add: pending_def)
          then show ?thesis unfolding pb [symmetric] by (simp add: add.commute)
        qed
        moreover have "take m ?bs @ drop m ?bs @ reply_text rest = ?bs @ reply_text rest" by (metis append_assoc append_take_drop_id)
        ultimately show ?thesis using ok c(2) ne p pb by (auto simp: step_ok_def no_holes_def in_view_def)
      qed
    qed
  qed
qed

text \<open>The whole loop, and that it ends.\<close>

lemma write_loop_correct:
  assumes "out_ok c" "no_holes c" "\<And>k n. w k n \<le> int n"
  shows "\<exists>out' nw c'. write_loop w sv k nw0 out c = Some (out @ out', nw, c') \<and> out_ok c' \<and> no_holes c' \<and>
    in_view c' = in_view c \<and> flags c' = flags c \<and> pending c = out' @ pending c' \<and>
    ((\<forall>k n. 0 < n \<longrightarrow> 0 < w k n) \<longrightarrow> clientHasPendingReplies c' \<longrightarrow> NET_MAX_WRITES_PER_EVENT < length (out @ out'))"
  using assms(1,2)
proof (induction "length (pending c) + length (reply c)" arbitrary: c k nw0 out rule: less_induct)
  case less
  show ?case
  proof (cases "clientHasPendingReplies c")
    case False
    then show ?thesis using less.prems by (subst write_loop.simps) simp
  next
    case True
    have "\<exists>r. write_step w k c = Some r \<and> step_ok c r \<and> ((\<forall>n > 0. 0 < w k n) \<longrightarrow> (\<forall>x. r \<noteq> Wr_blocked x))"
    proof (cases "bufpos c > 0")
      case True
      have "sentlen c < bufpos c" using less.prems(1) True by (auto simp: out_ok_def head_len_def)
      then show ?thesis using write_step_buffer [of c w k, OF less.prems assms(3) refl True] by fastforce
    next
      case False
      then show ?thesis using write_step_block [OF less.prems assms(3)] True by (simp add: clientHasPendingReplies_def)
    qed
    then obtain r where r: "write_step w k c = Some r" "step_ok c r" "(\<forall>n > 0. 0 < w k n) \<longrightarrow> (\<forall>x. r \<noteq> Wr_blocked x)" by blast
    show ?thesis
    proof (cases r)
      case (Wr_blocked n)
      then show ?thesis using True r less.prems by (subst write_loop.simps) auto
    next
      case (Wr_skipped d)
      have d: "out_ok d" "no_holes d" "in_view d = in_view c" "flags d = flags c" "pending d = pending c" "length (reply d) < length (reply c)"
        using r(2) Wr_skipped by (auto simp: step_ok_def)
      show ?thesis using less.hyps [OF _ d(1,2), of k nw0 out] True r(1) Wr_skipped d by (subst write_loop.simps) simp
    next
      case (Wr_sent bs d)
      have d: "out_ok d" "no_holes d" "in_view d = in_view c" "flags d = flags c" "pending c = bs @ pending d"
        "length (reply d) \<le> length (reply c)" "bs \<noteq> []"
        using r(2) Wr_sent by (auto simp: step_ok_def)
      show ?thesis
      proof (cases "write_enough sv (length (out @ bs)) d")
        case enough: True
        then have "NET_MAX_WRITES_PER_EVENT < length (out @ bs)" by (simp add: write_enough_def)
        then show ?thesis using True r(1) Wr_sent d enough by (subst write_loop.simps) auto
      next
        case more: False
        have "length (pending d) + length (reply d) < length (pending c) + length (reply c)"
          using d(5-7) by (cases bs) auto
        then show ?thesis using less.hyps [OF _ d(1,2), of "k + 1" "int (length bs)" "out @ bs"] True r(1) Wr_sent d more
          by (subst write_loop.simps) auto
      qed
    qed
  qed
qed

text \<open>What follows the loop.\<close>

lemma writeToClient_result:
  assumes "write_loop w sv 0 0 [] c = Some (out, nw, d)" "\<not> clientHasPendingReplies d \<Longrightarrow> sentlen d = 0"
  shows "\<exists>ok f t h. writeToClient w connected sv c handler = Some (ok, out, d\<lparr>flags := f, lastinteraction := t, write_handler := h\<rparr>) \<and>
    f = (if ok then flags d else flags (freeClientAsync d)) \<and>
    (\<not> ok \<longrightarrow> \<not> connected \<or> \<not> clientHasPendingReplies d \<and> CLIENT_CLOSE_AFTER_REPLY \<in> flags d)"
proof -
  let ?t = "if length out > 0 \<and> CLIENT_MASTER \<notin> flags d then unixtime sv else lastinteraction d"
  consider (err) "nw = -1" "\<not> connected" | (more) "nw \<noteq> -1 \<or> connected" "clientHasPendingReplies d"
    | (fin) "nw \<noteq> -1 \<or> connected" "\<not> clientHasPendingReplies d" by blast
  then show ?thesis
  proof cases
    case err
    then have k: "writeToClient w connected sv c handler =
        Some (False, out, d\<lparr>flags := flags (freeClientAsync d), lastinteraction := lastinteraction d, write_handler := write_handler d\<rparr>)"
      using assms(1) by (cases d) (simp add: writeToClient_def freeClientAsync_def set_flags_def)
    show ?thesis by (rule exI, rule exI, rule exI, rule exI, rule conjI [OF k]) (use err in simp)
  next
    case more
    then have k: "writeToClient w connected sv c handler =
        Some (True, out, d\<lparr>flags := flags d, lastinteraction := ?t, write_handler := write_handler d\<rparr>)"
      using assms(1) by (cases d) (auto simp: writeToClient_def Let_def clientHasPendingReplies_def)
    show ?thesis by (rule exI, rule exI, rule exI, rule exI, rule conjI [OF k]) simp
  next
    case fin
    have sent: "sentlen d = 0" using assms(2) fin(2) .
    let ?ok = "CLIENT_CLOSE_AFTER_REPLY \<notin> flags d"
    have z: "d\<lparr>lastinteraction := t, sentlen := 0\<rparr> = d\<lparr>lastinteraction := t\<rparr>" for t using sent by (cases d) simp
    have l: "(if length out > 0 \<and> CLIENT_MASTER \<notin> flags d then d\<lparr>lastinteraction := unixtime sv\<rparr> else d) = d\<lparr>lastinteraction := ?t\<rparr>"
      by simp
    have p: "\<not> clientHasPendingReplies (d\<lparr>lastinteraction := t\<rparr>)" for t using fin(2) by (simp add: clientHasPendingReplies_def)
    have n: "(nw = -1 \<and> \<not> connected) = False" using fin(1) by blast
    have k: "writeToClient w connected sv c handler =
        Some (?ok, out, d\<lparr>flags := if ?ok then flags d else flags (freeClientAsync d), lastinteraction := ?t,
          write_handler := if handler then False else write_handler d\<rparr>)"
      unfolding writeToClient_def Let_def assms(1) bind.bind_lunit prod.case n if_False l
      by (cases handler; cases ?ok) (simp_all add: p z freeClientAsync_def set_flags_def)
    show ?thesis by (rule exI, rule exI, rule exI, rule exI, rule conjI [OF k]) (use fin in simp)
  qed
qed

end
