(* ===== verification/Query.thy ===== *)
theory Query
  imports Client
begin

text \<open>
  Reading requests (\<^verbatim>\<open>networking.c\<close>): the RESP and the inline parser, the loop over the query buffer
  and the read handler. The query buffer is a dynamic string, so the code that grows it, trims it
  and hands it over to an argument is the code of \<^verbatim>\<open>sds.c\<close>. What is outside of this part is an
  argument: the bytes the socket delivers, the execution of a command, the stream to replicas and
  Gopher requests.
\<close>

section \<open>Protocol errors\<close>

text \<open>The position of a character in a C string; \<^const>\<open>None\<close> inside is NULL.\<close>

fun strchr_pos :: "char \<Rightarrow> char list \<Rightarrow> nat option option" where
  "strchr_pos c [] = None"
| "strchr_pos c (x # xs) =
     (if x = c then Some (Some 0)
      else if x = NUL then Some None
      else map_option (map_option Suc) (strchr_pos c xs))"

text \<open>A \<^verbatim>\<open>size_t\<close> converted to \<^verbatim>\<open>ssize_t\<close>.\<close>

definition ssize_of :: "nat \<Rightarrow> int" where
  "ssize_of n = (if n < 2 ^ 63 then int n else int n - 2 ^ 64)"

text \<open>The log entry is left out.\<close>

definition setProtocolError :: "client \<Rightarrow> client" where
  "setProtocolError c = set_flags {CLIENT_CLOSE_AFTER_REPLY, CLIENT_PROTOCOL_ERROR} c"

definition protocol_error :: "allocator \<Rightarrow> server_conf \<Rightarrow> char list \<Rightarrow> client \<Rightarrow> client option" where
  "protocol_error al sv msg c = map_option setProtocolError (addReplyError al sv c msg)"

text \<open>The unread part of the query buffer with the terminator, and its length.\<close>

definition unread_mem :: "client \<Rightarrow> char list" where
  "unread_mem c = drop (qb_pos c) (buf (querybuf c))"

definition unread_len :: "client \<Rightarrow> nat" where
  "unread_len c = subw 64 (sdslen (querybuf c)) (qb_pos c)"

text \<open>\<open>i\<close> is the position of a CR in the unread part: a LF may still be missing.\<close>

definition line_incomplete :: "client \<Rightarrow> nat \<Rightarrow> bool" where
  "line_incomplete c i \<longleftrightarrow> int i > ssize_of (subw 64 (unread_len c) 2)"

section \<open>RESP requests\<close>

datatype mb_result = Mb_return bool client | Mb_continue client

definition read_mbulk_len :: "allocator \<Rightarrow> server_conf \<Rightarrow> client \<Rightarrow> mb_result option" where
  "read_mbulk_len al sv c =
     (if argv c \<noteq> [] then None
      else do {
        newline \<leftarrow> strchr_pos CR (unread_mem c);
        (case newline of
           None \<Rightarrow>
             if unread_len c > PROTO_INLINE_MAX_SIZE
             then map_option (Mb_return False) (protocol_error al sv ''Protocol error: too big mbulk count string'' c)
             else Some (Mb_return False c)
         | Some i \<Rightarrow>
             if line_incomplete c i then Some (Mb_return False c)
             else do {
               ch \<leftarrow> load_at 0 1 (unread_mem c);
               if hd ch \<noteq> CHR ''*'' then None
               else do {
                 s \<leftarrow> load_at 1 (i - 1) (unread_mem c);
                 let ll = string2ll s;
                 if ll = None \<or> sint (the ll) > 1024 * 1024
                 then map_option (Mb_return False) (protocol_error al sv ''Protocol error: invalid multibulk length'' c)
                 else do {
                   let c = c\<lparr>qb_pos := qb_pos c + i + 2\<rparr>;
                   if sint (the ll) \<le> 0 then Some (Mb_return True c)
                   else let n = nat (sint (the ll))
                        in Some (Mb_continue (c\<lparr>multibulklen := n, argv := [], argv_cap := n, argv_len_sum := 0\<rparr>))
                 }
               }
             })
      })"

text \<open>A pass of the loop over the arguments returns \<^verbatim>\<open>C_ERR\<close>, leaves the loop to wait for data, or goes on.\<close>

datatype bulk_result = Bk_error client | Bk_wait client | Bk_next client

definition expected_dollar :: "allocator \<Rightarrow> server_conf \<Rightarrow> char \<Rightarrow> client \<Rightarrow> client option" where
  "expected_dollar al sv ch c = do {
     s \<leftarrow> sdsempty al;
     s \<leftarrow> sdscat al s (''Protocol error: expected '' @ [CHR 0x27, CHR ''$'', CHR 0x27] @ '', got '' @ [CHR 0x27, ch, CHR 0x27]);
     c \<leftarrow> addReplyErrorFormat al sv c s;
     Some (setProtocolError c)
   }"

text \<open>A large argument is moved to the start of the query buffer, when nothing else is in the buffer.\<close>

definition align_big_arg :: "allocator \<Rightarrow> nat \<Rightarrow> client \<Rightarrow> client option" where
  "align_big_arg al ll c =
     (if ll \<ge> PROTO_MBULK_BIG_ARG \<and> unread_len c \<le> addw 64 ll 2 then do {
        q \<leftarrow> sdsrange (querybuf c) (int (qb_pos c)) (-1);
        q \<leftarrow> sdsMakeRoomFor al q (subw 64 (addw 64 ll 2) (sdslen q));
        Some (c\<lparr>querybuf := q, qb_pos := 0\<rparr>) }
      else Some c)"

definition read_bulk_len :: "allocator \<Rightarrow> server_conf \<Rightarrow> client \<Rightarrow> bulk_result option" where
  "read_bulk_len al sv c =
     (if bulklen c \<noteq> -1 then Some (Bk_next c)
      else do {
        newline \<leftarrow> strchr_pos CR (unread_mem c);
        (case newline of
           None \<Rightarrow>
             if unread_len c > PROTO_INLINE_MAX_SIZE
             then map_option Bk_error (protocol_error al sv ''Protocol error: too big bulk count string'' c)
             else Some (Bk_wait c)
         | Some i \<Rightarrow>
             if line_incomplete c i then Some (Bk_wait c)
             else do {
               ch \<leftarrow> load_at 0 1 (unread_mem c);
               if hd ch \<noteq> CHR ''$'' then map_option Bk_error (expected_dollar al sv (hd ch) c)
               else do {
                 s \<leftarrow> load_at 1 (i - 1) (unread_mem c);
                 let ll = string2ll s;
                 if ll = None \<or> sint (the ll) < 0 \<or> (CLIENT_MASTER \<notin> flags c \<and> sint (the ll) > proto_max_bulk_len sv)
                 then map_option Bk_error (protocol_error al sv ''Protocol error: invalid bulk length'' c)
                 else do {
                   c \<leftarrow> align_big_arg al (nat (sint (the ll))) (c\<lparr>qb_pos := qb_pos c + i + 2\<rparr>);
                   Some (Bk_next (c\<lparr>bulklen := sint (the ll)\<rparr>))
                 }
               }
             })
      })"

text \<open>Storing outside the argument array is \<^const>\<open>None\<close>.\<close>

definition push_arg :: "client \<Rightarrow> robj \<Rightarrow> client option" where
  "push_arg c o' = (if length (argv c) < argv_cap c then Some (c\<lparr>argv := argv c @ [o']\<rparr>) else None)"

text \<open>The sum \<open>bulklen + 2\<close> is computed as a \<^verbatim>\<open>long\<close>; an overflow is \<^const>\<open>None\<close>.\<close>

definition read_bulk :: "allocator \<Rightarrow> client \<Rightarrow> bulk_result option" where
  "read_bulk al c =
     (if bulklen c + 2 \<ge> 2 ^ 63 then None
      else let n = nat (bulklen c) in
        if unread_len c < n + 2 then Some (Bk_wait c)
        else do {
          c \<leftarrow> (if qb_pos c = 0 \<and> n \<ge> PROTO_MBULK_BIG_ARG \<and> sdslen (querybuf c) = n + 2 then do {
                   q \<leftarrow> sdsIncrLen (querybuf c) (-2);
                   c \<leftarrow> push_arg c (createObject OBJ_STRING q);
                   nq \<leftarrow> sdsnewlen al Sds_noinit (n + 2);
                   nq \<leftarrow> sdsclear nq;
                   Some (c\<lparr>argv_len_sum := addw 64 (argv_len_sum c) n, querybuf := nq\<rparr>) }
                 else do {
                   o' \<leftarrow> createStringObject al (Init (unread_mem c)) n;
                   c \<leftarrow> push_arg c o';
                   Some (c\<lparr>argv_len_sum := addw 64 (argv_len_sum c) n, qb_pos := qb_pos c + n + 2\<rparr>) });
          Some (Bk_next (c\<lparr>bulklen := -1, multibulklen := multibulklen c - 1\<rparr>))
        })"

partial_function (option) bulk_loop :: "allocator \<Rightarrow> server_conf \<Rightarrow> client \<Rightarrow> (bool \<times> client) option" where
  "bulk_loop al sv c =
     (if multibulklen c = 0 then Some (True, c)
      else do {
        r \<leftarrow> read_bulk_len al sv c;
        case r of
          Bk_error c \<Rightarrow> Some (False, c)
        | Bk_wait c \<Rightarrow> Some (False, c)
        | Bk_next c \<Rightarrow> do {
            r \<leftarrow> read_bulk al c;
            case r of
              Bk_error c \<Rightarrow> Some (False, c)
            | Bk_wait c \<Rightarrow> Some (False, c)
            | Bk_next c \<Rightarrow> bulk_loop al sv c
          }
      })"

text \<open>The result is \<open>True\<close> for \<^verbatim>\<open>C_OK\<close>.\<close>

definition processMultibulkBuffer :: "allocator \<Rightarrow> server_conf \<Rightarrow> client \<Rightarrow> (bool \<times> client) option" where
  "processMultibulkBuffer al sv c = do {
     r \<leftarrow> (if multibulklen c = 0 then read_mbulk_len al sv c else Some (Mb_continue c));
     case r of
       Mb_return b c \<Rightarrow> Some (b, c)
     | Mb_continue c \<Rightarrow> if multibulklen c > 0 then bulk_loop al sv c else None
   }"

section \<open>Inline requests\<close>

text \<open>The length of the line and of its end, for a LF at position \<open>i\<close>.\<close>

definition line_end :: "client \<Rightarrow> nat \<Rightarrow> nat \<times> nat" where
  "line_end c i = (if i \<noteq> 0 \<and> unread_mem c ! (i - 1) = CR then (i - 1, 2) else (i, 1))"

definition set_inline_args :: "client \<Rightarrow> sds list \<Rightarrow> client" where
  "set_inline_args c args =
     (let c = (if args \<noteq> [] then c\<lparr>argv_cap := length args, argv_len_sum := 0\<rparr> else c)
      in c\<lparr>argv := map (createObject OBJ_STRING) args,
           argv_len_sum := foldl (\<lambda>n a. addw 64 n (sdslen a)) (argv_len_sum c) args\<rparr>)"

definition note_ack :: "server_conf \<Rightarrow> nat \<Rightarrow> client \<Rightarrow> client" where
  "note_ack sv querylen c =
     (if querylen = 0 \<and> getClientType c = CLIENT_TYPE_SLAVE then c\<lparr>repl_ack_time := unixtime sv\<rparr> else c)"

definition processInlineBuffer :: "allocator \<Rightarrow> server_conf \<Rightarrow> client \<Rightarrow> (bool \<times> client) option" where
  "processInlineBuffer al sv c = do {
     newline \<leftarrow> strchr_pos LF (unread_mem c);
     (case newline of
        None \<Rightarrow>
          if unread_len c > PROTO_INLINE_MAX_SIZE
          then map_option (Pair False) (protocol_error al sv ''Protocol error: too big inline request'' c)
          else Some (False, c)
      | Some i \<Rightarrow> do {
          let (querylen, linefeed_chars) = line_end c i;
          aux \<leftarrow> sdsnewlen al (Init (unread_mem c)) querylen;
          args \<leftarrow> sdssplitargs al (text_of aux);
          (case args of
             None \<Rightarrow> map_option (Pair False) (protocol_error al sv ''Protocol error: unbalanced quotes in request'' c)
           | Some args \<Rightarrow>
               let c = note_ack sv querylen c
               in if querylen \<noteq> 0 \<and> CLIENT_MASTER \<in> flags c then Some (False, setProtocolError c)
                  else Some (True, set_inline_args (c\<lparr>qb_pos := qb_pos c + querylen + linefeed_chars\<rparr>) args))
        })
   }"

section \<open>Commands\<close>

text \<open>
  The execution of a command ends with \<^verbatim>\<open>C_OK\<close>, with \<^verbatim>\<open>C_ERR\<close>, or has freed the client, in which case it
  returns \<^verbatim>\<open>C_ERR\<close> too. \<open>'w\<close> is the rest of the server.
\<close>

datatype 'w cmd_outcome = Cmd_ok 'w client | Cmd_err 'w client | Cmd_freed 'w

record 'w server_ops =
  processCommand :: "'w \<Rightarrow> client \<Rightarrow> 'w cmd_outcome"
  replicationFeedSlavesFromMasterStream :: "'w \<Rightarrow> char list \<Rightarrow> 'w"
  processGopherRequest :: "'w \<Rightarrow> client \<Rightarrow> 'w \<times> client"

definition commandProcessed :: "'w server_ops \<Rightarrow> 'w \<Rightarrow> client \<Rightarrow> ('w \<times> client) option" where
  "commandProcessed ops w c = do {
     let prev_offset = reploff c;
     let c = (if CLIENT_MASTER \<in> flags c \<and> CLIENT_MULTI \<notin> flags c
              then c\<lparr>reploff := read_reploff c - int (sdslen (querybuf c)) + int (qb_pos c)\<rparr> else c);
     let c = (if CLIENT_BLOCKED \<notin> flags c then resetClient c else c);
     let applied = reploff c - prev_offset;
     if CLIENT_MASTER \<in> flags c \<and> applied \<noteq> 0 then do {
       bs \<leftarrow> load_at 0 (nat applied) (buf (pending_querybuf c));
       q \<leftarrow> sdsrange (pending_querybuf c) applied (-1);
       Some (replicationFeedSlavesFromMasterStream ops w bs, c\<lparr>pending_querybuf := q\<rparr>) }
     else Some (w, c)
   }"

text \<open>No client is the result when it was freed.\<close>

definition processCommandAndResetClient :: "'w server_ops \<Rightarrow> 'w \<Rightarrow> client \<Rightarrow> ('w \<times> client option) option" where
  "processCommandAndResetClient ops w c =
     (case processCommand ops w c of
        Cmd_ok w c \<Rightarrow> map_option (\<lambda>(w, c). (w, Some c)) (commandProcessed ops w c)
      | Cmd_err w c \<Rightarrow> Some (w, Some c)
      | Cmd_freed w \<Rightarrow> Some (w, None))"

definition processPendingCommandsAndResetClient ::
  "'w server_ops \<Rightarrow> 'w \<Rightarrow> client \<Rightarrow> ('w \<times> client option) option" where
  "processPendingCommandsAndResetClient ops w c =
     (if CLIENT_PENDING_COMMAND \<in> flags c
      then processCommandAndResetClient ops w (clear_flags {CLIENT_PENDING_COMMAND} c)
      else Some (w, Some c))"

section \<open>The loop over the query buffer\<close>

definition input_blocked :: "server_conf \<Rightarrow> client \<Rightarrow> bool" where
  "input_blocked sv c \<longleftrightarrow>
     CLIENT_BLOCKED \<in> flags c \<or> CLIENT_PENDING_COMMAND \<in> flags c \<or>
     (lua_timedout sv \<and> CLIENT_MASTER \<in> flags c) \<or>
     flags c \<inter> {CLIENT_CLOSE_AFTER_REPLY, CLIENT_CLOSE_ASAP} \<noteq> {}"

datatype 'w input_result = In_break 'w client | In_again 'w client | In_freed 'w

text \<open>What happens with a request that has been read.\<close>

definition run_request :: "'w server_ops \<Rightarrow> 'w \<Rightarrow> client \<Rightarrow> 'w input_result option" where
  "run_request ops w c =
     (if argv c = [] then Some (In_again w (resetClient c))
      else if CLIENT_PENDING_READ \<in> flags c then Some (In_break w (set_flags {CLIENT_PENDING_COMMAND} c))
      else do {
        (w, c) \<leftarrow> processCommandAndResetClient ops w c;
        Some (case c of Some c \<Rightarrow> In_again w c | None \<Rightarrow> In_freed w)
      })"

definition is_gopher :: "server_conf \<Rightarrow> client \<Rightarrow> bool" where
  "is_gopher sv c \<longleftrightarrow>
     gopher_enabled sv \<and> \<not> io_threads_do_reads sv \<and>
     (case argv c of
        [] \<Rightarrow> True
      | [o'] \<Rightarrow> (case ob_ptr o' of Sds_ptr s \<Rightarrow> hd (buf s) = CHR ''/'' | _ \<Rightarrow> False)
      | _ \<Rightarrow> False)"

text \<open>The first character of a request decides on its type.\<close>

definition set_reqtype :: "char \<Rightarrow> client \<Rightarrow> client" where
  "set_reqtype ch c =
     (if reqtype c = None
      then c\<lparr>reqtype := Some (if ch = CHR ''*'' then PROTO_REQ_MULTIBULK else PROTO_REQ_INLINE)\<rparr> else c)"

definition input_step :: "allocator \<Rightarrow> server_conf \<Rightarrow> 'w server_ops \<Rightarrow> 'w \<Rightarrow> client \<Rightarrow> 'w input_result option" where
  "input_step al sv ops w c =
     (if input_blocked sv c then Some (In_break w c)
      else do {
        ch \<leftarrow> load_at 0 1 (unread_mem c);
        let c = set_reqtype (hd ch) c;
        if reqtype c = Some PROTO_REQ_INLINE then do {
          (ok, c) \<leftarrow> processInlineBuffer al sv c;
          if \<not> ok then Some (In_break w c)
          else if is_gopher sv c
          then (case processGopherRequest ops w c of
                  (w, c) \<Rightarrow> Some (In_break w (set_flags {CLIENT_CLOSE_AFTER_REPLY} (resetClient c))))
          else run_request ops w c }
        else do {
          (ok, c) \<leftarrow> processMultibulkBuffer al sv c;
          if \<not> ok then Some (In_break w c) else run_request ops w c }
      })"

partial_function (option) input_loop ::
  "allocator \<Rightarrow> server_conf \<Rightarrow> 'w server_ops \<Rightarrow> 'w \<Rightarrow> client \<Rightarrow> ('w \<times> client option) option" where
  "input_loop al sv ops w c =
     (if qb_pos c < sdslen (querybuf c) then do {
        r \<leftarrow> input_step al sv ops w c;
        case r of
          In_break w c \<Rightarrow> Some (w, Some c)
        | In_again w c \<Rightarrow> input_loop al sv ops w c
        | In_freed w \<Rightarrow> Some (w, None)
      }
      else Some (w, Some c))"

definition processInputBuffer ::
  "allocator \<Rightarrow> server_conf \<Rightarrow> 'w server_ops \<Rightarrow> 'w \<Rightarrow> client \<Rightarrow> ('w \<times> client option) option" where
  "processInputBuffer al sv ops w c = do {
     (w, c) \<leftarrow> input_loop al sv ops w c;
     (case c of
        None \<Rightarrow> Some (w, None)
      | Some c \<Rightarrow>
          if qb_pos c \<noteq> 0 then do {
            q \<leftarrow> sdsrange (querybuf c) (int (qb_pos c)) (-1);
            Some (w, Some (c\<lparr>querybuf := q, qb_pos := 0\<rparr>)) }
          else Some (w, Some c))
   }"

section \<open>The read handler\<close>

definition postponeClientRead :: "server_conf \<Rightarrow> client \<Rightarrow> bool \<times> client" where
  "postponeClientRead sv c =
     (if io_threads_active sv \<and> io_threads_do_reads sv \<and> \<not> events_while_blocked sv \<and>
         flags c \<inter> {CLIENT_MASTER, CLIENT_SLAVE, CLIENT_PENDING_READ, CLIENT_BLOCKED} = {}
      then (True, set_flags {CLIENT_PENDING_READ} c) else (False, c))"

text \<open>
  What \<^verbatim>\<open>connRead\<close> does when it is asked for \<open>n\<close> bytes: it has none while the connection is up (-1), it
  fails (-1), the peer has closed the connection (0), or it delivers at most \<open>n\<close> bytes.
\<close>

datatype conn_read = Rd_again | Rd_failed | Rd_closed | Rd_bytes "char list"

definition read_length :: "client \<Rightarrow> nat" where
  "read_length c =
     (if reqtype c = Some PROTO_REQ_MULTIBULK \<and> multibulklen c \<noteq> 0 \<and> bulklen c \<noteq> -1 \<and> bulklen c \<ge> int PROTO_MBULK_BIG_ARG
      then let remaining = ssize_of (subw 64 (nat (bulklen c + 2)) (sdslen (querybuf c)))
           in if remaining > 0 \<and> remaining < int PROTO_IOBUF_LEN then nat remaining else PROTO_IOBUF_LEN
      else PROTO_IOBUF_LEN)"

definition readQueryFromClient ::
  "allocator \<Rightarrow> server_conf \<Rightarrow> 'w server_ops \<Rightarrow> (nat \<Rightarrow> conn_read) \<Rightarrow> 'w \<Rightarrow> client \<Rightarrow> ('w \<times> client option) option" where
  "readQueryFromClient al sv ops rd w c =
     (case postponeClientRead sv c of (postponed, c) \<Rightarrow>
        if postponed then Some (w, Some c)
        else do {
          let readlen = read_length c;
          let qblen = sdslen (querybuf c);
          let c = (if querybuf_peak c < qblen then c\<lparr>querybuf_peak := qblen\<rparr> else c);
          q \<leftarrow> sdsMakeRoomFor al (querybuf c) readlen;
          let c = c\<lparr>querybuf := q\<rparr>;
          (case rd readlen of
             Rd_again \<Rightarrow> Some (w, Some c)
           | Rd_failed \<Rightarrow> Some (w, Some (freeClientAsync c))
           | Rd_closed \<Rightarrow> Some (w, Some (freeClientAsync c))
           | Rd_bytes bs \<Rightarrow>
               if bs = [] \<or> length bs > readlen then None
               else do {
                 q \<leftarrow> sds_write (querybuf c) qblen bs;
                 p \<leftarrow> (if CLIENT_MASTER \<in> flags c then sdscatlen al (pending_querybuf c) (drop qblen (buf q)) (length bs)
                       else Some (pending_querybuf c));
                 q \<leftarrow> sdsIncrLen q (int (length bs));
                 let c = c\<lparr>querybuf := q, pending_querybuf := p, lastinteraction := unixtime sv\<rparr>;
                 let c = (if CLIENT_MASTER \<in> flags c then c\<lparr>read_reploff := read_reploff c + int (length bs)\<rparr> else c);
                 if sdslen (querybuf c) > client_max_querybuf_len sv then Some (w, Some (freeClientAsync c))
                 else processInputBuffer al sv ops w c
               })
        })"

end
