(* ===== verification/Query_Correct.thy ===== *)
theory Query_Correct
  imports Query Client_Reply
begin

text \<open>
  The parser of requests. For every content of the query buffer it has a defined result and keeps
  the invariant of the client; on the RESP encoding of an argument list it builds exactly this
  list, wherever the input is cut into pieces.
\<close>

section \<open>The unread input\<close>

definition unread :: "client \<Rightarrow> string" where
  "unread c = drop (qb_pos c) (text_of (querybuf c))"

definition buf_ok :: "client \<Rightarrow> bool" where
  "buf_ok c \<longleftrightarrow> sds_ok (querybuf c) \<and> qb_pos c \<le> sdslen (querybuf c) \<and> sdslen (querybuf c) < 2 ^ 61"

lemma unread_mem_split: "buf_ok c \<Longrightarrow> \<exists>r. unread_mem c = unread c @ NUL # r"
proof -
  assume h: "buf_ok c"
  let ?q = "querybuf c" and ?n = "sdslen (querybuf c)"
  have n: "?n < length (buf ?q)" "buf ?q ! ?n = NUL" "qb_pos c \<le> ?n"
    using h by (auto simp: buf_ok_def sds_ok_def sdslen_def)
  have "buf ?q = take ?n (buf ?q) @ NUL # drop (Suc ?n) (buf ?q)"
    using n(1,2) by (metis id_take_nth_drop)
  then have "drop (qb_pos c) (buf ?q) = drop (qb_pos c) (take ?n (buf ?q)) @ NUL # drop (Suc ?n) (buf ?q)"
    using n by (metis (no_types, lifting) drop_append diff_is_0_eq drop_0 length_take less_imp_le_nat min.absorb2)
  then show ?thesis by (auto simp: unread_mem_def unread_def text_of_def sdslen_def)
qed

lemma unread_len_eq: "buf_ok c \<Longrightarrow> unread_len c = length (unread c)"
proof -
  assume h: "buf_ok c"
  then have "length (text_of (querybuf c)) = sdslen (querybuf c)" by (auto simp: buf_ok_def length_text_of)
  then show ?thesis using h by (simp add: unread_len_def unread_def buf_ok_def subw_small)
qed

lemma length_unread_less: "buf_ok c \<Longrightarrow> length (unread c) < 2 ^ 61"
  by (auto simp: buf_ok_def unread_def length_text_of)

lemma line_incomplete_iff:
  "buf_ok c \<Longrightarrow> i < length (unread c) \<Longrightarrow> line_incomplete c i \<longleftrightarrow> i + 2 > length (unread c)"
proof -
  assume h: "buf_ok c" "i < length (unread c)"
  let ?n = "length (unread c)"
  have n: "?n < 2 ^ 61" using length_unread_less [OF h(1)] .
  show ?thesis
  proof (cases "?n \<ge> 2")
    case True
    then have "subw 64 ?n 2 = ?n - 2" using n by (intro subw_small) simp_all
    then show ?thesis using True n unread_len_eq [OF h(1)] by (auto simp: line_incomplete_def ssize_of_def)
  next
    case False
    then have "?n = 1" using h(2) by simp
    moreover have "subw 64 1 2 = 2 ^ 64 - 1" by (simp add: subw_def)
    ultimately show ?thesis using unread_len_eq [OF h(1)] h(2) by (simp add: line_incomplete_def ssize_of_def)
  qed
qed

lemma strchr_pos_found:
  "ch \<notin> set a \<Longrightarrow> NUL \<notin> set a \<Longrightarrow> strchr_pos ch (a @ ch # b) = Some (Some (length a))"
  by (induction a) auto

lemma strchr_pos_missing:
  "ch \<notin> set (takeWhile (\<lambda>x. x \<noteq> NUL) u) \<Longrightarrow> ch \<noteq> NUL \<Longrightarrow> strchr_pos ch (u @ NUL # r) = Some None"
  by (induction u) (auto split: if_splits)

text \<open>The search for the end of a line in the unread input.\<close>

lemma find_line:
  assumes "buf_ok c" "ch \<noteq> NUL"
  obtains (none) "ch \<notin> set (takeWhile (\<lambda>x. x \<noteq> NUL) (unread c))" "strchr_pos ch (unread_mem c) = Some None"
  | (found) a b where "unread c = a @ ch # b" "ch \<notin> set a" "NUL \<notin> set a" "strchr_pos ch (unread_mem c) = Some (Some (length a))"
proof -
  obtain r where r: "unread_mem c = unread c @ NUL # r" using unread_mem_split [OF assms(1)] by blast
  show ?thesis
  proof (cases "ch \<in> set (takeWhile (\<lambda>x. x \<noteq> NUL) (unread c))")
    case True
    obtain a b' where ab: "takeWhile (\<lambda>x. x \<noteq> NUL) (unread c) = a @ ch # b'" "ch \<notin> set a"
      using split_list_first [OF True] by blast
    then obtain b where b: "unread c = a @ ch # b" by (metis append.assoc append_Cons takeWhile_dropWhile_id)
    have "NUL \<notin> set a" using ab(1) by (metis (full_types) Un_iff set_append set_takeWhileD)
    then show ?thesis using found [OF b ab(2)] strchr_pos_found [of ch a "b @ NUL # r"] ab(2) r b by simp
  next
    case False
    then show ?thesis using none strchr_pos_missing [OF False assms(2)] r by simp
  qed
qed

lemma load_unread: "buf_ok c \<Longrightarrow> i + n \<le> length (unread c) \<Longrightarrow> load_at i n (unread_mem c) = Some (take n (drop i (unread c)))"
proof -
  assume h: "buf_ok c" "i + n \<le> length (unread c)"
  obtain r where "unread_mem c = unread c @ NUL # r" using unread_mem_split [OF h(1)] by blast
  then show ?thesis using h(2) by (simp add: load_at_def)
qed

section \<open>Moving forward\<close>

lemma advance_correct:
  "buf_ok c \<Longrightarrow> n \<le> length (unread c) \<Longrightarrow>
   buf_ok (c\<lparr>qb_pos := qb_pos c + n\<rparr>) \<and> unread (c\<lparr>qb_pos := qb_pos c + n\<rparr>) = drop n (unread c)"
  by (auto simp: buf_ok_def unread_def length_text_of add.commute)

lemma range_to_end: "p \<le> length t \<Longrightarrow> range_spec t (int p) (-1) = drop p t"
  by (auto simp: range_spec_def Let_def)

lemma trim_querybuf:
  assumes "buf_ok c"
  shows "\<exists>q. sdsrange (querybuf c) (int (qb_pos c)) (-1) = Some q \<and> sds_ok q \<and> text_of q = unread c"
proof -
  have "qb_pos c \<le> length (text_of (querybuf c))" using assms by (simp add: buf_ok_def length_text_of)
  moreover have "int (qb_pos c) < 2 ^ 62" using assms by (simp add: buf_ok_def)
  ultimately show ?thesis
    using sdsrange_correct [of "querybuf c" "int (qb_pos c)" "-1"] assms range_to_end
    by (auto simp: buf_ok_def unread_def)
qed

lemma align_correct:
  assumes "buf_ok c" "alloc_ok al" "ll < 2 ^ 60"
  shows "\<exists>q p. align_big_arg al ll c = Some (c\<lparr>querybuf := q, qb_pos := p\<rparr>) \<and>
    buf_ok (c\<lparr>querybuf := q, qb_pos := p\<rparr>) \<and> unread (c\<lparr>querybuf := q, qb_pos := p\<rparr>) = unread c \<and>
    sdslen q \<le> sdslen (querybuf c)"
proof (cases "ll \<ge> PROTO_MBULK_BIG_ARG \<and> unread_len c \<le> addw 64 ll 2")
  case False
  then have "align_big_arg al ll c = Some c" by (auto simp: align_big_arg_def)
  then show ?thesis using assms(1) by (intro exI [of _ "querybuf c"] exI [of _ "qb_pos c"]) simp
next
  case True
  have a: "addw 64 ll 2 = ll + 2" using assms(3) by (simp add: addw_small)
  obtain q where q: "sdsrange (querybuf c) (int (qb_pos c)) (-1) = Some q" "sds_ok q" "text_of q = unread c"
    using trim_querybuf [OF assms(1)] by blast
  have l: "sdslen q = length (unread c)" using length_text_of [OF q(2)] q(3) by simp
  have u: "length (unread c) \<le> ll + 2" using True a unread_len_eq [OF assms(1)] by simp
  have s: "subw 64 (addw 64 ll 2) (sdslen q) = ll + 2 - sdslen q" unfolding a using l u assms(3) by (intro subw_small) simp_all
  have "sdslen q + (ll + 2 - sdslen q) < 2 ^ 63" using l u assms(3) by simp
  then obtain q' where q': "sdsMakeRoomFor al q (ll + 2 - sdslen q) = Some q'" "sds_ok q'" "text_of q' = text_of q" "sdslen q' = sdslen q"
    using sdsMakeRoomFor_correct [OF q(2) assms(2)] by blast
  have "align_big_arg al ll c = Some (c\<lparr>querybuf := q', qb_pos := 0\<rparr>)"
    using True q(1) q'(1) s by (simp add: align_big_arg_def)
  moreover have "length (unread c) \<le> sdslen (querybuf c)" using assms(1) by (simp add: buf_ok_def unread_def length_text_of)
  ultimately show ?thesis using q q' l length_unread_less [OF assms(1)]
    by (intro exI [of _ q'] exI [of _ 0]) (simp add: buf_ok_def unread_def)
qed

section \<open>One step of the parser\<close>

text \<open>The three cases of reading the length of an argument.\<close>

lemma read_bulk_len_known: "bulklen c \<noteq> -1 \<Longrightarrow> read_bulk_len al sv c = Some (Bk_next c)"
  by (simp add: read_bulk_len_def)

lemma read_bulk_len_none:
  assumes "buf_ok c" "bulklen c = -1" "strchr_pos CR (unread_mem c) = Some None"
  shows "read_bulk_len al sv c =
    (if length (unread c) > PROTO_INLINE_MAX_SIZE
     then map_option Bk_error (protocol_error al sv ''Protocol error: too big bulk count string'' c)
     else Some (Bk_wait c))"
  using assms unread_len_eq [OF assms(1)] by (simp add: read_bulk_len_def)

lemma read_bulk_len_wait:
  assumes "buf_ok c" "bulklen c = -1" "unread c = a @ [CR]" "strchr_pos CR (unread_mem c) = Some (Some (length a))"
  shows "read_bulk_len al sv c = Some (Bk_wait c)"
  using assms line_incomplete_iff [OF assms(1), of "length a"] by (simp add: read_bulk_len_def)

definition bad_bulk_len :: "server_conf \<Rightarrow> client \<Rightarrow> u64 option \<Rightarrow> bool" where
  "bad_bulk_len sv c ll \<longleftrightarrow>
     ll = None \<or> sint (the ll) < 0 \<or> (CLIENT_MASTER \<notin> flags c \<and> sint (the ll) > proto_max_bulk_len sv)"

lemma read_bulk_len_line:
  assumes "buf_ok c" "bulklen c = -1" "unread c = a @ CR # x # b" "strchr_pos CR (unread_mem c) = Some (Some (length a))"
  shows "read_bulk_len al sv c =
    (if hd (a @ [CR]) \<noteq> CHR ''$'' then map_option Bk_error (expected_dollar al sv (hd (a @ [CR])) c)
     else if bad_bulk_len sv c (string2ll (tl a))
     then map_option Bk_error (protocol_error al sv ''Protocol error: invalid bulk length'' c)
     else Option.bind (align_big_arg al (nat (sint (the (string2ll (tl a))))) (c\<lparr>qb_pos := qb_pos c + (length a + 2)\<rparr>))
       (\<lambda>c. Some (Bk_next (c\<lparr>bulklen := sint (the (string2ll (tl a)))\<rparr>))))"
proof -
  have i: "\<not> line_incomplete c (length a)" using line_incomplete_iff [OF assms(1), of "length a"] assms(3) by simp
  have h: "load_at 0 1 (unread_mem c) = Some [hd (a @ [CR])]"
    using load_unread [OF assms(1), of 0 1] assms(3) by (cases a) auto
  show ?thesis
  proof (cases a)
    case Nil
    then show ?thesis using assms(2,4) i h by (simp add: read_bulk_len_def)
  next
    case (Cons y ys)
    have "load_at 1 (length a - 1) (unread_mem c) = Some (tl a)"
      using load_unread [OF assms(1), of 1 "length a - 1"] assms(3) Cons by simp
    then show ?thesis using assms(2,4) i h by (simp add: read_bulk_len_def bad_bulk_len_def Let_def add.assoc)
  qed
qed

text \<open>The same for the number of arguments.\<close>

lemma read_mbulk_len_none:
  assumes "buf_ok c" "argv c = []" "strchr_pos CR (unread_mem c) = Some None"
  shows "read_mbulk_len al sv c =
    (if length (unread c) > PROTO_INLINE_MAX_SIZE
     then map_option (Mb_return False) (protocol_error al sv ''Protocol error: too big mbulk count string'' c)
     else Some (Mb_return False c))"
  using assms unread_len_eq [OF assms(1)] by (simp add: read_mbulk_len_def)

lemma read_mbulk_len_wait:
  assumes "buf_ok c" "argv c = []" "unread c = a @ [CR]" "strchr_pos CR (unread_mem c) = Some (Some (length a))"
  shows "read_mbulk_len al sv c = Some (Mb_return False c)"
  using assms line_incomplete_iff [OF assms(1), of "length a"] by (simp add: read_mbulk_len_def)

definition bad_mbulk_len :: "u64 option \<Rightarrow> bool" where
  "bad_mbulk_len ll \<longleftrightarrow> ll = None \<or> sint (the ll) > 1024 * 1024"

lemma read_mbulk_len_line:
  assumes "buf_ok c" "argv c = []" "unread c = CHR ''*'' # a @ CR # x # b"
    "strchr_pos CR (unread_mem c) = Some (Some (length a + 1))"
  shows "read_mbulk_len al sv c =
    (if bad_mbulk_len (string2ll a)
     then map_option (Mb_return False) (protocol_error al sv ''Protocol error: invalid multibulk length'' c)
     else let c = c\<lparr>qb_pos := qb_pos c + (length a + 3)\<rparr>; n = nat (sint (the (string2ll a)))
          in if sint (the (string2ll a)) \<le> 0 then Some (Mb_return True c)
             else Some (Mb_continue (c\<lparr>multibulklen := n, argv := [], argv_cap := n, argv_len_sum := 0\<rparr>)))"
proof -
  have i: "\<not> line_incomplete c (length a + 1)" using line_incomplete_iff [OF assms(1), of "length a + 1"] assms(3) by simp
  have h: "load_at 0 1 (unread_mem c) = Some [CHR ''*'']" "load_at 1 (length a) (unread_mem c) = Some a"
    using load_unread [OF assms(1), of 0 1] load_unread [OF assms(1), of 1 "length a"] assms(3) by auto
  show ?thesis
    using assms(2,4) i h by (simp add: read_mbulk_len_def bad_mbulk_len_def Let_def numeral_3_eq_3)
qed

text \<open>Making a string object.\<close>

definition str_obj :: "robj \<Rightarrow> string \<Rightarrow> bool" where
  "str_obj o' t \<longleftrightarrow> ob_type o' = OBJ_STRING \<and> sdsEncodedObject o' \<and> refcount o' = 1 \<and>
     (\<exists>s. ob_ptr o' = Sds_ptr s \<and> sds_ok s \<and> text_of s = t)"

lemma str_obj_text: "str_obj o' t \<Longrightarrow> obj_text o' = t"
  by (auto simp: str_obj_def obj_text_def)

lemma createObject_str: "sds_ok s \<Longrightarrow> text_of s = t \<Longrightarrow> str_obj (createObject OBJ_STRING s) t"
  by (simp add: str_obj_def createObject_def sdsEncodedObject_def)

lemma createStringObject_correct:
  assumes "alloc_ok al" "n \<le> length t" "n < 2 ^ 63"
  shows "\<exists>o'. createStringObject al (Init t) n = Some o' \<and> str_obj o' (take n t)"
proof (cases "n \<le> 44")
  case True
  let ?s = "\<lparr>hdr_type = SDS_TYPE_8, hdr_len = n, hdr_alloc = n, buf = take n t @ [NUL]\<rparr>"
  have st: "store_at 0 (take n t) (map (al_junk al) [0..<n + 1]) = Some (take n t @ [al_junk al n])"
    using assms(2) by (simp add: store_at_def min_absorb2 drop_map)
  have "createStringObject al (Init t) n =
      Some \<lparr>ob_type = OBJ_STRING, ob_encoding = OBJ_ENCODING_EMBSTR, ob_ptr = Sds_ptr ?s, refcount = 1\<rparr>"
    using True assms(2) st
    by (simp add: createStringObject_def createEmbeddedStringObject_def load_at_Some store_at_def del: upt_Suc)
  moreover have "sds_ok ?s" "text_of ?s = take n t"
    using True assms(2) by (simp_all add: sds_ok_def sdsalloc_def text_of_def nth_append)
  ultimately show ?thesis by (auto simp: str_obj_def sdsEncodedObject_def)
next
  case False
  then show ?thesis
    using sdsnewlen_correct [OF assms(1,3,2)] createObject_str
    by (auto simp: createStringObject_def createRawStringObject_def)
qed

text \<open>Reading an argument.\<close>

definition args_ok :: "client \<Rightarrow> bool" where
  "args_ok c \<longleftrightarrow> (multibulklen c = 0 \<or> length (argv c) + multibulklen c \<le> argv_cap c) \<and>
     (\<forall>o'\<in>set (argv c). \<exists>t. str_obj o' t)"

lemma read_bulk_wait:
  "buf_ok c \<Longrightarrow> 0 \<le> bulklen c \<Longrightarrow> bulklen c < 2 ^ 60 \<Longrightarrow> length (unread c) < nat (bulklen c) + 2 \<Longrightarrow>
   read_bulk al c = Some (Bk_wait c)"
  using unread_len_eq [of c] by (simp add: read_bulk_def Let_def)

lemma sdsIncrLen_drop2:
  assumes "sds_ok q" "sdslen q = n + 2" "n \<ge> PROTO_MBULK_BIG_ARG"
  shows "\<exists>r. sdsIncrLen q (-2) = Some r \<and> sds_ok r \<and> text_of r = take n (text_of q)"
proof -
  have "hdr_type q \<noteq> SDS_TYPE_5" using assms by (auto simp: sds_ok_def sdsalloc_def sdslen_def)
  then show ?thesis using sdsIncrLen_correct [OF assms(1), of "-2"] assms(2) by (auto simp: text_of_def sdslen_def min_absorb1)
qed

lemma read_bulk_correct:
  assumes c: "buf_ok c" "args_ok c" "multibulklen c > 0" and al: "alloc_ok al"
    and n: "bulklen c = int n" "n < 2 ^ 60" "n + 2 \<le> length (unread c)"
  shows "\<exists>o' q p. str_obj o' (take n (unread c)) \<and>
    read_bulk al c = Some (Bk_next (c\<lparr>argv := argv c @ [o'], argv_len_sum := addw 64 (argv_len_sum c) n, querybuf := q, qb_pos := p,
      bulklen := -1, multibulklen := multibulklen c - 1\<rparr>)) \<and>
    buf_ok (c\<lparr>querybuf := q, qb_pos := p\<rparr>) \<and> unread (c\<lparr>querybuf := q, qb_pos := p\<rparr>) = drop (n + 2) (unread c) \<and>
    sdslen q \<le> sdslen (querybuf c)"
proof -
  have cap: "length (argv c) < argv_cap c" using c(2,3) by (auto simp: args_ok_def)
  have ul: "\<not> unread_len c < n + 2" using n(3) unread_len_eq [OF c(1)] by simp
  show ?thesis
  proof (cases "qb_pos c = 0 \<and> n \<ge> PROTO_MBULK_BIG_ARG \<and> sdslen (querybuf c) = n + 2")
    case True
    obtain r where r: "sdsIncrLen (querybuf c) (-2) = Some r" "sds_ok r" "text_of r = take n (text_of (querybuf c))"
      using sdsIncrLen_drop2 [of "querybuf c" n] True c(1) by (auto simp: buf_ok_def)
    obtain q0 where q0: "sdsnewlen al Sds_noinit (n + 2) = Some q0" "sds_ok q0"
      using i_sdsnewlen_correct [OF al, of "n + 2" Sds_noinit False] n(2) by (auto simp: sdsnewlen_def)
    obtain q where q: "sdsclear q0 = Some q" "sds_ok q" "text_of q = []" using sdsclear_correct [OF q0(2)] by blast
    have ql: "sdslen q = 0" using length_text_of [OF q(2)] q(3) by simp
    have "length (unread c) = n + 2" using True c(1) by (simp add: unread_def buf_ok_def length_text_of)
    moreover have "read_bulk al c = Some (Bk_next (c\<lparr>argv := argv c @ [createObject OBJ_STRING r], argv_len_sum := addw 64 (argv_len_sum c) n,
        querybuf := q, qb_pos := 0, bulklen := -1, multibulklen := multibulklen c - 1\<rparr>))"
      using True cap ul n r q0 q by (simp add: read_bulk_def push_arg_def Let_def)
    ultimately show ?thesis
      using createObject_str [OF r(2,3)] True q ql
      by (intro exI [of _ "createObject OBJ_STRING r"] exI [of _ q] exI [of _ 0]) (simp add: unread_def buf_ok_def)
  next
    case False
    obtain m where m: "unread_mem c = unread c @ NUL # m" using unread_mem_split [OF c(1)] by blast
    obtain o' where o: "createStringObject al (Init (unread_mem c)) n = Some o'" "str_obj o' (take n (unread c))"
      using createStringObject_correct [OF al, of n "unread_mem c"] n(2,3) m by auto
    have "read_bulk al c = Some (Bk_next (c\<lparr>argv := argv c @ [o'], argv_len_sum := addw 64 (argv_len_sum c) n,
        querybuf := querybuf c, qb_pos := qb_pos c + (n + 2), bulklen := -1, multibulklen := multibulklen c - 1\<rparr>))"
      using False cap ul n o by (auto simp: read_bulk_def push_arg_def Let_def)
    then show ?thesis using o(2) advance_correct [OF c(1) n(3)]
      by (intro exI [of _ o'] exI [of _ "querybuf c"] exI [of _ "qb_pos c + (n + 2)"]) simp
  qed
qed

section \<open>Protocol errors\<close>

lemma in_view_fields:
  assumes "in_view c' = in_view c"
  shows "querybuf c' = querybuf c" "qb_pos c' = qb_pos c" "argv c' = argv c" "argv_cap c' = argv_cap c"
    "argv_len_sum c' = argv_len_sum c" "multibulklen c' = multibulklen c" "bulklen c' = bulklen c" "reqtype c' = reqtype c"
  using arg_cong [OF assms, of querybuf] arg_cong [OF assms, of qb_pos] arg_cong [OF assms, of argv] arg_cong [OF assms, of argv_cap] arg_cong [OF assms, of argv_len_sum] arg_cong [OF assms, of multibulklen] arg_cong [OF assms, of bulklen] arg_cong [OF assms, of reqtype]
  by (simp_all add: in_view_def)

text \<open>The client after a protocol error: the input side is as before, and the connection is going to be closed.\<close>

definition errored :: "client \<Rightarrow> client \<Rightarrow> bool" where
  "errored c c' \<longleftrightarrow> out_ok c' \<and> in_view c' = in_view c \<and> {CLIENT_CLOSE_AFTER_REPLY, CLIENT_PROTOCOL_ERROR} \<subseteq> flags c'"

definition error_room :: "allocator \<Rightarrow> client \<Rightarrow> bool" where
  "error_room al c \<longleftrightarrow> alloc_fit al \<and> out_ok c \<and> reply_bytes c + 200000 < 2 ^ 63"

lemma errored_set: "out_ok c' \<Longrightarrow> in_view c' = in_view c \<Longrightarrow> errored c (setProtocolError c')"
  by (auto simp: errored_def setProtocolError_def set_flags_def in_view_def)

lemma addReplyErrorLength_correct:
  assumes "error_room al c" "length s \<le> 100"
  shows "\<exists>c'. addReplyErrorLength al sv c s = Some c' \<and> out_ok c' \<and> in_view c' = in_view c"
proof -
  have e: "addReplyErrorLength al sv c s = puts (addReplyProto al sv) c (pieces (resp c) (Rv_error s))"
    by (simp add: addReplyErrorLength_def bind_Some_right)
  have "sum_list (map (\<lambda>s. reply_cost (length s)) (pieces (resp c) (Rv_error s))) \<le> 2 * length (render (resp c) (Rv_error s)) + 98496"
    by (rule length_pieces)
  also have "\<dots> \<le> 200000" using assms(2) by simp
  finally show ?thesis
    using out_sink.puts_correct [where al = al and sv = sv and w = "in_view c", of c "pieces (resp c) (Rv_error s)"] assms(1)
    unfolding e error_room_def by auto
qed

lemma protocol_error_correct:
  assumes "error_room al c" "NUL \<notin> set msg" "length msg \<le> 100"
  shows "\<exists>c'. protocol_error al sv msg c = Some c' \<and> errored c c'"
  using addReplyErrorLength_correct [OF assms(1,3), of sv] errored_set strlen_eq [OF assms(2)]
  by (fastforce simp: protocol_error_def addReplyError_def)

lemma expected_dollar_correct:
  assumes "error_room al c" "ch \<noteq> NUL"
  shows "\<exists>c'. expected_dollar al sv ch c = Some c' \<and> errored c c'"
proof -
  let ?t = "''Protocol error: expected '' @ [CHR 0x27, CHR ''$'', CHR 0x27] @ '', got '' @ [CHR 0x27, ch, CHR 0x27]"
  have al: "alloc_ok al" using assms(1) by (simp add: error_room_def alloc_fit_def)
  obtain e where e: "sdsempty al = Some e" "sds_ok e" "text_of e = []" using sdsempty_correct [OF al] by blast
  have l: "sdslen e = 0" using e length_text_of [of e] by simp
  obtain s where s: "sdscat al e ?t = Some s" "sds_ok s" "text_of s = ?t"
    using sdscat_correct [OF e(2) al, of ?t] e(3) l assms(2) by auto
  obtain s1 where s1: "sdstrim s [CR, LF] = Some s1" "sds_ok s1"
    "text_of s1 = rev (dropWhile (strchr [CR, LF]) (rev (dropWhile (strchr [CR, LF]) (text_of s))))"
    using sdstrim_correct [OF s(2)] by blast
  have "length (text_of s1) \<le> length (text_of s)"
    using length_dropWhile_le [of "strchr [CR, LF]" "rev (dropWhile (strchr [CR, LF]) (text_of s))"]
      length_dropWhile_le [of "strchr [CR, LF]" "text_of s"] unfolding s1(3) by simp
  moreover have "length (text_of s) \<le> 100" unfolding s(3) by simp
  ultimately have l1: "length (text_of s1) \<le> 100" by linarith
  define s2 where "s2 = sdsmapchars s1 [CR, LF] ''  '' 2"
  have s2: "sds_ok s2" "length (text_of s2) \<le> 100"
    using change_prefix [OF s1(2), of "mapchar [CR, LF] ''  '' 2 0"] l1
    unfolding s2_def sdsmapchars_def by (simp_all del: mapchar.simps)
  have "load_at 0 (sdslen s2) (buf s2) = Some (text_of s2)" using s2(1) by (simp add: load_at_def sds_ok_def sdslen_def text_of_def)
  then show ?thesis
    using addReplyErrorLength_correct [OF assms(1) s2(2), of sv] errored_set e s s1
    by (fastforce simp: expected_dollar_def addReplyErrorFormat_def addReplyErrorSds_def s2_def [symmetric])
qed

end
