(* ===== verification/Query_Roundtrip.thy ===== *)
theory Query_Roundtrip
  imports Query_Correct
begin

text \<open>
  The RESP parser on the encoding of a list of arguments. The parser may be called on any prefix
  of the input; its state then says which part of the encoding it still expects.
\<close>

section \<open>The encoding and the state of the parser\<close>

definition encode :: "string list \<Rightarrow> string" where
  "encode xs = CHR ''*'' # dec (length xs) @ [CR, LF] @ concat (map render_bulk xs)"

definition cmd_ok :: "server_conf \<Rightarrow> string list \<Rightarrow> bool" where
  "cmd_ok sv xs \<longleftrightarrow> xs \<noteq> [] \<and> length xs \<le> 1024 * 1024 \<and> sum_list (map length xs) < 2 ^ 60 \<and>
     (\<forall>y\<in>set xs. int (length y) \<le> proto_max_bulk_len sv)"

definition in_args :: "client \<Rightarrow> string list \<Rightarrow> string list \<Rightarrow> bool" where
  "in_args c ds ys \<longleftrightarrow> list_all2 str_obj (argv c) ds \<and> multibulklen c = length ys \<and>
     argv_cap c = length ds + length ys \<and> argv_len_sum c = sum_list (map length ds)"

definition expects :: "string list \<Rightarrow> client \<Rightarrow> string \<Rightarrow> bool" where
  "expects xs c e \<longleftrightarrow> buf_ok c \<and>
     (multibulklen c = 0 \<and> argv c = [] \<and> bulklen c = -1 \<and> e = encode xs \<or>
      (\<exists>ds ys. xs = ds @ ys \<and> ys \<noteq> [] \<and> in_args c ds ys \<and> bulklen c = -1 \<and> e = concat (map render_bulk ys)) \<or>
      (\<exists>ds y ys. xs = ds @ y # ys \<and> in_args c ds (y # ys) \<and> bulklen c = int (length y) \<and>
         e = y @ [CR, LF] @ concat (map render_bulk ys)))"

text \<open>The fields the parsers do not touch.\<close>

definition parse_view :: "client \<Rightarrow> client" where
  "parse_view c = c\<lparr>querybuf := \<lparr>hdr_type = SDS_TYPE_5, hdr_len = 0, hdr_alloc = 0, buf = []\<rparr>, qb_pos := 0, argv := [],
     argv_cap := 0, argv_len_sum := 0, multibulklen := 0, bulklen := 0, repl_ack_time := 0\<rparr>"

lemma parse_view_updates [simp]:
  "parse_view (c\<lparr>querybuf := q\<rparr>) = parse_view c" "parse_view (c\<lparr>qb_pos := p\<rparr>) = parse_view c"
  "parse_view (c\<lparr>argv := as\<rparr>) = parse_view c" "parse_view (c\<lparr>argv_cap := k\<rparr>) = parse_view c"
  "parse_view (c\<lparr>argv_len_sum := l\<rparr>) = parse_view c" "parse_view (c\<lparr>multibulklen := m\<rparr>) = parse_view c"
  "parse_view (c\<lparr>bulklen := b\<rparr>) = parse_view c" "parse_view (c\<lparr>repl_ack_time := t\<rparr>) = parse_view c"
  by (simp_all add: parse_view_def)

text \<open>\<open>u\<close> is what has arrived of \<open>e @ rest\<close>; \<open>v\<close> is still to come, and only then \<open>rest\<close> is empty.\<close>

definition arrived :: "string \<Rightarrow> string \<Rightarrow> string \<Rightarrow> string \<Rightarrow> bool" where
  "arrived e rest u v \<longleftrightarrow> e @ rest = u @ v \<and> (v = [] \<or> rest = [])"

lemma arrived_split:
  assumes "arrived (h @ e) rest u v"
  obtains (part) w where "h = u @ w" "w \<noteq> []" "v = w @ e" "rest = []"
  | (whole) u' where "u = h @ u'" "arrived e rest u' v"
proof (cases "length u < length h")
  case True
  have e: "h @ (e @ rest) = u @ v" using assms by (simp add: arrived_def)
  then obtain w where w: "h = u @ w" using True by (metis append_eq_append_conv_if append_take_drop_id less_imp_le_nat)
  have "w \<noteq> []" using w True by auto
  moreover have "v = w @ e @ rest" using e w by simp
  ultimately show ?thesis using part [of w] w assms by (auto simp: arrived_def)
next
  case False
  have e: "h @ (e @ rest) = u @ v" using assms by (simp add: arrived_def)
  then obtain u' where u: "u = h @ u'" using False by (metis append_eq_append_conv_if append_take_drop_id not_less)
  then show ?thesis using whole [of u'] e assms by (auto simp: arrived_def)
qed

section \<open>Lines\<close>

lemma dec_plain: "CR \<notin> set (dec n)" "NUL \<notin> set (dec n)"
proof -
  have "\<not> is_dec_digit CR" by (simp add: is_dec_digit_iff ccode_def)
  then show "CR \<notin> set (dec n)" using dec_digits by blast
qed (rule NUL_dec)

text \<open>A line that has not arrived completely is waited for.\<close>

lemma partial_line:
  assumes "buf_ok c" "a @ [CR, LF] = unread c @ w" "w \<noteq> []" "CR \<notin> set a" "NUL \<notin> set a"
  obtains (none) "strchr_pos CR (unread_mem c) = Some None" "length (unread c) \<le> length a"
  | (cr) "unread c = a @ [CR]" "strchr_pos CR (unread_mem c) = Some (Some (length a))"
proof -
  obtain r where r: "unread_mem c = unread c @ NUL # r" using unread_mem_split [OF assms(1)] by blast
  have "length (unread c) \<le> Suc (length a)" using arg_cong [OF assms(2), of length] assms(3) by (cases w) auto
  then consider "length (unread c) \<le> length a" | "length (unread c) = Suc (length a)" by linarith
  then show ?thesis
  proof cases
    case 1
    then obtain w' where w: "a = unread c @ w'" using assms(2) by (metis append_eq_append_conv_if append_take_drop_id)
    then have "CR \<notin> set (takeWhile (\<lambda>x. x \<noteq> NUL) (unread c))" using assms(4) by (auto dest: set_takeWhileD)
    then show ?thesis using none strchr_pos_missing [of CR "unread c" r] r 1 by simp
  next
    case 2
    have "unread c @ w = (a @ [CR]) @ [LF]" using assms(2) by simp
    then have "unread c = a @ [CR]" using 2 by (metis append_eq_append_conv length_append_singleton)
    then show ?thesis using cr strchr_pos_found [OF assms(4,5), of "NUL # r"] r by simp
  qed
qed

lemma whole_line:
  assumes "buf_ok c" "unread c = a @ CR # LF # u" "CR \<notin> set a" "NUL \<notin> set a"
  shows "strchr_pos CR (unread_mem c) = Some (Some (length a))"
  using strchr_pos_found [OF assms(3,4)] unread_mem_split [OF assms(1)] assms(2) by auto

lemma string2ll_dec: "n < 2 ^ 63 \<Longrightarrow> string2ll (dec n) = Some (of_nat n)"
  using string2ll_iff [of "dec n" "of_nat n"] dec_int_of_nat [of n] by simp

lemma length_dec_less: "n < 2 ^ 63 \<Longrightarrow> length (dec n) \<le> 20"
  using length_dec_int [of "of_nat n"] dec_int_of_nat [of n] by simp

section \<open>The phases of the parser\<close>

lemma buf_ok_updates [simp]:
  "buf_ok (c\<lparr>argv := as\<rparr>) = buf_ok c" "buf_ok (c\<lparr>argv_cap := k\<rparr>) = buf_ok c" "buf_ok (c\<lparr>argv_len_sum := l\<rparr>) = buf_ok c"
  "buf_ok (c\<lparr>multibulklen := m\<rparr>) = buf_ok c" "buf_ok (c\<lparr>bulklen := b\<rparr>) = buf_ok c" "buf_ok (c\<lparr>reqtype := r\<rparr>) = buf_ok c"
  by (simp_all add: buf_ok_def)

lemma unread_updates [simp]:
  "unread (c\<lparr>argv := as\<rparr>) = unread c" "unread (c\<lparr>argv_cap := k\<rparr>) = unread c" "unread (c\<lparr>argv_len_sum := l\<rparr>) = unread c"
  "unread (c\<lparr>multibulklen := m\<rparr>) = unread c" "unread (c\<lparr>bulklen := b\<rparr>) = unread c" "unread (c\<lparr>reqtype := r\<rparr>) = unread c"
  by (simp_all add: unread_def)

lemma skip_prefix:
  assumes "buf_ok c" "unread c = h @ u" "length h = k"
  shows "buf_ok (c\<lparr>qb_pos := qb_pos c + k\<rparr>) \<and> unread (c\<lparr>qb_pos := qb_pos c + k\<rparr>) = u"
  using advance_correct [OF assms(1), of k] assms(2,3) by simp

text \<open>The number of arguments.\<close>

lemma phase_count:
  assumes c: "buf_ok c" "multibulklen c = 0" "argv c = []" and xs: "cmd_ok sv xs" and a: "arrived (encode xs) rest (unread c) v"
  shows "read_mbulk_len al sv c = Some (Mb_return False c) \<and> v \<noteq> [] \<or>
    (\<exists>c'. read_mbulk_len al sv c = Some (Mb_continue c') \<and> buf_ok c' \<and> in_args c' [] xs \<and> bulklen c' = bulklen c \<and>
      arrived (concat (map render_bulk xs)) rest (unread c') v \<and> parse_view c' = parse_view c)"
proof -
  define n where "n = length xs"
  let ?a = "CHR ''*'' # dec n"
  have n: "0 < n" "n \<le> 1024 * 1024" using xs by (auto simp: n_def cmd_ok_def)
  have n63: "n < 2 ^ 63" using n(2) by simp
  have pl: "CR \<notin> set ?a" "NUL \<notin> set ?a" using dec_plain [of n] by auto
  have "arrived ((?a @ [CR, LF]) @ concat (map render_bulk xs)) rest (unread c) v" using a by (simp add: encode_def n_def)
  then show ?thesis
  proof (cases rule: arrived_split)
    case (part w)
    have l: "length ?a \<le> 21" using length_dec_less [OF n63] by simp
    have "read_mbulk_len al sv c = Some (Mb_return False c)"
      using c(1) part(1,2) pl
    proof (cases rule: partial_line)
      case none
      then show ?thesis using read_mbulk_len_none [OF c(1,3) none(1), of al sv] l by simp
    next
      case cr
      then show ?thesis using read_mbulk_len_wait [OF c(1,3)] by blast
    qed
    then show ?thesis using part by simp
  next
    case (whole u')
    have u: "unread c = CHR ''*'' # dec n @ CR # LF # u'" using whole(1) by simp
    have s: "strchr_pos CR (unread_mem c) = Some (Some (length (dec n) + 1))" using whole_line [OF c(1) _ pl, of u'] u by simp
    have ll: "string2ll (dec n) = Some (of_nat n)" "sint (of_nat n :: u64) = int n"
      using string2ll_dec [OF n63] sint_of_nat_u64 [OF n63] by auto
    let ?c = "c\<lparr>qb_pos := qb_pos c + (length (dec n) + 3)\<rparr>"
    have e: "read_mbulk_len al sv c = Some (Mb_continue (?c\<lparr>multibulklen := n, argv := [], argv_cap := n, argv_len_sum := 0\<rparr>))"
      using read_mbulk_len_line [OF c(1,3) u s, of al sv] ll n by (simp add: bad_mbulk_len_def Let_def)
    have "buf_ok ?c" "unread ?c = u'"
      using skip_prefix [OF c(1) whole(1), of "length (dec n) + 3"] by simp_all
    then show ?thesis using e whole(2) by (auto simp: in_args_def n_def)
  qed
qed

text \<open>The length of an argument.\<close>

lemma phase_length:
  assumes c: "buf_ok c" "in_args c ds (y # ys)" "bulklen c = -1" and al: "alloc_ok al"
    and y: "length y < 2 ^ 60" "int (length y) \<le> proto_max_bulk_len sv"
    and a: "arrived (render_bulk y @ R) rest (unread c) v"
  shows "read_bulk_len al sv c = Some (Bk_wait c) \<and> v \<noteq> [] \<or>
    (\<exists>c'. read_bulk_len al sv c = Some (Bk_next c') \<and> buf_ok c' \<and> in_args c' ds (y # ys) \<and> bulklen c' = int (length y) \<and>
      arrived (y @ [CR, LF] @ R) rest (unread c') v \<and> parse_view c' = parse_view c)"
proof -
  define n where "n = length y"
  let ?a = "CHR ''$'' # dec n"
  have n63: "n < 2 ^ 63" using y(1) by (simp add: n_def)
  have pl: "CR \<notin> set ?a" "NUL \<notin> set ?a" using dec_plain [of n] by auto
  have "arrived ((?a @ [CR, LF]) @ (y @ [CR, LF] @ R)) rest (unread c) v" using a by (simp add: render_bulk_def n_def)
  then show ?thesis
  proof (cases rule: arrived_split)
    case (part w)
    have l: "length ?a \<le> 21" using length_dec_less [OF n63] by simp
    have "read_bulk_len al sv c = Some (Bk_wait c)"
      using c(1) part(1,2) pl
    proof (cases rule: partial_line)
      case none
      then show ?thesis using read_bulk_len_none [OF c(1,3) none(1), of al sv] l by simp
    next
      case cr
      then show ?thesis using read_bulk_len_wait [OF c(1,3)] by blast
    qed
    then show ?thesis using part by simp
  next
    case (whole u')
    have u: "unread c = ?a @ CR # LF # u'" using whole(1) by simp
    have s: "strchr_pos CR (unread_mem c) = Some (Some (length ?a))" using whole_line [OF c(1) u pl] .
    have ll: "string2ll (dec n) = Some (of_nat n)" "sint (of_nat n :: u64) = int n"
      using string2ll_dec [OF n63] sint_of_nat_u64 [OF n63] by auto
    let ?c = "c\<lparr>qb_pos := qb_pos c + (length ?a + 2)\<rparr>"
    have b: "buf_ok ?c" "unread ?c = u'" using skip_prefix [OF c(1) whole(1), of "length ?a + 2"] by simp_all
    have "n < 2 ^ 60" using y(1) by (simp add: n_def)
    then obtain q p where q: "align_big_arg al n ?c = Some (?c\<lparr>querybuf := q, qb_pos := p\<rparr>)" "buf_ok (?c\<lparr>querybuf := q, qb_pos := p\<rparr>)"
      "unread (?c\<lparr>querybuf := q, qb_pos := p\<rparr>) = u'"
      using align_correct [OF b(1) al, of n] b(2) by blast
    have "read_bulk_len al sv c = Some (Bk_next (?c\<lparr>querybuf := q, qb_pos := p, bulklen := int n\<rparr>))"
      using read_bulk_len_line [OF c(1,3) u s, of al sv] ll q(1) y(2) by (simp add: bad_bulk_len_def n_def)
    then show ?thesis using q(2,3) whole(2) c(2) by (auto simp: in_args_def n_def)
  qed
qed

text \<open>An argument.\<close>

lemma phase_argument:
  assumes c: "buf_ok c" "in_args c ds (y # ys)" "bulklen c = int (length y)" and al: "alloc_ok al"
    and y: "length y < 2 ^ 60" "sum_list (map length ds) + length y < 2 ^ 60"
    and a: "arrived (y @ [CR, LF] @ R) rest (unread c) v"
  shows "read_bulk al c = Some (Bk_wait c) \<and> v \<noteq> [] \<or>
    (\<exists>c'. read_bulk al c = Some (Bk_next c') \<and> buf_ok c' \<and> in_args c' (ds @ [y]) ys \<and> bulklen c' = -1 \<and>
      arrived R rest (unread c') v \<and> parse_view c' = parse_view c)"
proof -
  have "arrived ((y @ [CR, LF]) @ R) rest (unread c) v" using a by simp
  then show ?thesis
  proof (cases rule: arrived_split)
    case (part w)
    have "length (unread c) < length y + 2" using arg_cong [OF part(1), of length] part(2) by (cases w) auto
    then have "read_bulk al c = Some (Bk_wait c)" using read_bulk_wait [OF c(1)] c(3) y(1) by simp
    then show ?thesis using part by simp
  next
    case (whole u')
    have "\<exists>t. str_obj o' t" if "o' \<in> set (argv c)" for o'
      using c(2) that unfolding in_args_def by (metis in_set_conv_nth list_all2_conv_all_nth)
    then have k: "args_ok c" "multibulklen c > 0"
      using c(2) by (auto simp: args_ok_def in_args_def dest: list_all2_lengthD)
    have l: "length y + 2 \<le> length (unread c)" using whole(1) by simp
    have t: "take (length y) (unread c) = y" "drop (length y + 2) (unread c) = u'" using whole(1) by simp_all
    obtain o' q p where o: "str_obj o' y"
      "read_bulk al c = Some (Bk_next (c\<lparr>argv := argv c @ [o'], argv_len_sum := addw 64 (argv_len_sum c) (length y), querybuf := q, qb_pos := p,
        bulklen := -1, multibulklen := multibulklen c - 1\<rparr>))"
      "buf_ok (c\<lparr>querybuf := q, qb_pos := p\<rparr>)" "unread (c\<lparr>querybuf := q, qb_pos := p\<rparr>) = u'"
      using read_bulk_correct [OF c(1) k al c(3) y(1) l] t by auto
    have s: "addw 64 (argv_len_sum c) (length y) = sum_list (map length ds) + length y"
      using c(2) y(2) by (simp add: in_args_def addw_small)
    have "buf_ok (c\<lparr>argv := argv c @ [o'], argv_len_sum := addw 64 (argv_len_sum c) (length y), querybuf := q, qb_pos := p,
        bulklen := -1, multibulklen := multibulklen c - 1\<rparr>)"
      "unread (c\<lparr>argv := argv c @ [o'], argv_len_sum := addw 64 (argv_len_sum c) (length y), querybuf := q, qb_pos := p,
        bulklen := -1, multibulklen := multibulklen c - 1\<rparr>) = u'"
      using o(3,4) by (simp_all add: buf_ok_def unread_def)
    then show ?thesis using o(1,2) whole(2) c(2) s by (auto simp: in_args_def intro: list_all2_appendI)
  qed
qed

section \<open>Whole requests\<close>

text \<open>
  The result of a call: the request is complete and the arguments are there, or the parser waits
  in a state in which it expects what is still to come.
\<close>

definition parse_result :: "string list \<Rightarrow> string \<Rightarrow> string \<Rightarrow> client \<Rightarrow> bool \<Rightarrow> client \<Rightarrow> bool" where
  "parse_result xs rest v c b c' \<longleftrightarrow> parse_view c' = parse_view c \<and> buf_ok c' \<and>
     (if b then v = [] \<and> in_args c' xs [] \<and> bulklen c' = -1 \<and> unread c' = rest
      else v \<noteq> [] \<and> expects xs c' (unread c' @ v))"

lemma arrived_wait: "arrived e rest u v \<Longrightarrow> v \<noteq> [] \<Longrightarrow> e = u @ v"
  by (auto simp: arrived_def)

lemma cmd_ok_part: "cmd_ok sv (ds @ y # ys) \<Longrightarrow>
   length y < 2 ^ 60 \<and> sum_list (map length ds) + length y < 2 ^ 60 \<and> int (length y) \<le> proto_max_bulk_len sv"
  by (simp add: cmd_ok_def)

lemma parse_result_trans: "parse_view c' = parse_view c \<Longrightarrow> parse_result xs rest v c' b d \<Longrightarrow> parse_result xs rest v c b d"
  by (simp add: parse_result_def)

lemma expects_lenI:
  "buf_ok c \<Longrightarrow> ys \<noteq> [] \<Longrightarrow> in_args c ds ys \<Longrightarrow> bulklen c = -1 \<Longrightarrow> expects (ds @ ys) c (concat (map render_bulk ys))"
  unfolding expects_def by blast

lemma expects_argI:
  "buf_ok c \<Longrightarrow> in_args c ds (y # ys) \<Longrightarrow> bulklen c = int (length y) \<Longrightarrow>
   expects (ds @ y # ys) c (y @ [CR, LF] @ concat (map render_bulk ys))"
  unfolding expects_def by blast

lemma bulk_arg:
  assumes c: "buf_ok c" "in_args c ds (y # ys)" "bulklen c = int (length y)" and al: "alloc_ok al" and xs: "cmd_ok sv (ds @ y # ys)"
    and a: "arrived (y @ [CR, LF] @ concat (map render_bulk ys)) rest (unread c) v"
    and loop: "\<And>c'. buf_ok c' \<Longrightarrow> in_args c' (ds @ [y]) ys \<Longrightarrow> bulklen c' = -1 \<Longrightarrow>
      arrived (concat (map render_bulk ys)) rest (unread c') v \<Longrightarrow>
      \<exists>b d. bulk_loop al sv c' = Some (b, d) \<and> parse_result (ds @ y # ys) rest v c' b d"
  shows "\<exists>b d. Option.bind (read_bulk al c) (\<lambda>r. case r of Bk_error c \<Rightarrow> Some (False, c) | Bk_wait c \<Rightarrow> Some (False, c)
      | Bk_next c \<Rightarrow> bulk_loop al sv c) = Some (b, d) \<and> parse_result (ds @ y # ys) rest v c b d"
proof -
  have y: "length y < 2 ^ 60" "sum_list (map length ds) + length y < 2 ^ 60" using cmd_ok_part [OF xs] by auto
  consider (wait) "read_bulk al c = Some (Bk_wait c)" "v \<noteq> []"
    | (more) c' where "read_bulk al c = Some (Bk_next c')" "buf_ok c'" "in_args c' (ds @ [y]) ys" "bulklen c' = -1"
        "arrived (concat (map render_bulk ys)) rest (unread c') v" "parse_view c' = parse_view c"
    using phase_argument [OF c al y a] by blast
  then show ?thesis
  proof cases
    case wait
    have "expects (ds @ y # ys) c (unread c @ v)"
      using expects_argI [OF c] arrived_wait [OF a wait(2)] by simp
    then show ?thesis using wait c(1) by (auto simp: parse_result_def)
  next
    case more
    obtain b d where "bulk_loop al sv c' = Some (b, d)" "parse_result (ds @ y # ys) rest v c' b d"
      using loop [OF more(2-5)] by blast
    then show ?thesis using more(1) parse_result_trans [OF more(6)] by simp
  qed
qed

lemma bulk_loop_correct:
  assumes "buf_ok c" "in_args c ds ys" "bulklen c = -1" and al: "alloc_ok al" and "cmd_ok sv (ds @ ys)"
    and "arrived (concat (map render_bulk ys)) rest (unread c) v"
  shows "\<exists>b d. bulk_loop al sv c = Some (b, d) \<and> parse_result (ds @ ys) rest v c b d"
  using assms(1-3,5,6)
proof (induction ys arbitrary: c ds)
  case Nil
  then have "v = []" "unread c = rest" by (auto simp: arrived_def)
  moreover have "bulk_loop al sv c = Some (True, c)" using Nil.prems(2) by (subst bulk_loop.simps) (simp add: in_args_def)
  ultimately show ?case using Nil.prems by (auto simp: parse_result_def)
next
  case (Cons y ys)
  have y: "length y < 2 ^ 60" "int (length y) \<le> proto_max_bulk_len sv" using cmd_ok_part [OF Cons.prems(4)] by auto
  have m: "multibulklen c \<noteq> 0" using Cons.prems(2) by (simp add: in_args_def)
  have a: "arrived (render_bulk y @ concat (map render_bulk ys)) rest (unread c) v" using Cons.prems(5) by simp
  consider (wait) "read_bulk_len al sv c = Some (Bk_wait c)" "v \<noteq> []"
    | (more) c' where "read_bulk_len al sv c = Some (Bk_next c')" "buf_ok c'" "in_args c' ds (y # ys)" "bulklen c' = int (length y)"
        "arrived (y @ [CR, LF] @ concat (map render_bulk ys)) rest (unread c') v" "parse_view c' = parse_view c"
    using phase_length [OF Cons.prems(1-3) al y a] by blast
  then show ?case
  proof cases
    case wait
    have "expects (ds @ y # ys) c (unread c @ v)"
      using expects_lenI [OF Cons.prems(1) _ Cons.prems(2,3)] arrived_wait [OF Cons.prems(5) wait(2)] by simp
    then show ?thesis using wait m Cons.prems(1) by (subst bulk_loop.simps) (auto simp: parse_result_def)
  next
    case more
    obtain b d where "Option.bind (read_bulk al c') (\<lambda>r. case r of Bk_error c \<Rightarrow> Some (False, c) | Bk_wait c \<Rightarrow> Some (False, c)
      | Bk_next c \<Rightarrow> bulk_loop al sv c) = Some (b, d)" "parse_result (ds @ y # ys) rest v c' b d"
      using bulk_arg [OF more(2,3,4) al Cons.prems(4) more(5)] Cons.IH [of _ "ds @ [y]"] Cons.prems(4) by auto
    then show ?thesis using m more(1) parse_result_trans [OF more(6)] by (subst bulk_loop.simps) auto
  qed
qed

lemma expects_cases:
  assumes "expects xs c e"
  obtains (start) "multibulklen c = 0" "argv c = []" "bulklen c = -1" "e = encode xs"
    | (len) ds ys where "xs = ds @ ys" "ys \<noteq> []" "in_args c ds ys" "bulklen c = -1" "e = concat (map render_bulk ys)"
    | (arg) ds y ys where "xs = ds @ y # ys" "in_args c ds (y # ys)" "bulklen c = int (length y)" "e = y @ [CR, LF] @ concat (map render_bulk ys)"
  using assms unfolding expects_def by (elim conjE disjE exE) (rule start len arg; assumption)+

lemma processMultibulkBuffer_correct:
  assumes e: "expects xs c e" and al: "alloc_ok al" and xs: "cmd_ok sv xs" and a: "arrived e rest (unread c) v"
  shows "\<exists>b d. processMultibulkBuffer al sv c = Some (b, d) \<and> parse_result xs rest v c b d"
proof -
  have c: "buf_ok c" using e by (simp add: expects_def)
  show ?thesis
    using e
  proof (cases rule: expects_cases)
    case start
    consider (wait) "read_mbulk_len al sv c = Some (Mb_return False c)" "v \<noteq> []"
      | (more) c' where "read_mbulk_len al sv c = Some (Mb_continue c')" "buf_ok c'" "in_args c' [] xs" "bulklen c' = bulklen c"
          "arrived (concat (map render_bulk xs)) rest (unread c') v" "parse_view c' = parse_view c"
      using phase_count [OF c start(1,2) xs] a start(4) by blast
    then show ?thesis
    proof cases
      case wait
      then show ?thesis using start c e arrived_wait [OF a] by (auto simp: processMultibulkBuffer_def parse_result_def)
    next
      case more
      obtain b d where "bulk_loop al sv c' = Some (b, d)" "parse_result xs rest v c' b d"
        using bulk_loop_correct [OF more(2,3) _ al, of sv rest v] more(4,5) start(3) xs by auto
      moreover have "multibulklen c' > 0" using more(3) xs by (simp add: in_args_def cmd_ok_def)
      ultimately show ?thesis using start(1) more(1) parse_result_trans [OF more(6)] by (simp add: processMultibulkBuffer_def)
    qed
  next
    case (len ds ys)
    have m: "multibulklen c > 0" using len(2,3) by (simp add: in_args_def)
    show ?thesis using bulk_loop_correct [OF c len(3,4) al, of sv rest v] len(1,5) xs a m by (simp add: processMultibulkBuffer_def)
  next
    case (arg ds y ys)
    have m: "multibulklen c > 0" "bulklen c \<noteq> -1" using arg(2,3) by (simp_all add: in_args_def)
    obtain b d where "Option.bind (read_bulk al c) (\<lambda>r. case r of Bk_error c \<Rightarrow> Some (False, c) | Bk_wait c \<Rightarrow> Some (False, c)
      | Bk_next c \<Rightarrow> bulk_loop al sv c) = Some (b, d)" "parse_result (ds @ y # ys) rest v c b d"
      using bulk_arg [OF c arg(2,3) al, of sv rest v] xs a arg(1,4)
        bulk_loop_correct [where ds = "ds @ [y]" and ys = ys and al = al and sv = sv and rest = rest and v = v, OF _ _ _ al]
      by auto
    then show ?thesis using m arg(1) read_bulk_len_known [OF m(2)]
      by (simp add: processMultibulkBuffer_def bulk_loop.simps [of al sv c])
  qed
qed

end
