(* ===== verification/Query_Safe.thy ===== *)
theory Query_Safe
  imports Query_Roundtrip
begin

text \<open>
  The parsers on arbitrary input: they have a defined result, so no assertion fails and nothing
  outside a buffer or the argument array is accessed, and they keep the invariant of the client.
  A rejected request only sets the flags that close the connection and adds an error reply.
\<close>

section \<open>RESP requests\<close>

definition query_ok :: "client \<Rightarrow> bool" where
  "query_ok c \<longleftrightarrow> buf_ok c \<and> args_ok c \<and> (bulklen c = -1 \<or> 0 \<le> bulklen c \<and> bulklen c < 2 ^ 60)"

lemma view_out:
  assumes "parse_view c' = parse_view c"
  shows "out_ok c' = out_ok c" "flags c' = flags c" "reply_bytes c' = reply_bytes c" "error_room al c' = error_room al c"
    "reqtype c' = reqtype c" "in_view (parse_view c') = in_view (parse_view c)"
proof -
  have o: "out_ok (parse_view x) = out_ok x" for x by (simp add: parse_view_def out_ok_def head_len_def)
  show "out_ok c' = out_ok c" using o [of c] o [of c'] assms by simp
  show f: "flags c' = flags c" and r: "reply_bytes c' = reply_bytes c" and "reqtype c' = reqtype c"
    using arg_cong [OF assms, of flags] arg_cong [OF assms, of reply_bytes] arg_cong [OF assms, of reqtype]
    by (simp_all add: parse_view_def)
  show "error_room al c' = error_room al c" using o [of c] o [of c'] assms r by (simp add: error_room_def)
  show "in_view (parse_view c') = in_view (parse_view c)" using assms by simp
qed

lemma query_ok_view: "in_view c' = in_view c \<Longrightarrow> query_ok c' = query_ok c"
  using in_view_fields [of c' c] by (simp add: query_ok_def buf_ok_def args_ok_def)

definition safe_result :: "client \<Rightarrow> bool \<Rightarrow> client \<Rightarrow> bool" where
  "safe_result c b c' \<longleftrightarrow> query_ok c' \<and> out_ok c' \<and> (b \<longrightarrow> multibulklen c' = 0) \<and>
     (parse_view c' = parse_view c \<or>
      \<not> b \<and> in_view (parse_view c') = in_view (parse_view c) \<and> {CLIENT_CLOSE_AFTER_REPLY, CLIENT_PROTOCOL_ERROR} \<subseteq> flags c')"

lemma safe_trans: "parse_view c' = parse_view c \<Longrightarrow> safe_result c' b d \<Longrightarrow> safe_result c b d"
  by (auto simp: safe_result_def)

lemma in_parse_view: "in_view c' = in_view c \<Longrightarrow> in_view (parse_view c') = in_view (parse_view c)"
proof -
  have "in_view (parse_view x) = parse_view (in_view x)" for x by (simp add: in_view_def parse_view_def)
  then show "in_view c' = in_view c \<Longrightarrow> ?thesis" by simp
qed

lemma safe_errored: "query_ok c \<Longrightarrow> errored c c' \<Longrightarrow> safe_result c False c'"
  using in_parse_view [of c' c] query_ok_view [of c' c] by (auto simp: safe_result_def errored_def)

lemma read_bulk_len_total:
  assumes c: "query_ok c" and room: "error_room al c" and lim: "CLIENT_MASTER \<notin> flags c" "proto_max_bulk_len sv < 2 ^ 60"
  shows "\<exists>r. read_bulk_len al sv c = Some r \<and>
    (case r of Bk_error c' \<Rightarrow> errored c c' | Bk_wait c' \<Rightarrow> c' = c
     | Bk_next c' \<Rightarrow> query_ok c' \<and> parse_view c' = parse_view c \<and> 0 \<le> bulklen c' \<and> multibulklen c' = multibulklen c)"
proof (cases "bulklen c = -1")
  case False
  then show ?thesis using c read_bulk_len_known [OF False] by (auto simp: query_ok_def)
next
  case True
  have b: "buf_ok c" using c by (simp add: query_ok_def)
  have al: "alloc_ok al" using room by (simp add: error_room_def alloc_fit_def)
  note err = protocol_error_correct [OF room, of _ sv]
  obtain e1 where e1: "protocol_error al sv ''Protocol error: too big bulk count string'' c = Some e1" "errored c e1"
    using err [of "''Protocol error: too big bulk count string''"] by auto
  obtain e2 where e2: "protocol_error al sv ''Protocol error: invalid bulk length'' c = Some e2" "errored c e2"
    using err [of "''Protocol error: invalid bulk length''"] by auto
  have "CR \<noteq> NUL" by simp
  with b show ?thesis
  proof (cases rule: find_line)
    case none
    then show ?thesis using read_bulk_len_none [OF b True none(2), of al sv] e1 by auto
  next
    case (found a t)
    show ?thesis
    proof (cases t)
      case Nil
      then show ?thesis using read_bulk_len_wait [OF b True _ found(4), of al sv] found(1) by auto
    next
      case (Cons x t')
      have u: "unread c = a @ CR # x # t'" using found(1) Cons by simp
      note line = read_bulk_len_line [OF b True u found(4), of al sv]
      have "hd (a @ [CR]) \<noteq> NUL" using found(3) by (cases a) auto
      then obtain e3 where e3: "expected_dollar al sv (hd (a @ [CR])) c = Some e3" "errored c e3"
        using expected_dollar_correct [OF room, of "hd (a @ [CR])" sv] by auto
      show ?thesis
      proof (cases "hd (a @ [CR]) \<noteq> CHR ''$'' \<or> bad_bulk_len sv c (string2ll (tl a))")
        case True
        then show ?thesis using line e2 e3 by auto
      next
        case good: False
        define n where "n = nat (sint (the (string2ll (tl a))))"
        have n: "n < 2 ^ 60" "sint (the (string2ll (tl a))) = int n" using good lim by (auto simp: bad_bulk_len_def n_def)
        let ?c = "c\<lparr>qb_pos := qb_pos c + (length a + 2)\<rparr>"
        have "unread c = (a @ [CR, x]) @ t'" using u by simp
        then have "buf_ok ?c" using skip_prefix [OF b, of "a @ [CR, x]" t' "length a + 2"] by simp
        then obtain q p where q: "align_big_arg al n ?c = Some (?c\<lparr>querybuf := q, qb_pos := p\<rparr>)" "buf_ok (?c\<lparr>querybuf := q, qb_pos := p\<rparr>)"
          using align_correct [OF _ al n(1)] by blast
        have "read_bulk_len al sv c = Some (Bk_next (?c\<lparr>querybuf := q, qb_pos := p, bulklen := int n\<rparr>))"
          using line good n(2) q(1) by simp
        then show ?thesis using q(2) c n(1) by (auto simp: query_ok_def args_ok_def)
      qed
    qed
  qed
qed

lemma read_bulk_total:
  assumes c: "query_ok c" "0 \<le> bulklen c" "multibulklen c > 0" and al: "alloc_ok al"
  shows "read_bulk al c = Some (Bk_wait c) \<or>
    (\<exists>c'. read_bulk al c = Some (Bk_next c') \<and> query_ok c' \<and> parse_view c' = parse_view c \<and> multibulklen c' = multibulklen c - 1)"
proof -
  define n where "n = nat (bulklen c)"
  have n: "bulklen c = int n" "n < 2 ^ 60" and b: "buf_ok c" "args_ok c" using c by (auto simp: query_ok_def n_def)
  show ?thesis
  proof (cases "length (unread c) < n + 2")
    case True
    then show ?thesis using read_bulk_wait [OF b(1)] n by simp
  next
    case False
    obtain o' q p where o: "str_obj o' (take n (unread c))"
      "read_bulk al c = Some (Bk_next (c\<lparr>argv := argv c @ [o'], argv_len_sum := addw 64 (argv_len_sum c) n, querybuf := q, qb_pos := p,
        bulklen := -1, multibulklen := multibulklen c - 1\<rparr>))" "buf_ok (c\<lparr>querybuf := q, qb_pos := p\<rparr>)"
      using read_bulk_correct [OF b c(3) al n] False by auto
    have "buf_ok (c\<lparr>argv := argv c @ [o'], argv_len_sum := addw 64 (argv_len_sum c) n, querybuf := q, qb_pos := p,
        bulklen := -1, multibulklen := multibulklen c - 1\<rparr>)" using o(3) by (simp add: buf_ok_def)
    then show ?thesis using o(1,2) b(2) c(3) by (auto simp: query_ok_def args_ok_def)
  qed
qed

lemma bulk_loop_total:
  assumes "query_ok c" "error_room al c" "CLIENT_MASTER \<notin> flags c" "proto_max_bulk_len sv < 2 ^ 60"
  shows "\<exists>b d. bulk_loop al sv c = Some (b, d) \<and> safe_result c b d"
  using assms(1-3)
proof (induction "multibulklen c" arbitrary: c)
  case 0
  then show ?case by (subst bulk_loop.simps) (auto simp: safe_result_def error_room_def)
next
  case (Suc m)
  have al: "alloc_ok al" using Suc.prems(2) by (simp add: error_room_def alloc_fit_def)
  have same: "safe_result c False c" using Suc.prems by (simp add: safe_result_def error_room_def)
  obtain r where r: "read_bulk_len al sv c = Some r"
    "case r of Bk_error c' \<Rightarrow> errored c c' | Bk_wait c' \<Rightarrow> c' = c
     | Bk_next c' \<Rightarrow> query_ok c' \<and> parse_view c' = parse_view c \<and> 0 \<le> bulklen c' \<and> multibulklen c' = multibulklen c"
    using read_bulk_len_total [OF Suc.prems assms(4)] by blast
  show ?case
  proof (cases r)
    case (Bk_error e)
    then show ?thesis using r Suc.hyps(2) safe_errored [OF Suc.prems(1), of e] by (subst bulk_loop.simps) auto
  next
    case (Bk_wait e)
    then show ?thesis using r Suc.hyps(2) same by (subst bulk_loop.simps) auto
  next
    case (Bk_next c1)
    then have c1: "query_ok c1" "parse_view c1 = parse_view c" "0 \<le> bulklen c1" "multibulklen c1 = Suc m" using r(2) Suc.hyps(2) by auto
    have s1: "safe_result c False c1" using c1 view_out(1) [OF c1(2)] Suc.prems(2) by (simp add: safe_result_def error_room_def)
    consider "read_bulk al c1 = Some (Bk_wait c1)"
      | c2 where "read_bulk al c1 = Some (Bk_next c2)" "query_ok c2" "parse_view c2 = parse_view c1" "multibulklen c2 = m"
      using read_bulk_total [OF c1(1,3) _ al] c1(4) by auto
    then show ?thesis
    proof cases
      case 1
      then show ?thesis using r(1) Bk_next Suc.hyps(2) s1 by (subst bulk_loop.simps) auto
    next
      case 2
      have v: "parse_view c2 = parse_view c" using 2(3) c1(2) by simp
      obtain b d where "bulk_loop al sv c2 = Some (b, d)" "safe_result c2 b d"
        using Suc.hyps(1) [of c2] 2 view_out [OF v] Suc.prems by auto
      then show ?thesis using r(1) Bk_next Suc.hyps(2) 2(1) safe_trans [OF v] by (subst bulk_loop.simps) auto
    qed
  qed
qed

text \<open>A new request starts with the character that made it a RESP request.\<close>

definition resp_start :: "client \<Rightarrow> bool" where
  "resp_start c \<longleftrightarrow> (multibulklen c = 0 \<longrightarrow> argv c = [] \<and> (unread c \<noteq> [] \<longrightarrow> hd (unread c) = CHR ''*''))"

lemma processMultibulkBuffer_total:
  assumes c: "query_ok c" "resp_start c" and room: "error_room al c" and lim: "CLIENT_MASTER \<notin> flags c" "proto_max_bulk_len sv < 2 ^ 60"
  shows "\<exists>b d. processMultibulkBuffer al sv c = Some (b, d) \<and> safe_result c b d"
proof (cases "multibulklen c = 0")
  case False
  then show ?thesis using bulk_loop_total [OF c(1) room lim] by (simp add: processMultibulkBuffer_def)
next
  case True
  have b: "buf_ok c" "argv c = []" using c True by (auto simp: query_ok_def resp_start_def)
  have same: "safe_result c False c" using c room by (simp add: safe_result_def error_room_def)
  note err = protocol_error_correct [OF room, of _ sv]
  obtain e1 where e1: "protocol_error al sv ''Protocol error: too big mbulk count string'' c = Some e1" "errored c e1"
    using err [of "''Protocol error: too big mbulk count string''"] by auto
  obtain e2 where e2: "protocol_error al sv ''Protocol error: invalid multibulk length'' c = Some e2" "errored c e2"
    using err [of "''Protocol error: invalid multibulk length''"] by auto
  have "CR \<noteq> NUL" by simp
  with b(1) show ?thesis
  proof (cases rule: find_line)
    case none
    then show ?thesis
      using read_mbulk_len_none [OF b none(2), of al sv] e1 True same safe_errored [OF c(1) e1(2)]
      by (auto simp: processMultibulkBuffer_def)
  next
    case (found a t)
    show ?thesis
    proof (cases t)
      case Nil
      then show ?thesis using read_mbulk_len_wait [OF b _ found(4), of al sv] found(1) True same by (auto simp: processMultibulkBuffer_def)
    next
      case (Cons x t')
      have "hd (unread c) = CHR ''*''" using c(2) True found(1) by (auto simp: resp_start_def)
      then obtain a' where a: "a = CHR ''*'' # a'" using found(1) by (cases a) auto
      have u: "unread c = CHR ''*'' # a' @ CR # x # t'" using found(1) Cons a by simp
      have "strchr_pos CR (unread_mem c) = Some (Some (length a' + 1))" using found(4) a by simp
      note line = read_mbulk_len_line [OF b u this, of al sv]
      show ?thesis
      proof (cases "bad_mbulk_len (string2ll a')")
        case bad: True
        then show ?thesis using line e2(1) True safe_errored [OF c(1) e2(2)] by (auto simp: processMultibulkBuffer_def)
      next
        case good: False
        let ?c = "c\<lparr>qb_pos := qb_pos c + (length a' + 3)\<rparr>" and ?n = "nat (sint (the (string2ll a')))"
        have "unread c = (CHR ''*'' # a' @ [CR, x]) @ t'" using u by simp
        then have ok: "buf_ok ?c" using skip_prefix [OF b(1), of "CHR ''*'' # a' @ [CR, x]" t' "length a' + 3"] by simp
        show ?thesis
        proof (cases "sint (the (string2ll a')) \<le> 0")
          case neg: True
          have "safe_result c True ?c" using ok c(1) room True by (auto simp: safe_result_def query_ok_def args_ok_def error_room_def out_ok_def head_len_def)
          then show ?thesis using line good neg True by (auto simp: processMultibulkBuffer_def Let_def)
        next
          case pos: False
          let ?d = "?c\<lparr>multibulklen := ?n, argv := [], argv_cap := ?n, argv_len_sum := 0\<rparr>"
          have v: "parse_view ?d = parse_view c" by simp
          have q: "query_ok ?d" using ok c(1) by (auto simp: query_ok_def args_ok_def)
          have m: "CLIENT_MASTER \<notin> flags ?d" using lim(1) by simp
          obtain r d where "bulk_loop al sv ?d = Some (r, d)" "safe_result ?d r d"
            using bulk_loop_total [OF q _ m lim(2), of al] room view_out(4) [OF v, of al] by blast
          then show ?thesis using line good pos True safe_trans [OF v] by (simp add: processMultibulkBuffer_def Let_def)
        qed
      qed
    qed
  qed
qed

section \<open>Inline requests\<close>

text \<open>Splitting a line into arguments always has a result.\<close>

lemma cat1:
  assumes "alloc_ok al" "sds_ok cur" "sdslen cur + length p < 2 ^ 62" "p \<noteq> []" "t \<noteq> []"
  shows "\<exists>r. sdscatlen al cur t 1 = Some r \<and> sds_ok r \<and> sdslen r = sdslen cur + 1"
proof -
  have "sdslen cur + 1 < 2 ^ 63" "1 \<le> length t" using assms(3,4,5) by (cases p; cases t; simp)+
  then obtain r where "sdscatlen al cur t 1 = Some r" "sds_ok r" "text_of r = text_of cur @ take 1 t"
    using sdscatlen_correct [OF assms(2,1), of 1 t] by blast
  moreover have "length (take 1 t) = 1" using assms(5) by (cases t) auto
  ultimately show ?thesis using length_text_of [of r] length_text_of [OF assms(2)] by (metis length_append)
qed

definition token_ok :: "sds \<Rightarrow> string \<Rightarrow> token_state \<Rightarrow> bool" where
  "token_ok cur p r =
     (case r of
        Tok_err \<Rightarrow> True
      | Tok_done cur' p' \<Rightarrow> sds_ok cur' \<and> length p' \<le> length p
      | Tok_more i j cur' p' \<Rightarrow> sds_ok cur' \<and> sdslen cur' + length p' \<le> sdslen cur + length p)"

lemma token_step_total:
  assumes "alloc_ok al" "sds_ok cur" "sdslen cur + length p < 2 ^ 62"
  shows "\<exists>r. token_step al inq insq cur p = Some r \<and> token_ok cur p r"
proof (cases p)
  case Nil
  then show ?thesis using assms(2) by (auto simp: token_step_def token_ok_def)
next
  case (Cons x xs)
  have cat: "\<exists>r. sdscatlen al cur (c # t) 1 = Some r \<and> sds_ok r \<and> sdslen r = sdslen cur + 1" for c t
    using cat1 [OF assms, of "c # t"] Cons by simp
  have cat': "\<exists>r. sdscatlen al cur [c] 1 = Some r \<and> sds_ok r \<and> sdslen r = sdslen cur + 1" for c
    using cat [of c "[]"] .
  have len: "sdslen cur + 1 + (length (x # xs) - n) \<le> sdslen cur + length (x # xs)" if "n > 0" for n using that by simp
  obtain f where f: "\<And>c. sdscatlen al cur [c] 1 = Some (f c) \<and> sds_ok (f c) \<and> sdslen (f c) = sdslen cur + 1" using cat' by metis
  obtain g where g: "sdscatlen al cur (x # xs) 1 = Some g" "sds_ok g" "sdslen g = sdslen cur + 1" using cat by blast
  have f': "sdscatlen al cur [c] (Suc 0) = Some (f c)" "sds_ok (f c)" "sdslen (f c) = sdslen cur + 1" for c using f [of c] by auto
  have g': "sdscatlen al cur (x # xs) (Suc 0) = Some g" using g(1) by simp
  have drop: "length (drop n p) = length p - n" "length xs + 1 = length p" for n using Cons by auto
  show ?thesis
    unfolding token_step_def Let_def Cons
    by (auto simp: f' g' g token_ok_def assms(2))
qed

lemma token_loop_total:
  assumes "alloc_ok al" "sds_ok cur" "sdslen cur + length p < 2 ^ 62"
  shows "\<exists>r. token_loop al inq insq cur p = Some r \<and> (case r of None \<Rightarrow> True | Some (cur', p') \<Rightarrow> sds_ok cur' \<and> length p' \<le> length p)"
  using assms(2,3)
proof (induction "length p" arbitrary: inq insq cur p rule: less_induct)
  case less
  obtain r where r: "token_step al inq insq cur p = Some r" "token_ok cur p r"
    using token_step_total [OF assms(1) less.prems] by blast
  show ?case
  proof (cases r)
    case (Tok_more i j cur' p')
    then have l: "length p' < length p" using token_step_more r(1) by blast
    have "sds_ok cur'" "sdslen cur' + length p' < 2 ^ 62" using r(2) Tok_more less.prems by (auto simp: token_ok_def)
    then obtain r' where "token_loop al i j cur' p' = Some r'"
      "case r' of None \<Rightarrow> True | Some (cur'', p'') \<Rightarrow> sds_ok cur'' \<and> length p'' \<le> length p'"
      using less.hyps [OF l] by blast
    then show ?thesis using r(1) Tok_more l by (subst token_loop.simps) (auto split: option.splits)
  qed (use r in \<open>auto simp: token_loop.simps [of al inq insq cur p] token_ok_def\<close>)
qed

lemma splitargs_total:
  assumes "alloc_ok al" "length p < 2 ^ 61" "\<forall>s\<in>set vec. sds_ok s"
  shows "\<exists>r. splitargs_loop al vec p = Some r \<and> (case r of None \<Rightarrow> True | Some vs \<Rightarrow> \<forall>s\<in>set vs. sds_ok s)"
  using assms(2,3)
proof (induction "length p" arbitrary: vec p rule: less_induct)
  case less
  let ?p = "dropWhile isspace p"
  have lp: "length ?p \<le> length p" by (rule length_dropWhile_le)
  show ?case
  proof (cases "pk ?p 0 \<noteq> NUL")
    case False
    then show ?thesis using less.prems by (subst splitargs_loop.simps) auto
  next
    case True
    obtain e where e: "sdsempty al = Some e" "sds_ok e" "text_of e = []" using sdsempty_correct [OF assms(1)] by blast
    have "sdslen e = 0" using e length_text_of [of e] by simp
    then have "sdslen e + length ?p < 2 ^ 62" using lp less.prems(1) by simp
    then obtain r where r: "token_loop al False False e ?p = Some r"
      "case r of None \<Rightarrow> True | Some (cur', p') \<Rightarrow> sds_ok cur' \<and> length p' \<le> length ?p"
      using token_loop_total [OF assms(1) e(2)] by blast
    show ?thesis
    proof (cases r)
      case None
      then show ?thesis using True e(1) r(1) by (subst splitargs_loop.simps) auto
    next
      case (Some x)
      obtain cur p' where x: "x = (cur, p')" by fastforce
      have l: "length p' < length p" using token_loop_shorter [of al False False e ?p cur p'] r(1) Some x True lp by simp
      have "\<forall>s\<in>set (vec @ [cur]). sds_ok s" using less.prems(2) r(2) Some x by auto
      then show ?thesis using less.hyps [OF l, of "vec @ [cur]"] less.prems(1) l True e(1) r(1) Some x
        by (subst splitargs_loop.simps) simp
    qed
  qed
qed

lemma processInlineBuffer_total:
  assumes c: "query_ok c" "multibulklen c = 0" and room: "error_room al c"
  shows "\<exists>b d. processInlineBuffer al sv c = Some (b, d) \<and> safe_result c b d"
proof -
  have b: "buf_ok c" using c by (simp add: query_ok_def)
  have al: "alloc_ok al" using room by (simp add: error_room_def alloc_fit_def)
  have same: "safe_result c False c" using c room by (simp add: safe_result_def error_room_def)
  have out: "out_ok c" using room by (simp add: error_room_def)
  note err = protocol_error_correct [OF room, of _ sv]
  obtain e1 where e1: "protocol_error al sv ''Protocol error: too big inline request'' c = Some e1" "errored c e1"
    using err [of "''Protocol error: too big inline request''"] by auto
  obtain e2 where e2: "protocol_error al sv ''Protocol error: unbalanced quotes in request'' c = Some e2" "errored c e2"
    using err [of "''Protocol error: unbalanced quotes in request''"] by auto
  have "LF \<noteq> NUL" by simp
  with b show ?thesis
  proof (cases rule: find_line)
    case none
    then show ?thesis using e1 same safe_errored [OF c(1) e1(2)] by (auto simp: processInlineBuffer_def)
  next
    case (found a t)
    obtain n k where n: "line_end c (length a) = (n, k)" by fastforce
    have nk: "n + k = length a + 1" using n unfolding line_end_def by (cases "length a") (auto split: if_splits)
    have nl: "n \<le> length a" using n unfolding line_end_def by (auto split: if_splits)
    obtain m where m: "unread_mem c = unread c @ NUL # m" using unread_mem_split [OF b] by blast
    have lu: "length a < length (unread c)" using found(1) by simp
    have n63: "n < 2 ^ 63" "n < 2 ^ 61" using nl lu length_unread_less [OF b] by simp_all
    obtain aux where aux: "sdsnewlen al (Init (unread_mem c)) n = Some aux" "sds_ok aux" "text_of aux = take n (unread_mem c)"
      using sdsnewlen_correct [OF al n63(1), of "unread_mem c"] nl lu m by auto
    have "length (text_of aux) < 2 ^ 61" using aux(3) n63(2) by (simp add: min_less_iff_disj)
    then obtain r where r: "sdssplitargs al (text_of aux) = Some r" "case r of None \<Rightarrow> True | Some vs \<Rightarrow> \<forall>s\<in>set vs. sds_ok s"
      using splitargs_total [OF al, of "text_of aux" "[]"] unfolding sdssplitargs_def by auto
    show ?thesis
    proof (cases r)
      case None
      have "processInlineBuffer al sv c = Some (False, e2)"
        using found(4) n aux(1) r(1) None e2(1) by (simp add: processInlineBuffer_def)
      then show ?thesis using safe_errored [OF c(1) e2(2)] by auto
    next
      case (Some vs)
      define c1 where "c1 = note_ack sv n c"
      have c1: "parse_view c1 = parse_view c" "flags c1 = flags c" "out_ok c1"
        "query_ok c1" "unread c1 = unread c" "buf_ok c1" "multibulklen c1 = 0"
        using c out b by (auto simp: c1_def note_ack_def out_ok_def head_len_def query_ok_def buf_ok_def args_ok_def unread_def)
      show ?thesis
      proof (cases "n \<noteq> 0 \<and> CLIENT_MASTER \<in> flags c1")
        case True
        have "processInlineBuffer al sv c = Some (False, setProtocolError c1)"
          using found(4) n aux(1) r(1) Some True by (simp add: processInlineBuffer_def c1_def [symmetric])
        moreover have "safe_result c1 False (setProtocolError c1)" using safe_errored [OF c1(4) errored_set [OF c1(3) refl]] .
        ultimately show ?thesis using safe_trans [OF c1(1)] by auto
      next
        case False
        let ?c = "c1\<lparr>qb_pos := qb_pos c1 + n + k\<rparr>"
        have "unread c1 = (a @ [LF]) @ t" using c1(5) found(1) by simp
        then have "buf_ok (c1\<lparr>qb_pos := qb_pos c1 + (n + k)\<rparr>)" using skip_prefix [OF c1(6), of "a @ [LF]" t "n + k"] nk by simp
        then have ok: "buf_ok ?c" by (simp only: add.assoc)
        have str: "\<exists>t. str_obj o' t" if "o' \<in> createObject OBJ_STRING ` set vs" for o'
          using that r(2) Some createObject_str [OF _ refl] by fastforce
        let ?e = "set_inline_args ?c vs"
        have "processInlineBuffer al sv c = Some (True, ?e)"
          using found(4) n aux(1) r(1) Some False by (simp add: processInlineBuffer_def c1_def [symmetric])
        moreover have "query_ok ?e" using ok c1(4,7) str by (auto simp: set_inline_args_def Let_def query_ok_def args_ok_def buf_ok_def)
        moreover have v: "parse_view ?e = parse_view c" "multibulklen ?e = 0" using c1(1,7) by (simp_all add: set_inline_args_def Let_def)
        ultimately show ?thesis using view_out(1) [OF v(1)] out unfolding safe_result_def by auto
      qed
    qed
  qed
qed

end
