(* ===== verification/Query_Loop.thy ===== *)
theory Query_Loop
  imports Query_Roundtrip
begin

text \<open>
  The way from the socket to the execution of commands: the requests a client sends are executed
  in order, with their arguments, however the stream is cut into reads.
\<close>

section \<open>Clients in the middle of a stream\<close>

definition idle :: "client \<Rightarrow> bool" where
  "idle c \<longleftrightarrow> reqtype c = None \<and> multibulklen c = 0 \<and> argv c = [] \<and> bulklen c = -1"

definition busy_flags :: "client_flag set" where
  "busy_flags = {CLIENT_BLOCKED, CLIENT_PENDING_COMMAND, CLIENT_CLOSE_AFTER_REPLY, CLIENT_CLOSE_ASAP,
     CLIENT_MASTER, CLIENT_SLAVE, CLIENT_PENDING_READ}"

text \<open>
  The commands \<open>cmds\<close> are still to be executed: the unread input followed by \<open>v\<close>, which is to
  come, is what is left of the first one and the encoding of the others.
\<close>

definition at_stream :: "client \<Rightarrow> string list list \<Rightarrow> string \<Rightarrow> bool" where
  "at_stream c cmds v \<longleftrightarrow> buf_ok c \<and> flags c \<inter> busy_flags = {} \<and>
     (case cmds of
        [] \<Rightarrow> idle c \<and> unread c = [] \<and> v = []
      | xs # rest \<Rightarrow> \<exists>e. expects xs c e \<and> e @ concat (map encode rest) = unread c @ v \<and>
          (idle c \<or> reqtype c = Some PROTO_REQ_MULTIBULK))"

text \<open>
  Commands that neither touch the input nor block or close the client; \<open>f\<close> is their effect on the
  rest of the server.
\<close>

definition runs_commands :: "'w server_ops \<Rightarrow> ('w \<Rightarrow> string list \<Rightarrow> 'w) \<Rightarrow> bool" where
  "runs_commands ops f \<longleftrightarrow>
     (\<forall>w c. \<exists>c'. processCommand ops w c = Cmd_ok (f w (map obj_text (argv c))) c' \<and>
        querybuf c' = querybuf c \<and> qb_pos c' = qb_pos c \<and> flags c' \<inter> busy_flags = flags c \<inter> busy_flags)"

lemma encode_not_Nil [simp]: "encode xs \<noteq> []"
  by (simp add: encode_def)

lemma render_bulk_not_Nil [simp]: "render_bulk s \<noteq> []"
  by (simp add: render_bulk_def)

lemma expects_not_Nil: "expects xs c e \<Longrightarrow> e \<noteq> []"
proof (erule expects_cases)
  fix ds ys assume "ys \<noteq> []" "e = concat (map render_bulk ys)"
  then show "e \<noteq> []" by (cases ys) auto
qed auto

lemma expects_start: "buf_ok c \<Longrightarrow> idle c \<Longrightarrow> expects xs c (encode xs)"
  by (simp add: expects_def idle_def)

lemma expects_idle: "expects xs c e \<Longrightarrow> idle c \<Longrightarrow> e = encode xs"
  by (erule expects_cases) (auto simp: idle_def in_args_def)

lemma expects_fields:
  assumes "expects xs c e" "buf_ok c'" "argv c' = argv c" "argv_cap c' = argv_cap c" "argv_len_sum c' = argv_len_sum c"
    "multibulklen c' = multibulklen c" "bulklen c' = bulklen c"
  shows "expects xs c' e"
  using assms unfolding expects_def in_args_def by simp

lemma in_args_texts: "in_args c xs [] \<Longrightarrow> map obj_text (argv c) = xs"
  unfolding in_args_def by (auto simp: list_all2_conv_all_nth str_obj_text intro!: nth_equalityI)

lemma at_stream_idle:
  "buf_ok c \<Longrightarrow> idle c \<Longrightarrow> flags c \<inter> busy_flags = {} \<Longrightarrow> concat (map encode cmds) = unread c @ v \<Longrightarrow> at_stream c cmds v"
  using expects_start [of c] by (cases cmds) (auto simp: at_stream_def)

section \<open>One request\<close>

lemma run_request_correct:
  assumes ops: "runs_commands ops f" and c: "buf_ok c" "in_args c xs []" "xs \<noteq> []" "flags c \<inter> busy_flags = {}"
  shows "\<exists>c'. run_request ops w c = Some (In_again (f w xs) c') \<and> buf_ok c' \<and> idle c' \<and> flags c' \<inter> busy_flags = {} \<and>
    unread c' = unread c"
proof -
  have a: "argv c \<noteq> []" "map obj_text (argv c) = xs" using c(2,3) in_args_texts by auto
  obtain d where d: "processCommand ops w c = Cmd_ok (f w xs) d" "querybuf d = querybuf c" "qb_pos d = qb_pos c"
    "flags d \<inter> busy_flags = {}"
    using ops a(2) c(4) unfolding runs_commands_def by metis
  have fl: "CLIENT_MASTER \<notin> flags d" "CLIENT_BLOCKED \<notin> flags d" "CLIENT_PENDING_READ \<notin> flags c"
    using d(4) c(4) by (auto simp: busy_flags_def)
  have r: "flags (resetClient d) \<inter> busy_flags = {}" "CLIENT_MASTER \<notin> flags (resetClient d)"
    using d(4) by (auto simp: resetClient_def freeClientArgv_def set_flags_def clear_flags_def Let_def busy_flags_def)
  have i: "idle (resetClient d)" "querybuf (resetClient d) = querybuf d" "qb_pos (resetClient d) = qb_pos d"
    by (auto simp: idle_def resetClient_def freeClientArgv_def set_flags_def clear_flags_def Let_def)
  have "run_request ops w c = Some (In_again (f w xs) (resetClient d))"
    using a(1) fl d(1) r(2) by (simp add: run_request_def processCommandAndResetClient_def commandProcessed_def Let_def)
  then show ?thesis using i r(1) d(2,3) c(1) by (auto simp: buf_ok_def unread_def)
qed

lemma not_blocked: "flags c \<inter> busy_flags = {} \<Longrightarrow> \<not> input_blocked sv c"
  by (auto simp: busy_flags_def input_blocked_def)

lemma input_step_correct:
  assumes ops: "runs_commands ops f" and al: "alloc_ok al" and c: "at_stream c (xs # rest) v" "unread c \<noteq> []" and xs: "cmd_ok sv xs"
  shows "(\<exists>d. input_step al sv ops w c = Some (In_break w d) \<and> at_stream d (xs # rest) v \<and> v \<noteq> []) \<or>
    (\<exists>d. input_step al sv ops w c = Some (In_again (f w xs) d) \<and> at_stream d rest v)"
proof -
  let ?R = "concat (map encode rest)"
  obtain e where e: "expects xs c e" "e @ ?R = unread c @ v" "idle c \<or> reqtype c = Some PROTO_REQ_MULTIBULK"
    and b: "buf_ok c" "flags c \<inter> busy_flags = {}" using c(1) by (auto simp: at_stream_def)
  define c1 where "c1 = c\<lparr>reqtype := Some PROTO_REQ_MULTIBULK\<rparr>"
  obtain ch u where u: "unread c = ch # u" using c(2) by (cases "unread c") auto
  have ld: "load_at 0 1 (unread_mem c) = Some [ch]" using load_unread [OF b(1), of 0 1] u by simp
  have "ch = CHR ''*''" if "idle c" using expects_idle [OF e(1) that] e(2) u by (simp add: encode_def)
  then have rq: "set_reqtype ch c = c1" "reqtype c1 = Some PROTO_REQ_MULTIBULK"
    using e(3) by (auto simp: idle_def c1_def set_reqtype_def)
  have c1: "buf_ok c1" "unread c1 = unread c" "expects xs c1 e" "flags c1 = flags c"
    using b(1) expects_fields [OF e(1), of c1] by (auto simp: c1_def)
  have step: "input_step al sv ops w c = Option.bind (processMultibulkBuffer al sv c1)
      (\<lambda>(ok, c). if \<not> ok then Some (In_break w c) else run_request ops w c)"
    using not_blocked [OF b(2)] ld rq by (simp add: input_step_def)
  show ?thesis
  proof (cases "length e \<le> length (unread c)")
    case True
    then obtain u' where u': "unread c = e @ u'" using e(2) by (metis append_eq_append_conv_if append_take_drop_id)
    then have "arrived e u' (unread c1) []" using c1(2) by (simp add: arrived_def)
    then obtain k d where d: "processMultibulkBuffer al sv c1 = Some (k, d)" "parse_result xs u' [] c1 k d"
      using processMultibulkBuffer_correct [OF c1(3) al xs] by blast
    have k: "k" "in_args d xs []" "unread d = u'" "buf_ok d" "parse_view d = parse_view c1" using d(2) by (auto simp: parse_result_def split: if_splits)
    have "flags d = flags c" using arg_cong [OF k(5), of flags] c1(4) by (simp add: parse_view_def)
    then obtain c' where c': "run_request ops w d = Some (In_again (f w xs) c')" "buf_ok c'" "idle c'" "flags c' \<inter> busy_flags = {}" "unread c' = u'"
      using run_request_correct [OF ops k(4,2), of w] xs b(2) k(3) by (auto simp: cmd_ok_def)
    have "?R = u' @ v" using e(2) u' by simp
    then have "at_stream c' rest v" using at_stream_idle [OF c'(2,3,4)] c'(5) by simp
    then show ?thesis using step d(1) k(1) c'(1) by auto
  next
    case False
    then obtain v1 where v1: "e = unread c @ v1" using e(2) by (metis append_eq_append_conv_if append_take_drop_id nat_le_linear)
    have v: "v1 \<noteq> []" "v = v1 @ ?R" using False v1 e(2) by auto
    have "arrived e [] (unread c1) v1" using c1(2) v1 by (simp add: arrived_def)
    then obtain k d where d: "processMultibulkBuffer al sv c1 = Some (k, d)" "parse_result xs [] v1 c1 k d"
      using processMultibulkBuffer_correct [OF c1(3) al xs] by blast
    have k: "\<not> k" "expects xs d (unread d @ v1)" "buf_ok d" "parse_view d = parse_view c1"
      using d(2) v(1) by (auto simp: parse_result_def split: if_splits)
    have "flags d = flags c" "reqtype d = Some PROTO_REQ_MULTIBULK"
      using arg_cong [OF k(4), of flags] arg_cong [OF k(4), of reqtype] c1(4) by (simp_all add: parse_view_def c1_def)
    then have "at_stream d (xs # rest) v" using k b(2) v(2) by (auto simp: at_stream_def)
    then show ?thesis using step d(1) k(1) v by auto
  qed
qed

section \<open>The loop\<close>

text \<open>Some of the commands have been executed, and what is left needs more input.\<close>

definition served :: "('w \<Rightarrow> string list \<Rightarrow> 'w) \<Rightarrow> string list list \<Rightarrow> string \<Rightarrow> 'w \<Rightarrow> 'w \<Rightarrow> client \<Rightarrow> bool" where
  "served f cmds v w w' c' \<longleftrightarrow>
     (\<exists>ran todo. cmds = ran @ todo \<and> w' = foldl f w ran \<and> at_stream c' todo v \<and> (todo \<noteq> [] \<longrightarrow> v \<noteq> []))"

lemma unread_Nil_iff: "buf_ok c \<Longrightarrow> unread c = [] \<longleftrightarrow> \<not> qb_pos c < sdslen (querybuf c)"
  by (auto simp: unread_def buf_ok_def length_text_of)

lemma served_step: "served f cmds v (f w xs) w' c' \<Longrightarrow> served f (xs # cmds) v w w' c'"
  unfolding served_def by (metis append_Cons foldl_Cons)

lemma input_loop_correct:
  assumes ops: "runs_commands ops f" and al: "alloc_ok al" and "\<forall>xs\<in>set cmds. cmd_ok sv xs" "at_stream c cmds v"
  shows "\<exists>w' c'. input_loop al sv ops w c = Some (w', Some c') \<and> served f cmds v w w' c'"
  using assms(3,4)
proof (induction cmds arbitrary: c w)
  case Nil
  then have "unread c = []" "buf_ok c" by (auto simp: at_stream_def)
  then have "input_loop al sv ops w c = Some (w, Some c)" using unread_Nil_iff by (subst input_loop.simps) auto
  then show ?case using Nil.prems(2) by (auto simp: served_def)
next
  case (Cons xs rest)
  have b: "buf_ok c" using Cons.prems(2) by (simp add: at_stream_def)
  show ?case
  proof (cases "unread c = []")
    case True
    obtain e where "expects xs c e" "e @ concat (map encode rest) = v" using Cons.prems(2) True by (auto simp: at_stream_def)
    then have "v \<noteq> []" using expects_not_Nil by blast
    moreover have "input_loop al sv ops w c = Some (w, Some c)" using True unread_Nil_iff [OF b] by (subst input_loop.simps) auto
    moreover have "served f (xs # rest) v w w c" unfolding served_def
      using Cons.prems(2) \<open>v \<noteq> []\<close> by (intro exI [of _ "[]"] exI [of _ "xs # rest"]) simp
    ultimately show ?thesis by auto
  next
    case False
    have go: "qb_pos c < sdslen (querybuf c)" using False unread_Nil_iff [OF b] by simp
    have xs: "cmd_ok sv xs" using Cons.prems(1) by simp
    consider (stop) d where "input_step al sv ops w c = Some (In_break w d)" "at_stream d (xs # rest) v" "v \<noteq> []"
      | (again) d where "input_step al sv ops w c = Some (In_again (f w xs) d)" "at_stream d rest v"
      using input_step_correct [OF ops al Cons.prems(2) False xs, of w] by blast
    then show ?thesis
    proof cases
      case stop
      have "served f (xs # rest) v w w d" unfolding served_def
        using stop(2,3) by (intro exI [of _ "[]"] exI [of _ "xs # rest"]) simp
      then show ?thesis using go stop(1) by (subst input_loop.simps) auto
    next
      case again
      obtain w' c' where "input_loop al sv ops (f w xs) d = Some (w', Some c')" "served f rest v (f w xs) w' c'"
        using Cons.IH [of d "f w xs"] Cons.prems(1) again(2) by auto
      then show ?thesis using go again(1) served_step by (subst input_loop.simps) auto
    qed
  qed
qed

lemma at_stream_buffer:
  assumes "at_stream c cmds v" "buf_ok c'" "argv c' = argv c" "argv_cap c' = argv_cap c" "argv_len_sum c' = argv_len_sum c"
    "multibulklen c' = multibulklen c" "bulklen c' = bulklen c" "reqtype c' = reqtype c" "flags c' = flags c"
    and "unread c' @ v' = unread c @ v" "cmds = [] \<Longrightarrow> unread c' = [] \<and> v' = []"
  shows "at_stream c' cmds v'"
proof -
  have i: "idle c' = idle c" using assms by (simp add: idle_def)
  show ?thesis
  proof (cases cmds)
    case Nil
    then show ?thesis using assms i by (auto simp: at_stream_def)
  next
    case (Cons xs rest)
    obtain e where e: "expects xs c e" "e @ concat (map encode rest) = unread c @ v" "idle c \<or> reqtype c = Some PROTO_REQ_MULTIBULK"
      using assms(1) Cons by (auto simp: at_stream_def)
    have "expects xs c' e" using expects_fields [OF e(1) assms(2-7)] .
    then show ?thesis using Cons e i assms by (auto simp: at_stream_def)
  qed
qed

lemma processInputBuffer_correct:
  assumes ops: "runs_commands ops f" and al: "alloc_ok al" and cmds: "\<forall>xs\<in>set cmds. cmd_ok sv xs" "at_stream c cmds v"
  shows "\<exists>w' c'. processInputBuffer al sv ops w c = Some (w', Some c') \<and> served f cmds v w w' c' \<and> qb_pos c' = 0"
proof -
  obtain w1 c1 where l: "input_loop al sv ops w c = Some (w1, Some c1)" "served f cmds v w w1 c1"
    using input_loop_correct [OF ops al cmds] by blast
  obtain ran todo where d: "cmds = ran @ todo" "w1 = foldl f w ran" "at_stream c1 todo v" "todo \<noteq> [] \<longrightarrow> v \<noteq> []"
    using l(2) by (auto simp: served_def)
  show ?thesis
  proof (cases "qb_pos c1 = 0")
    case True
    then show ?thesis using l by (auto simp: processInputBuffer_def)
  next
    case False
    have b: "buf_ok c1" using d(3) by (simp add: at_stream_def)
    obtain q where q: "sdsrange (querybuf c1) (int (qb_pos c1)) (-1) = Some q" "sds_ok q" "text_of q = unread c1"
      using trim_querybuf [OF b] by blast
    let ?c = "c1\<lparr>querybuf := q, qb_pos := 0\<rparr>"
    have "sdslen q = length (unread c1)" using length_text_of [OF q(2)] q(3) by simp
    then have ok: "buf_ok ?c" "unread ?c = unread c1" using q(2,3) length_unread_less [OF b] by (simp_all add: buf_ok_def unread_def)
    have fin: "unread ?c = [] \<and> v = []" if "todo = []" using d(3) ok(2) that by (simp add: at_stream_def)
    have "at_stream ?c todo v" by (rule at_stream_buffer [OF d(3) ok(1) _ _ _ _ _ _ _ _ fin]) (simp_all add: ok(2))
    then have "served f cmds v w w1 ?c" unfolding served_def using d by blast
    then show ?thesis using l(1) False q(1) by (auto simp: processInputBuffer_def)
  qed
qed

section \<open>Reading from the socket\<close>

text \<open>Appending what was read to the query buffer.\<close>

lemma append_read:
  assumes "sds_ok q" "alloc_ok al" "0 < n" "sdslen q + n < 2 ^ 62" "bs \<noteq> []" "length bs \<le> n"
  shows "\<exists>q1 q2 q3. sdsMakeRoomFor al q n = Some q1 \<and> sds_write q1 (sdslen q) bs = Some q2 \<and>
    sdsIncrLen q2 (int (length bs)) = Some q3 \<and> sds_ok q3 \<and> text_of q3 = text_of q @ bs"
proof -
  have "sdslen q + n < 2 ^ 63" using assms(4) by simp
  then obtain q1 where q1: "sdsMakeRoomFor al q n = Some q1" "sds_ok q1" "text_of q1 = text_of q" "sdslen q1 = sdslen q" "sdslen q + n \<le> sdsalloc q1"
    using sdsMakeRoomFor_correct [OF assms(1,2)] by blast
  have t: "hdr_type q1 \<noteq> SDS_TYPE_5" using q1(4,5) assms(3) by (auto simp: sdsalloc_def sdslen_def)
  have l: "sdslen q + length bs < length (buf q1)" using q1(2,5) assms(6) by (simp add: sds_ok_def)
  let ?q2 = "q1\<lparr>buf := take (sdslen q) (buf q1) @ bs @ drop (sdslen q + length bs) (buf q1)\<rparr>"
  have w: "sds_write q1 (sdslen q) bs = Some ?q2" using l by (simp add: sds_write_Some)
  have sp: "sds_space ?q2" "hdr_type ?q2 \<noteq> SDS_TYPE_5" "sdslen ?q2 = sdslen q"
    using q1(2,4) l t by (auto simp: sds_space_def sds_ok_def sdsalloc_def sdslen_def)
  have "sdsalloc ?q2 = sdsalloc q1" using t by (simp add: sdsalloc_def)
  then have av: "int (length bs) \<le> int (sdsavail ?q2)" using alloc_avail [OF sp(1)] sp(3) q1(5) assms(6) by linarith
  obtain q3 where q3: "sdsIncrLen ?q2 (int (length bs)) = Some q3" "sds_ok q3"
    "text_of q3 = take (nat (int (sdslen ?q2) + int (length bs))) (buf ?q2)"
    using sdsIncrLen_space [OF sp(1,2) _ av] by auto
  have "nat (int (sdslen q) + int (length bs)) = sdslen q + length bs" by simp
  then have "text_of q3 = take (sdslen q) (buf q1) @ bs" using q3(3) sp(3) l by simp
  moreover have "take (sdslen q) (buf q1) = text_of q" using q1(3,4) by (simp add: text_of_def sdslen_def)
  ultimately show ?thesis using q1(1) w q3 by auto
qed

lemma expects_length: "expects xs c e \<Longrightarrow> length e \<le> length (encode xs)"
  by (erule expects_cases) (auto simp: encode_def render_bulk_def)

lemma at_stream_length: "at_stream c cmds v \<Longrightarrow> length (unread c) + length v \<le> length (concat (map encode cmds))"
proof (cases cmds)
  case (Cons xs rest)
  assume "at_stream c cmds v"
  then obtain e where e: "expects xs c e" "e @ concat (map encode rest) = unread c @ v" using Cons by (auto simp: at_stream_def)
  show ?thesis using arg_cong [OF e(2), of length] expects_length [OF e(1)] Cons by simp
qed (simp add: at_stream_def)

lemma read_length_bounds: "0 < read_length c \<and> read_length c \<le> PROTO_IOBUF_LEN"
  by (auto simp: read_length_def Let_def)

lemma readQueryFromClient_correct:
  assumes ops: "runs_commands ops f" and al: "alloc_ok al" and cmds: "\<forall>xs\<in>set cmds. cmd_ok sv xs" "at_stream c cmds (bs @ v)" "qb_pos c = 0"
    and io: "\<not> io_threads_active sv" and sz: "length (concat (map encode cmds)) \<le> client_max_querybuf_len sv"
    "length (concat (map encode cmds)) < 2 ^ 60"
    and rd: "rd (read_length c) = Rd_bytes bs" "bs \<noteq> []" "length bs \<le> read_length c"
  shows "\<exists>w' c'. readQueryFromClient al sv ops rd w c = Some (w', Some c') \<and> served f cmds v w w' c' \<and> qb_pos c' = 0"
proof -
  have b: "buf_ok c" "CLIENT_MASTER \<notin> flags c" using cmds(2) by (auto simp: at_stream_def busy_flags_def)
  have sl: "sds_ok (querybuf c)" "sdslen (querybuf c) = length (unread c)" "text_of (querybuf c) = unread c"
    using b(1) cmds(3) by (simp_all add: buf_ok_def unread_def length_text_of)
  have len: "length (unread c) + length (bs @ v) \<le> length (concat (map encode cmds))" using at_stream_length [OF cmds(2)] .
  let ?c0 = "if querybuf_peak c < sdslen (querybuf c) then c\<lparr>querybuf_peak := sdslen (querybuf c)\<rparr> else c"
  have "sdslen (querybuf c) + read_length c < 2 ^ 62" using sl(2) len sz(2) read_length_bounds [of c] by simp
  then obtain q1 q2 q3 where q: "sdsMakeRoomFor al (querybuf c) (read_length c) = Some q1" "sds_write q1 (sdslen (querybuf c)) bs = Some q2"
    "sdsIncrLen q2 (int (length bs)) = Some q3" "sds_ok q3" "text_of q3 = unread c @ bs"
    using append_read [OF sl(1) al, of "read_length c" bs] read_length_bounds [of c] rd(2,3) sl(3) by auto
  let ?c1 = "?c0\<lparr>querybuf := q3, pending_querybuf := pending_querybuf c, lastinteraction := unixtime sv\<rparr>"
  have l3: "sdslen q3 = length (unread c) + length bs" using length_text_of [OF q(4)] q(5) by simp
  have ok: "buf_ok ?c1" "unread ?c1 = unread c @ bs" using q(4,5) l3 len sz(2) cmds(3) by (simp_all add: buf_ok_def unread_def)
  have fin: "unread ?c1 = [] \<and> v = []" if "cmds = []" using cmds(2) that rd(2) by (simp add: at_stream_def)
  have at: "at_stream ?c1 cmds v" by (rule at_stream_buffer [OF cmds(2) ok(1) _ _ _ _ _ _ _ _ fin]) (simp_all add: ok(2))
  have p: "postponeClientRead sv c = (False, c)" using io by (simp add: postponeClientRead_def)
  have "readQueryFromClient al sv ops rd w c = processInputBuffer al sv ops w ?c1"
    using p q(1-3) rd b(2) l3 len sz(1) by (simp add: readQueryFromClient_def Let_def)
  then show ?thesis using processInputBuffer_correct [OF ops al cmds(1) at, of w] by simp
qed

section \<open>The whole connection\<close>

text \<open>
  The peer has sent \<open>str\<close>; the handler is called once for each element of \<open>ks\<close>, and the element
  bounds how many bytes are there to be read, at least one.
\<close>

fun serve ::
  "allocator \<Rightarrow> server_conf \<Rightarrow> 'w server_ops \<Rightarrow> 'w \<Rightarrow> client \<Rightarrow> string \<Rightarrow> nat list \<Rightarrow> ('w \<times> client \<times> string) option" where
  "serve al sv ops w c str [] = Some (w, c, str)"
| "serve al sv ops w c str (k # ks) =
     (if str = [] then Some (w, c, [])
      else do {
        let n = min (Suc k) (read_length c);
        (w, c) \<leftarrow> readQueryFromClient al sv ops (\<lambda>n. Rd_bytes (take (min (Suc k) n) str)) w c;
        c \<leftarrow> c;
        serve al sv ops w c (drop n str) ks
      })"

lemma serve_correct:
  assumes ops: "runs_commands ops f" and al: "alloc_ok al" and io: "\<not> io_threads_active sv"
    and "\<forall>xs\<in>set cmds. cmd_ok sv xs" "at_stream c cmds str" "qb_pos c = 0"
    and "length (concat (map encode cmds)) \<le> client_max_querybuf_len sv" "length (concat (map encode cmds)) < 2 ^ 60"
    and "cmds \<noteq> [] \<longrightarrow> str \<noteq> []"
  shows "\<exists>w' c' rest. serve al sv ops w c str ks = Some (w', c', rest) \<and>
    (\<exists>ran todo. cmds = ran @ todo \<and> w' = foldl f w ran \<and> at_stream c' todo rest \<and> (todo \<noteq> [] \<longrightarrow> rest \<noteq> [])) \<and>
    (length str \<le> length ks \<longrightarrow> rest = [])"
  using assms(4-9)
proof (induction ks arbitrary: w c str cmds)
  case Nil
  show ?case using Nil.prems(2,6) by (auto intro: exI [of _ "[]"])
next
  case (Cons k ks)
  show ?case
  proof (cases "str = []")
    case True
    then show ?thesis using Cons.prems(2,6) by (auto intro: exI [of _ "[]"])
  next
    case False
    define n where "n = min (Suc k) (read_length c)"
    have n: "0 < n" "n \<le> read_length c" using read_length_bounds [of c] by (auto simp: n_def)
    let ?bs = "take n str"
    have bs: "?bs \<noteq> []" "length ?bs \<le> read_length c" using False n by (cases str; cases n; auto)+
    have at: "at_stream c cmds (?bs @ drop n str)" using Cons.prems(2) by simp
    obtain w1 c1 where r: "readQueryFromClient al sv ops (\<lambda>n. Rd_bytes (take (min (Suc k) n) str)) w c = Some (w1, Some c1)"
      "served f cmds (drop n str) w w1 c1" "qb_pos c1 = 0"
      using readQueryFromClient_correct [where rd = "\<lambda>n. Rd_bytes (take (min (Suc k) n) str)" and w = w, OF ops al Cons.prems(1) at Cons.prems(3) io Cons.prems(4,5) _ bs]
      by (auto simp: n_def)
    obtain ran todo where d: "cmds = ran @ todo" "w1 = foldl f w ran" "at_stream c1 todo (drop n str)" "todo \<noteq> [] \<longrightarrow> drop n str \<noteq> []"
      using r(2) by (auto simp: served_def)
    have todo: "\<forall>xs\<in>set todo. cmd_ok sv xs" "length (concat (map encode todo)) \<le> client_max_querybuf_len sv"
      "length (concat (map encode todo)) < 2 ^ 60" using Cons.prems(1,4,5) d(1) by auto
    note ih = Cons.IH [OF todo(1) d(3) r(3) todo(2,3) d(4), of w1]
    obtain w' c' rest ran' todo' where s: "serve al sv ops w1 c1 (drop n str) ks = Some (w', c', rest)"
      "todo = ran' @ todo'" "w' = foldl f w1 ran'" "at_stream c' todo' rest" "length (drop n str) \<le> length ks \<longrightarrow> rest = []"
      "todo' \<noteq> [] \<longrightarrow> rest \<noteq> []"
      using ih by blast
    have e: "serve al sv ops w c str (k # ks) = Some (w', c', rest)" using False r(1) s(1) by (simp add: n_def)
    have "cmds = (ran @ ran') @ todo' \<and> w' = foldl f w (ran @ ran') \<and> at_stream c' todo' rest \<and> (todo' \<noteq> [] \<longrightarrow> rest \<noteq> [])" using d s by simp
    moreover have "length str \<le> length (k # ks) \<longrightarrow> rest = []" using s(5) n(1) by auto
    ultimately show ?thesis using e by blast
  qed
qed

end
