(* ===== verification/Networking_Properties.thy ===== *)
theory Networking_Properties
  imports Client_Limits Client_Write Query_Safe Query_Loop Sds_Properties
begin

text \<open>
  The properties of the network layer: requests are executed as they were sent, the parsers are
  safe on every input, replies are the RESP text of their values, and the socket gets the replies
  in order. The examples use a new client, a server without limits on the output and commands
  that only record their arguments.
\<close>

section \<open>Example\<close>

definition demo_conf :: server_conf where
  "demo_conf = \<lparr>proto_max_bulk_len = 512 * 1024 * 1024, client_max_querybuf_len = 1024 * 1024 * 1024,
     client_obuf_limits = \<lambda>_. \<lparr>hard_limit_bytes = 0, soft_limit_bytes = 0, soft_limit_seconds = 0\<rparr>,
     maxmemory = 0, used_memory = 1000, unixtime = 1627000000, lua_timedout = False, gopher_enabled = False,
     io_threads_active = False, io_threads_do_reads = False, events_while_blocked = False\<rparr>"

definition sample_sds :: "string \<Rightarrow> sds" where
  "sample_sds t = \<lparr>hdr_type = SDS_TYPE_8, hdr_len = length t, hdr_alloc = length t, buf = t @ [NUL]\<rparr>"

definition demo_client :: client where
  "demo_client = \<lparr>flags = {}, has_conn = True, resp = 2, replstate = 0, repl_put_online_on_ack = False,
     querybuf = sample_sds [], qb_pos = 0, pending_querybuf = sample_sds [], querybuf_peak = 0,
     argv = [], argv_cap = 0, argv_len_sum = 0, cmd = None, reqtype = None, multibulklen = 0, bulklen = -1,
     reply = [], reply_next = 0, reply_bytes = 0, sentlen = 0, obuf = replicate PROTO_REPLY_CHUNK_BYTES NUL, bufpos = 0,
     obuf_soft_limit_reached_time = 0, lastinteraction = 0, read_reploff = 0, reploff = 0, repl_ack_time = 0,
     write_handler = False\<rparr>"

definition demo_ops :: "string list list server_ops" where
  "demo_ops = \<lparr>processCommand = \<lambda>w c. Cmd_ok (w @ [map obj_text (argv c)]) c,
     replicationFeedSlavesFromMasterStream = \<lambda>w _. w, processGopherRequest = Pair\<rparr>"

lemma exact_alloc_fit: "alloc_fit exact_alloc"
  by (simp add: alloc_fit_def alloc_ok_def exact_alloc_def)

lemma sample_sds_ok:
  assumes "length t < 256"
  shows "sds_ok (sample_sds t)" "text_of (sample_sds t) = t" "sdslen (sample_sds t) = length t"
  using assms by (simp_all add: sample_sds_def sds_ok_def text_of_def sdslen_def sdsalloc_def)

lemma demo_client_input: "buf_ok demo_client" "idle demo_client" "unread demo_client = []" "qb_pos demo_client = 0" "flags demo_client = {}"
  using sample_sds_ok [of "[]"] by (simp_all add: demo_client_def buf_ok_def idle_def unread_def)

lemma demo_client_output:
  "out_ok demo_client" "accepts demo_client" "pending demo_client = []" "reply_bytes demo_client = 0" "resp demo_client = 2" "reply demo_client = []"
  by (simp_all add: demo_client_def out_ok_def head_len_def accepts_def prepareClientToWrite_def pending_def)

lemma demo_conf_limits: "no_obuf_limits demo_conf" "\<not> io_threads_active demo_conf" "client_max_querybuf_len demo_conf = 1024 * 1024 * 1024"
  "proto_max_bulk_len demo_conf = 512 * 1024 * 1024"
  by (simp_all add: demo_conf_def no_obuf_limits_def)

lemma demo_ops_run: "runs_commands demo_ops (\<lambda>w xs. w @ [xs])"
  by (simp add: runs_commands_def demo_ops_def)

section \<open>Requests\<close>

text \<open>
  C1. The bytes of a sequence of requests reach the server in pieces of any size, and the read
  handler runs for each piece. Then the commands run in the order of the requests, each exactly
  once and with exactly the arguments that were sent, and never before its request is complete.
  Reading goes on until the whole input is there; then every command has run and the client is
  ready for the next request. The execution of a command is an argument of the model; the commands
  considered here neither touch the input of the client nor block or close it.
\<close>

theorem requests_executed:
  assumes "runs_commands ops f" "alloc_ok al" "\<not> io_threads_active sv" "\<forall>xs\<in>set cmds. cmd_ok sv xs"
    and "buf_ok c" "idle c" "unread c = []" "qb_pos c = 0" "flags c \<inter> busy_flags = {}"
    and "length (concat (map encode cmds)) \<le> client_max_querybuf_len sv" "length (concat (map encode cmds)) < 2 ^ 60"
  shows "\<exists>ran todo c' rest. serve al sv ops w c (concat (map encode cmds)) ks = Some (foldl f w ran, c', rest) \<and>
    cmds = ran @ todo \<and> (todo = [] \<longleftrightarrow> rest = []) \<and> (rest = [] \<longrightarrow> idle c' \<and> unread c' = []) \<and>
    (length (concat (map encode cmds)) \<le> length ks \<longrightarrow> rest = [])"
proof -
  have at: "at_stream c cmds (concat (map encode cmds))"
    using assms(5-7,9) expects_start [of c] by (auto simp: at_stream_def split: list.splits)
  have ne: "cmds \<noteq> [] \<longrightarrow> concat (map encode cmds) \<noteq> []" by (cases cmds) simp_all
  obtain c' rest ran todo where s: "serve al sv ops w c (concat (map encode cmds)) ks = Some (foldl f w ran, c', rest)"
    "cmds = ran @ todo" "at_stream c' todo rest" "todo \<noteq> [] \<longrightarrow> rest \<noteq> []"
    "length (concat (map encode cmds)) \<le> length ks \<longrightarrow> rest = []"
    using serve_correct [OF assms(1-4) at assms(8,10,11) ne, of w ks] by blast
  have fin: "idle c' \<and> unread c' = [] \<and> rest = []" if "todo = []" using s(3) that by (simp add: at_stream_def)
  then have "todo = [] \<longleftrightarrow> rest = []" "rest = [] \<longrightarrow> idle c' \<and> unread c' = []" using s(4) by blast+
  then show ?thesis using s(1,2,5) by blast
qed

lemma demo_cmds_length: "length (concat (map encode [[''PING''], [''GET'', ''k'']])) = 34"
  by (simp add: encode_def render_bulk_def dec_less_10)

theorem requests_executed_witness:
  "\<exists>c'. serve exact_alloc demo_conf demo_ops [] demo_client (concat (map encode [[''PING''], [''GET'', ''k'']])) (replicate 40 2) =
     Some ([[''PING''], [''GET'', ''k'']], c', []) \<and> idle c' \<and> unread c' = []"
proof -
  let ?cmds = "[[''PING''], [''GET'', ''k'']]"
  have "\<forall>xs\<in>set ?cmds. cmd_ok demo_conf xs" by (simp add: cmd_ok_def demo_conf_limits)
  then have "\<exists>ran todo c' rest. serve exact_alloc demo_conf demo_ops [] demo_client (concat (map encode ?cmds)) (replicate 40 2) =
      Some (foldl (\<lambda>w xs. w @ [xs]) [] ran, c', rest) \<and> ?cmds = ran @ todo \<and> (todo = [] \<longleftrightarrow> rest = []) \<and>
      (rest = [] \<longrightarrow> idle c' \<and> unread c' = []) \<and> (length (concat (map encode ?cmds)) \<le> length (replicate 40 (2::nat)) \<longrightarrow> rest = [])"
    by (intro requests_executed demo_ops_run exact_alloc_ok demo_client_input demo_conf_limits)
      (simp_all only: demo_cmds_length demo_client_input demo_conf_limits, simp_all)
  then obtain ran todo c' rest where r: "serve exact_alloc demo_conf demo_ops [] demo_client (concat (map encode ?cmds)) (replicate 40 2) =
      Some (foldl (\<lambda>w xs. w @ [xs]) [] ran, c', rest)" "?cmds = ran @ todo" "todo = [] \<longleftrightarrow> rest = []"
      "rest = [] \<longrightarrow> idle c' \<and> unread c' = []" "length (concat (map encode ?cmds)) \<le> length (replicate 40 (2::nat)) \<longrightarrow> rest = []"
    by blast
  have z: "rest = []" using r(5) unfolding demo_cmds_length by simp
  then have "ran = ?cmds" using r(2,3) by simp
  then show ?thesis using r(1,4) z by simp
qed

text \<open>
  C2. A call of \<^verbatim>\<open>processMultibulkBuffer\<close> in the middle of a request, when \<open>e\<close> of its encoding is not yet
  parsed: if all of it is in the query buffer, the arguments of the client become exactly the ones
  that were encoded and the rest of the buffer is left for the next request; otherwise the call
  keeps what it could parse and expects exactly what is unread and still to come. Large arguments
  for which the query buffer itself becomes the string are included.
\<close>

theorem request_roundtrip:
  assumes "expects xs c e" "alloc_ok al" "cmd_ok sv xs" "e @ rest = unread c @ v" "v = [] \<or> rest = []"
  shows "\<exists>d. processMultibulkBuffer al sv c = Some (v = [], d) \<and> parse_view d = parse_view c \<and>
    (if v = [] then map obj_text (argv d) = xs \<and> argv_len_sum d = length (concat xs) \<and> multibulklen d = 0 \<and> unread d = rest
     else expects xs d (unread d @ v))"
proof -
  obtain b d where d: "processMultibulkBuffer al sv c = Some (b, d)" "parse_result xs rest v c b d"
    using processMultibulkBuffer_correct [OF assms(1-3), of rest v] assms(4,5) by (auto simp: arrived_def)
  have "b = (v = [])" using d(2) by (auto simp: parse_result_def split: if_splits)
  moreover have "map obj_text (argv d) = xs \<and> argv_len_sum d = length (concat xs) \<and> multibulklen d = 0 \<and> unread d = rest" if b
    using d(2) that in_args_texts [of d xs] by (auto simp: parse_result_def in_args_def length_concat)
  ultimately show ?thesis using d by (auto simp: parse_result_def)
qed

definition full_client :: client where
  "full_client = demo_client\<lparr>querybuf := sample_sds (encode [''x''])\<rparr>"

lemma length_encode_x: "length (encode [''x'']) = 11"
  by (simp add: encode_def render_bulk_def dec_less_10)

theorem request_roundtrip_witness:
  "\<exists>d. processMultibulkBuffer exact_alloc demo_conf full_client = Some (True, d) \<and> map obj_text (argv d) = [''x'']"
proof -
  have b: "buf_ok full_client" "unread full_client = encode [''x'']"
    using sample_sds_ok [of "encode [''x'']"] length_encode_x by (simp_all add: full_client_def buf_ok_def unread_def demo_client_def)
  have e: "expects [''x''] full_client (encode [''x''])" using b(1) by (simp add: expects_def full_client_def demo_client_def)
  have k: "cmd_ok demo_conf [''x'']" by (simp add: cmd_ok_def demo_conf_limits)
  show ?thesis using request_roundtrip [OF e exact_alloc_ok k, of "[]" "[]"] b(2) by auto
qed




section \<open>Replies\<close>

text \<open>
  C12. Sending a sequence of values appends to the pending output exactly their representation in
  the protocol version of the client, wherever the bytes go: the fixed buffer, free space of the
  last block, or new blocks. The input side does not change. If output limits make the server give
  up the client, it stops accepting replies; without such limits it never does.
\<close>

theorem replies_rendered:
  assumes "out_ok c" "alloc_fit al" "\<forall>v\<in>set vs. value_ok v" "reply_bytes c + values_cost (resp c) vs < 2 ^ 63"
  shows "\<exists>c'. emit_all al sv c vs = Some c' \<and> out_ok c' \<and> in_view c' = in_view c \<and>
    (accepts c' \<longrightarrow> pending c' = pending c @ concat (map (render (resp c)) vs)) \<and>
    (accepts c \<and> no_obuf_limits sv \<longrightarrow> accepts c')"
proof -
  obtain c' where c': "emit_all al sv c vs = Some c'" "out_ok c'" "in_view c' = in_view c"
    "accepts c' \<longrightarrow> pending c' = pending c @ concat (map (render (resp c)) vs)"
    using out_reply.emit_all_correct [where al = al and w = "in_view c" and sv = sv, of c vs] assms by auto
  have "accepts c'" if "accepts c" "no_obuf_limits sv"
    using emit_all_accepts [OF that(2) _ assms(3) c'(1) that(1)] assms(2) by (simp add: alloc_fit_def)
  then show ?thesis using c' by blast
qed

theorem replies_rendered_witness:
  "\<exists>c'. emit_all exact_alloc demo_conf demo_client [Rv_status ''OK'', Rv_bulk ''x'', Rv_null] = Some c' \<and>
     pending c' = ''+OK'' @ [CR, LF] @ ''$1'' @ [CR, LF] @ ''x'' @ [CR, LF] @ ''$-1'' @ [CR, LF]"
proof -
  let ?vs = "[Rv_status ''OK'', Rv_bulk ''x'', Rv_null]"
  have r: "concat (map (render 2) ?vs) = ''+OK'' @ [CR, LF] @ ''$1'' @ [CR, LF] @ ''x'' @ [CR, LF] @ ''$-1'' @ [CR, LF]"
    by (simp add: render_bulk_def dec_1)
  have v: "\<forall>v\<in>set ?vs. value_ok v" by simp
  have "values_cost 2 ?vs < 2 ^ 63" by (simp add: render_bulk_def dec_1)
  then show ?thesis
    using replies_rendered [OF demo_client_output(1) exact_alloc_fit v, of demo_conf] unfolding demo_client_output r
    using demo_client_output(2) demo_conf_limits(1) by auto
qed

text \<open>
  C13. A length that is only known after its elements have been sent ends up where its placeholder
  was: in front of the elements and behind everything that was pending before, whether it goes to
  the free space of the block before, to the front of the block after, or to a block of its own.
\<close>

theorem deferred_length:
  assumes "out_ok c" "accepts c" "alloc_fit al" "0 \<le> n" "n < 2 ^ 63" "\<forall>v\<in>set vs. value_ok v"
    and "reply_bytes c + values_cost (resp c) vs + 2 * reply_cost 23 < 2 ^ 63"
  shows "\<exists>node c0 c1 c2. addReplyDeferredLen al c = (node, c0) \<and> emit_all al sv c0 vs = Some c1 \<and>
    setDeferredAggregateLen al sv c1 node n prefix = Some c2 \<and> out_ok c2 \<and> in_view c2 = in_view c \<and>
    (accepts c1 \<longrightarrow> pending c2 = pending c @ (prefix # dec (nat n) @ [CR, LF]) @ concat (map (render (resp c)) vs)) \<and>
    (no_obuf_limits sv \<longrightarrow> accepts c1)"
proof -
  have d: "dec_int n = dec (nat n)" using assms(4) by (simp add: dec_int_def)
  have l: "length (dec_int n) \<le> 20" using length_dec_less [of "nat n"] assms(5) d by simp
  obtain node c0 c1 c2 where r: "addReplyDeferredLen al c = (node, c0)" "emit_all al sv c0 vs = Some c1"
    "setDeferredAggregateLen al sv c1 node n prefix = Some c2" "out_ok c2" "in_view c2 = in_view c"
    "accepts c1 \<longrightarrow> pending c2 = pending c @ (prefix # dec (nat n) @ [CR, LF]) @ concat (map (render (resp c)) vs)"
    using deferred_correct [OF assms(1-3) l assms(4,6,7), of sv prefix] unfolding d by blast
  have "accepts c1" if "no_obuf_limits sv"
    using emit_all_accepts [OF that _ assms(6) r(2) addReplyDeferredLen_accepts [OF r(1) assms(2)]] assms(3) by (simp add: alloc_fit_def)
  then show ?thesis using r by blast
qed

theorem deferred_length_witness:
  "\<exists>node c0 c1 c2. addReplyDeferredLen exact_alloc demo_client = (node, c0) \<and>
     emit_all exact_alloc demo_conf c0 [Rv_null, Rv_bulk ''x''] = Some c1 \<and>
     setDeferredAggregateLen exact_alloc demo_conf c1 node 2 CHR ''*'' = Some c2 \<and>
     pending c2 = CHR ''*'' # dec 2 @ [CR, LF] @ ''$-1'' @ [CR, LF] @ ''$1'' @ [CR, LF] @ ''x'' @ [CR, LF]"
proof -
  let ?vs = "[Rv_null, Rv_bulk ''x'']"
  have r: "concat (map (render 2) ?vs) = ''$-1'' @ [CR, LF] @ ''$1'' @ [CR, LF] @ ''x'' @ [CR, LF]"
    by (simp add: render_bulk_def dec_1)
  have v: "\<forall>v\<in>set ?vs. value_ok v" by simp
  have "values_cost 2 ?vs + 2 * reply_cost 23 < 2 ^ 63" by (simp add: render_bulk_def dec_1 reply_cost_def)
  then show ?thesis
    using deferred_length [OF demo_client_output(1,2) exact_alloc_fit _ _ v, of 2 demo_conf "CHR ''*''"] unfolding demo_client_output r
    using demo_conf_limits(1) by auto
qed

text \<open>
  C14. \<^verbatim>\<open>writeToClient\<close> ends and hands the socket a prefix of the pending output, in order, nothing twice
  and nothing left out; what it has not written stays pending. If the socket always accepts
  something, it stops only when all is written or when it has written more than its limit per
  call. The client is only given up on an error, or after the last reply when it is to be closed.
\<close>

theorem replies_written:
  assumes "out_ok c" "no_holes c" "\<And>k n. w k n \<le> int n"
  shows "\<exists>ok out c'. writeToClient w connected sv c handler = Some (ok, out, c') \<and> out_ok c' \<and> in_view c' = in_view c \<and>
    pending c = out @ pending c' \<and>
    ((\<forall>k n. 0 < n \<longrightarrow> 0 < w k n) \<longrightarrow> pending c' \<noteq> [] \<longrightarrow> NET_MAX_WRITES_PER_EVENT < length out) \<and>
    flags c' = (if ok then flags c else flags (freeClientAsync c)) \<and>
    (\<not> ok \<longrightarrow> \<not> connected \<or> pending c' = [] \<and> CLIENT_CLOSE_AFTER_REPLY \<in> flags c)"
proof -
  obtain out nw d where d: "write_loop w sv 0 0 [] c = Some (out, nw, d)" "out_ok d" "in_view d = in_view c" "flags d = flags c"
    "pending c = out @ pending d"
    "(\<forall>k n. 0 < n \<longrightarrow> 0 < w k n) \<longrightarrow> clientHasPendingReplies d \<longrightarrow> NET_MAX_WRITES_PER_EVENT < length out"
    using write_loop_correct [where w = w and sv = sv and k = 0 and out = "[]", OF assms, of 0] unfolding append_Nil by blast
  have e: "pending x = [] \<and> sentlen x = 0" if "out_ok x" "\<not> clientHasPendingReplies x" for x
    using that by (auto simp: clientHasPendingReplies_def pending_def out_ok_def head_len_def)
  have v: "out_ok (x\<lparr>flags := f, lastinteraction := t, write_handler := h\<rparr>) = out_ok x" "in_view (x\<lparr>flags := f, lastinteraction := t, write_handler := h\<rparr>) = in_view x"
    "pending (x\<lparr>flags := f, lastinteraction := t, write_handler := h\<rparr>) = pending x" for x f t h
    by (simp_all add: out_ok_def head_len_def in_view_def pending_def)
  have sent: "sentlen d = 0" if "\<not> clientHasPendingReplies d" using e [OF d(2) that] by simp
  have fd: "flags (freeClientAsync d) = flags (freeClientAsync c)" using d(4) by (simp add: freeClientAsync_def set_flags_def)
  obtain ok f t h where k: "writeToClient w connected sv c handler = Some (ok, out, d\<lparr>flags := f, lastinteraction := t, write_handler := h\<rparr>)"
    "f = (if ok then flags c else flags (freeClientAsync c))" "\<not> ok \<longrightarrow> \<not> connected \<or> pending d = [] \<and> CLIENT_CLOSE_AFTER_REPLY \<in> flags c"
    using writeToClient_result [OF d(1) sent, of connected handler] e [OF d(2)] unfolding fd d(4) by blast
  have x: "(\<forall>k n. 0 < n \<longrightarrow> 0 < w k n) \<longrightarrow> pending d \<noteq> [] \<longrightarrow> NET_MAX_WRITES_PER_EVENT < length out"
    using d(6) e [OF d(2)] by blast
  show ?thesis by (rule exI, rule exI, rule exI, rule conjI [OF k(1)]) (use k(2,3) d(2,3,5) v x in simp)
qed

definition ready_client :: client where
  "ready_client = demo_client\<lparr>obuf := ''+OK'' @ [CR, LF] @ replicate 16379 NUL, bufpos := 5\<rparr>"

theorem replies_written_witness:
  "\<exists>c'. writeToClient (\<lambda>k n. if n = 0 then 0 else 1) True demo_conf ready_client False = Some (True, ''+OK'' @ [CR, LF], c') \<and> pending c' = []"
proof -
  have c: "out_ok ready_client" "no_holes ready_client" "flags ready_client = {}" "pending ready_client = ''+OK'' @ [CR, LF]"
    by (simp_all add: ready_client_def demo_client_def out_ok_def head_len_def no_holes_def pending_def)
  let ?w = "\<lambda>(k::nat) (n::nat). if n = 0 then 0 else (1::int)"
  have w: "?w k n \<le> int n" for k n by simp
  obtain ok out c' where r: "writeToClient ?w True demo_conf ready_client False = Some (ok, out, c')"
    "pending ready_client = out @ pending c'" "(\<forall>k n. 0 < n \<longrightarrow> 0 < ?w k n) \<longrightarrow> pending c' \<noteq> [] \<longrightarrow> NET_MAX_WRITES_PER_EVENT < length out"
    "\<not> ok \<longrightarrow> \<not> True \<or> pending c' = [] \<and> CLIENT_CLOSE_AFTER_REPLY \<in> flags ready_client"
    using replies_written [OF c(1,2) w, of True demo_conf False] by blast
  have "length out \<le> 5" using arg_cong [OF r(2), of length] c(4) by simp
  then have "pending c' = []" using r(3) by auto
  then show ?thesis using r c by auto
qed

end
