(* ===== verification/Spec2Isabelle.thy ===== *)
theory Spec2Isabelle
  imports Util_Num Util_Glob Dict_Properties Intset_Properties Sds_Properties Adlist_Properties Zset_Properties
    Networking_Properties
begin

text \<open>
  A verification development for the data structures and the network layer of Redis 6.2.5, the C
  program under \<^verbatim>\<open>src/docs/notes/Redis/redis-6.2.5/src\<close>.

  \<^bold>\<open>The program.\<close> A client's bytes are collected in a query buffer, which is a dynamic string
  (\<^verbatim>\<open>sds.c\<close>). The parsers of \<^verbatim>\<open>networking.c\<close> turn them into string objects (\<^verbatim>\<open>object.c\<close>) with the number
  conversions of \<^verbatim>\<open>util.c\<close>, a command runs, and its replies go to the output buffers of the client and
  from there to the socket. Commands keep their data in hash tables (\<^verbatim>\<open>dict.c\<close>), integer sets
  (\<^verbatim>\<open>intset.c\<close>), linked lists (\<^verbatim>\<open>adlist.c\<close>) and sorted sets (\<^verbatim>\<open>t_zset.c\<close>), which pair a hash table with a
  skip list.

  \<^bold>\<open>Conventions.\<close> Operations keep the names of the source; a leading underscore is written \<open>i_\<close>. A C
  function becomes a function that takes the state it changes and returns it changed. Undefined
  behaviour, a failed assertion or an access outside a block is \<^const>\<open>None\<close>; a NULL that the code
  returns is \<^const>\<open>None\<close> inside a result. Machine integers are words, or naturals with the wrap-around
  written out where the code can reach it. A loop that need not end is a \<^theory_text>\<open>partial_function\<close> whose value
  is \<^const>\<open>None\<close> when it does not end, so every theorem with a result shows that the loop ends; the other
  loops recurse structurally or with a termination proof. No fuel is used. Hash functions, random
  numbers, the allocator (size and contents of new blocks, failure), the clock, the socket and the
  execution of commands are arguments; the theorems hold for every choice that meets the named
  hypotheses, and each has a witness on concrete ones.

  \<^bold>\<open>Shared theories.\<close>
  \<^item> \<open>Redis_Prelude\<close>: names of machine integers and bytes, decimal notation, generic lemmas.
  \<^item> \<open>Bytes\<close>: memory as lists of bytes, little-endian integers, \<^verbatim>\<open>memmove\<close> and \<^verbatim>\<open>memcpy\<close>.
  \<^item> \<open>Interfaces\<close>: the contracts of sets, maps, sequences and sinks of bytes as locales, and what a
    program that uses them can rely on. They are interpreted on the integer sets, the dictionaries,
    the linked lists and the output of a client; the contract \<open>zsl_range\<close> of the tests of a range is
    interpreted on ranges by score and by element.

  \<^bold>\<open>Numbers and patterns\<close> (\<^verbatim>\<open>util.c\<close>). \<open>Util_Num\<close>: \<^verbatim>\<open>string2ll\<close> accepts exactly the canonical decimal
  forms of 64-bit integers, and \<^verbatim>\<open>ll2string\<close> is its inverse. \<open>Util_Glob\<close>: \<^verbatim>\<open>stringmatchlen\<close> agrees with a
  declarative semantics of patterns on strings that are not empty.

  \<^bold>\<open>Dynamic strings\<close> (\<^verbatim>\<open>sds.c\<close>, \<^verbatim>\<open>sds.h\<close>). \<open>Sds\<close> has the five header types, allocation and appending,
  \<open>Sds_Str\<close> formats, trimming, ranges, splitting, joining and quoting. \<open>Sds_Correct\<close>, \<open>Sds_Str_Correct\<close>
  and \<open>Sds_Split\<close> show that each operation keeps the invariant and has its result; \<open>Sds_Properties\<close>
  has the properties, among them the round trips of splitting and of quoting.

  \<^bold>\<open>Hash tables\<close> (\<^verbatim>\<open>dict.c\<close>). \<open>Dict\<close> has two tables with chains and incremental rehashing; \<open>Dict_Scan\<close> the
  stateless cursor. The invariant and the map a table stands for are in \<open>Dict_Correct\<close>, updates in
  \<open>Dict_Update\<close>, iterators and the progress of rehashing in \<open>Dict_Iter\<close>. \<open>Dict_Properties\<close>: the
  operations act as on a finite map at every stage of a rehash, a scan visits every key that stays,
  rehashing ends. \<open>Dict_Demo\<close> is the example of the witnesses.

  \<^bold>\<open>Integer sets\<close> (\<^verbatim>\<open>intset.c\<close>). \<open>Intset\<close> models the packed array byte for byte on a little-endian host;
  \<open>Intset_Correct\<close> and \<open>Intset_Properties\<close> show that it implements sets through every upgrade of the
  encoding, and what the integrity check accepts.

  \<^bold>\<open>Linked lists\<close> (\<^verbatim>\<open>adlist.c\<close>). \<open>Adlist\<close> works on an explicit memory of nodes; \<open>Adlist_Correct\<close> and
  \<open>Adlist_Properties\<close> show that the lists implement sequences and never follow a bad pointer, also
  when nodes are deleted during an iteration.

  \<^bold>\<open>Sorted sets\<close> (\<^verbatim>\<open>t_zset.c\<close>). \<open>Zskiplist\<close> and \<open>Zskiplist_Range\<close> have skip lists on an explicit memory,
  \<open>Zset\<close> sorted sets in the skip list encoding. The chains and spans of the levels are treated in
  \<open>Zskiplist_Chain\<close>, the invariant in \<open>Zskiplist_Correct\<close>, the operations in \<open>Zskiplist_Insert\<close>,
  \<open>Zskiplist_Delete\<close>, \<open>Zskiplist_Update\<close>, \<open>Zskiplist_Rank\<close> and \<open>Zskiplist_Range_Correct\<close>, the pairing with
  the dictionary in \<open>Zset_Correct\<close>. \<open>Zset_Properties\<close>: a sorted set is a finite map from elements to
  scores, ranks and ranges are those of the ordered sequence. \<open>Zset_Demo\<close> is the example. Skip lists
  have at most 32 levels, as in the code; the random numbers of a level are a stream, and the draw
  ends at the first large enough one.

  \<^bold>\<open>Network layer\<close> (\<^verbatim>\<open>networking.c\<close>, \<^verbatim>\<open>object.c\<close>). \<open>Client\<close> has string objects, the client and its output: the
  fixed buffer, the list of blocks, the limits, replies of each type, lengths that are filled in
  later and \<^verbatim>\<open>writeToClient\<close>. \<open>Query\<close> has both request parsers, the loop over the query buffer and the
  read handler. \<open>Client_Correct\<close> views the output as a stream of bytes, \<open>Client_Reply\<close> shows that
  replies append the RESP text of their values and that a length ends up at its placeholder,
  \<open>Client_Limits\<close> that without limits no client is given up, \<open>Client_Write\<close> that the socket gets the
  stream in order. \<open>Query_Correct\<close> and \<open>Query_Roundtrip\<close> show that a request is parsed to the arguments
  that were sent wherever the input is cut, \<open>Query_Safe\<close> that the parsers are defined on every input,
  \<open>Query_Loop\<close> that the commands run in order. \<open>Networking_Properties\<close> has the properties and their
  examples. Sizes are bounded by \<open>2 ^ 60\<close> or \<open>2 ^ 63\<close>, far above what the address space holds.

  \<^bold>\<open>Not modelled.\<close> The event loop, sockets, threads, TLS, timers and start-up, which are calls to the
  operating system. The execution of commands, with the keyspace, expiry, eviction, transactions,
  scripts, modules, access control and publish/subscribe: it is an argument of the read handler.
  Persistence, replication, cluster and Sentinel, which are protocols over files and several
  processes. The packed encodings (ziplist, quicklist, listpack, radix trees) and the data types
  built on them. Floating point beyond the order of scores, so also the parsing of score ranges.
  Within the modelled files: random sampling and fingerprints in \<^verbatim>\<open>dict.c\<close>, the functions of \<^verbatim>\<open>sds.c\<close> that
  call \<^verbatim>\<open>vsnprintf\<close>, the ziplist encoding of sorted sets, creation and release of clients, the \<^verbatim>\<open>CLIENT\<close>
  command, and replies with doubles, big numbers, verbatim strings, attributes and pushes. Log
  messages and statistics are left out throughout.
\<close>

end
